(* ===== verification/Axan_Prelude.thy ===== *)
theory Axan_Prelude
  imports Main "HOL-Library.Word" "HOL-Library.List_Lexorder" "HOL-Library.Sublist" "HOL-Library.Multiset"
begin

text \<open>
  Shared vocabulary of the development: the program's character and string types, the two
  counting loops the sources use over and over, and generic list lemmas.

  \<^item> \<open>wchar\<close> is the Windows \<^verbatim>\<open>wchar_t\<close> (an unsigned 16-bit code unit) and \<open>wstring\<close> is
    \<^verbatim>\<open>std::wstring\<close> / \<^verbatim>\<open>std::wstring_view\<close>; \<open>byte\<close> and \<open>bstring\<close> are \<^verbatim>\<open>char\<close> and
    \<^verbatim>\<open>std::string\<close>. The order on \<open>wstring\<close> is the lexicographic order that
    \<^verbatim>\<open>std::less\<close> uses on \<^verbatim>\<open>std::wstring\<close> (from \<open>List_Lexorder\<close>).
  \<^item> \<open>wlit\<close> writes an ASCII literal \<^verbatim>\<open>L"abc"\<close>.
  \<^item> \<open>find_down\<close> is the loop \<^verbatim>\<open>for (size_t i = n; i-- > 0;) if (P(i)) return i;\<close> and
    \<open>find_up\<close> the loop \<^verbatim>\<open>for (size_t i = a; i < n; ++i) if (P(i)) return i;\<close>.
\<close>

type_synonym wchar = "16 word"
type_synonym wstring = "wchar list"
type_synonym byte = "8 word"
type_synonym bstring = "byte list"

named_theorems axan_simps \<open>rewrite rules shared by the component proofs\<close>

definition wlit :: "string \<Rightarrow> wstring" where
  "wlit s = map of_char s"

definition blit :: "string \<Rightarrow> bstring" where
  "blit s = map of_char s"

lemma wlit_simps [simp]:
  "wlit [] = []" "wlit (c # s) = of_char c # wlit s"
  by (simp_all add: wlit_def)

lemma blit_simps [simp]:
  "blit [] = []" "blit (c # s) = of_char c # blit s"
  by (simp_all add: blit_def)

subsection \<open>Numerals\<close>

text \<open>A decimal numeral, most significant digit first.\<close>

fun decimal :: "nat \<Rightarrow> wstring" where
  "decimal n = (if n < 10 then [of_nat (0x30 + n)] else decimal (n div 10) @ [of_nat (0x30 + n mod 10)])"

declare decimal.simps [simp del]

subsection \<open>Counting loops\<close>

fun find_down :: "(nat \<Rightarrow> bool) \<Rightarrow> nat \<Rightarrow> nat option" where
  "find_down P 0 = None"
| "find_down P (Suc i) = (if P i then Some i else find_down P i)"

function find_up :: "(nat \<Rightarrow> bool) \<Rightarrow> nat \<Rightarrow> nat \<Rightarrow> nat option" where
  "find_up P i n = (if i < n then (if P i then Some i else find_up P (Suc i) n) else None)"
  by pat_completeness auto
termination
  by (relation "measure (\<lambda>(P, i, n). n - i)") auto

declare find_up.simps [simp del]

lemma find_down_None_iff [axan_simps]: "find_down P n = None \<longleftrightarrow> (\<forall>j < n. \<not> P j)"
  by (induction n) (auto simp: less_Suc_eq)

lemma find_down_Some_iff [axan_simps]:
  "find_down P n = Some i \<longleftrightarrow> i < n \<and> P i \<and> (\<forall>j. i < j \<and> j < n \<longrightarrow> \<not> P j)"
  by (induction n) (auto simp: less_Suc_eq)

lemma find_up_None_iff [axan_simps]: "find_up P a n = None \<longleftrightarrow> (\<forall>j. a \<le> j \<and> j < n \<longrightarrow> \<not> P j)"
proof (induction P a n rule: find_up.induct)
  case (1 P k n)
  show ?case
  proof (cases "k < n \<and> \<not> P k")
    case True
    then have "find_up P k n = find_up P (Suc k) n" by (simp add: find_up.simps [of P k n])
    with 1 True show ?thesis by (metis Suc_leI Suc_leD le_eq_less_or_eq)
  next
    case False
    then show ?thesis by (subst find_up.simps) auto
  qed
qed

lemma find_up_Some_iff [axan_simps]:
  "find_up P a n = Some i \<longleftrightarrow> a \<le> i \<and> i < n \<and> P i \<and> (\<forall>j. a \<le> j \<and> j < i \<longrightarrow> \<not> P j)"
proof (induction P a n rule: find_up.induct)
  case (1 P k n)
  show ?case
  proof (cases "k < n \<and> \<not> P k")
    case True
    then have "find_up P k n = find_up P (Suc k) n" by (simp add: find_up.simps [of P k n])
    with 1 True show ?thesis by (metis Suc_leI Suc_leD le_eq_less_or_eq)
  next
    case False
    then show ?thesis by (subst find_up.simps) (auto intro: leI simp: le_less)
  qed
qed

subsection \<open>Words and their bits\<close>

lemma unat_less_bits:
  fixes v :: "'a::len word"
  assumes "\<And>n. k \<le> n \<Longrightarrow> \<not> bit v n"
  shows "unat v < 2 ^ k"
proof -
  have "take_bit k v = v" by (rule bit_word_eqI) (use assms in \<open>auto simp: bit_simps intro: ccontr\<close>)
  then have "unat v = take_bit k (unat v)" by (metis unsigned_take_bit_eq)
  then show ?thesis by (metis take_bit_nat_less_exp)
qed

lemma bits_of_less:
  fixes v :: "'a::len word"
  assumes "unat v < 2 ^ k" and "k \<le> n"
  shows "\<not> bit v n"
proof
  assume "bit v n"
  then have "bit (unat v) n" by (simp add: bit_unsigned_iff)
  moreover have "take_bit k (unat v) = unat v" using assms(1) by (simp add: take_bit_nat_eq_self)
  ultimately show False using assms(2) by (metis bit_take_bit_iff not_le)
qed

lemma byte_bits: "\<not> bit (a :: byte) n" if "8 \<le> n"
  using that by (auto dest: bit_imp_le_length)

lemma byte_eqI: "(\<And>n. n \<in> {0, 1, 2, 3, 4, 5, 6, 7} \<Longrightarrow> bit a n = bit b n) \<Longrightarrow> a = (b :: byte)"
proof (rule bit_word_eqI)
  fix n assume h: "\<And>n. n \<in> {0, 1, 2, 3, 4, 5, 6, 7} \<Longrightarrow> bit a n = bit b n" and n: "n < LENGTH(8)"
  from n have "n \<in> {0, 1, 2, 3, 4, 5, 6, 7}" by auto
  then show "bit a n = bit b n" by (rule h)
qed

subsection \<open>Removing and inserting by index\<close>

text \<open>
  \<^verbatim>\<open>IVector::RemoveAt(i)\<close> and \<^verbatim>\<open>IVector::InsertAt(i, x)\<close>; both raise
  \<^verbatim>\<open>hresult_out_of_bounds\<close> (here \<open>None\<close>) when the index is out of range.
\<close>

definition removeAt :: "'a list \<Rightarrow> nat \<Rightarrow> 'a list option" where
  "removeAt xs i = (if i < length xs then Some (take i xs @ drop (Suc i) xs) else None)"

definition insertAt_list :: "'a list \<Rightarrow> nat \<Rightarrow> 'a \<Rightarrow> 'a list option" where
  "insertAt_list xs i x = (if i \<le> length xs then Some (take i xs @ x # drop i xs) else None)"

definition getAt :: "'a list \<Rightarrow> nat \<Rightarrow> 'a option" where
  "getAt xs i = (if i < length xs then Some (xs ! i) else None)"

lemma nths_conv_nth: "nths xs A = map ((!) xs) (filter (\<lambda>i. i \<in> A) [0 ..< length xs])"
proof (induction xs rule: rev_induct)
  case (snoc x xs)
  have "map ((!) (xs @ [x])) (filter (\<lambda>i. i \<in> A) [0 ..< length xs])
      = map ((!) xs) (filter (\<lambda>i. i \<in> A) [0 ..< length xs])"
    by (auto simp: nth_append)
  with snoc show ?case by (simp add: nths_append)
qed simp

lemma mset_nths_compl: "mset (nths xs A) + mset (nths xs (- A)) = mset xs"
proof (induction xs arbitrary: A)
  case (Cons x xs)
  have "{j. Suc j \<in> - A} = - {j. Suc j \<in> A}" by auto
  with Cons [of "{j. Suc j \<in> A}"] show ?case by (auto simp: nths_Cons)
qed simp

lemma take_nths_take: "take (length (nths (take t xs) A)) (nths xs A) = nths (take t xs) A"
proof -
  have "nths xs A = nths (take t xs) A @ nths (drop t xs) {j. j + length (take t xs) \<in> A}"
    by (metis append_take_drop_id nths_append)
  then show ?thesis by simp
qed

lemma filter_notin_nths:
  assumes "distinct xs"
  shows "filter (\<lambda>x. x \<notin> set (nths xs A)) xs = nths xs (- A)"
proof -
  have "x \<notin> set (nths xs A) \<longleftrightarrow> x \<in> set (nths xs (- A))" if "x \<in> set xs" for x
    using that assms by (auto simp: set_nths in_set_conv_nth nth_eq_iff_index_eq)
  then have "filter (\<lambda>x. x \<notin> set (nths xs A)) xs = filter (\<lambda>x. x \<in> set (nths xs (- A))) xs"
    by (rule filter_cong [OF refl])
  also have "\<dots> = nths xs (- A)" using assms by (rule filter_in_nths)
  finally show ?thesis .
qed

end
