(* ===== verification/VT_DispatchTypes.thy ===== *)
theory VT_DispatchTypes
  imports Axan_Prelude
begin

unbundle bit_operations_syntax

text \<open>
  The identifiers and parameters the parser hands to its engine,
  \<^verbatim>\<open>terminal/adapter/DispatchTypes.hpp\<close>: \<^verbatim>\<open>VTID\<close> and its builder as 64-bit words, a parameter as
  the \<^verbatim>\<open>VTInt\<close> it stores (negative = omitted), and the parameter list with its sub-parameter
  ranges, kept as pairs of bytes.
\<close>

type_synonym VTInt = int
type_synonym VTID = "64 word"

subsection \<open>Identifiers\<close>

definition VTID_of :: "64 word \<Rightarrow> VTID" where
  "VTID_of value = value AND 0x00FFFFFFFFFFFFFF"

text \<open>\<^verbatim>\<open>_FromString\<close>: the characters as bytes, the first in the lowest place.\<close>

fun VTID_FromString :: "bstring \<Rightarrow> VTID" where
  "VTID_FromString [] = 0"
| "VTID_FromString (c # s) = push_bit 8 (VTID_FromString s) + ucast c"

definition SubSequence :: "VTID \<Rightarrow> nat \<Rightarrow> VTID" where
  "SubSequence v offset = VTID_of (drop_bit (8 * offset) v)"

definition VTID_at :: "VTID \<Rightarrow> nat \<Rightarrow> byte" where
  "VTID_at v offset = ucast (SubSequence v offset AND 0xFF)"

record id_builder =
  idAccumulator :: "64 word"
  idShift :: nat

definition id_Clear :: id_builder where
  "id_Clear = \<lparr>idAccumulator = 0, idShift = 0\<rparr>"

definition AddIntermediate :: "wchar \<Rightarrow> id_builder \<Rightarrow> id_builder" where
  "AddIntermediate c b =
     (if idShift b + 8 * 2 \<ge> 64 then b\<lparr>idAccumulator := 0\<rparr>
      else b\<lparr>idAccumulator := idAccumulator b + push_bit (idShift b) (ucast c), idShift := idShift b + 8\<rparr>)"

definition Finalize :: "wchar \<Rightarrow> id_builder \<Rightarrow> VTID" where
  "Finalize c b = VTID_of (idAccumulator b + push_bit (idShift b) (ucast c))"

subsection \<open>Parameters\<close>

type_synonym VTParameter = VTInt

definition VTParameter_omitted :: VTParameter where
  "VTParameter_omitted = - 1"

definition has_value :: "VTParameter \<Rightarrow> bool" where
  "has_value p \<longleftrightarrow> p \<ge> 0"

definition value_or :: "VTParameter \<Rightarrow> VTInt \<Rightarrow> VTInt" where
  "value_or p d = (if p < 0 then d else p)"

definition as_VTInt :: "VTParameter \<Rightarrow> VTInt" where
  "as_VTInt p = (if p \<le> 0 then 1 else p)"

record vt_params =
  vp_params :: "VTParameter list"
  vp_subParams :: "VTParameter list"
  vp_subParamRanges :: "(byte \<times> byte) list"

definition params_only :: "VTParameter list \<Rightarrow> vt_params" where
  "params_only ps = \<lparr>vp_params = ps, vp_subParams = [], vp_subParamRanges = []\<rparr>"

definition vp_at :: "vt_params \<Rightarrow> nat \<Rightarrow> VTParameter" where
  "vp_at v i = (if i < length (vp_params v) then vp_params v ! i else VTParameter_omitted)"

definition vp_size :: "vt_params \<Rightarrow> nat" where
  "vp_size v = max (length (vp_params v)) 1"

definition vp_subspan :: "vt_params \<Rightarrow> nat \<Rightarrow> vt_params" where
  "vp_subspan v offset = v\<lparr>vp_params := drop (min offset (length (vp_params v))) (vp_params v),
     vp_subParamRanges := drop (min offset (length (vp_subParamRanges v))) (vp_subParamRanges v)\<rparr>"

text \<open>
  \<^verbatim>\<open>span::subspan(first, second - first)\<close>; the difference of two bytes is an \<^verbatim>\<open>int\<close>. An offset
  or a count that leaves the span is undefined behaviour, \<open>None\<close> here.
\<close>

definition subParamsFor :: "vt_params \<Rightarrow> nat \<Rightarrow> VTParameter list option" where
  "subParamsFor v i =
     (if i < length (vp_subParamRanges v) then
        (let (a, b) = vp_subParamRanges v ! i
         in if unat a \<le> unat b \<and> unat b \<le> length (vp_subParams v)
            then Some (take (unat b - unat a) (drop (unat a) (vp_subParams v))) else None)
      else Some [])"

definition hasSubParams :: "vt_params \<Rightarrow> bool" where
  "hasSubParams v \<longleftrightarrow> vp_subParams v \<noteq> []"

definition hasSubParamsFor :: "vt_params \<Rightarrow> nat \<Rightarrow> bool" where
  "hasSubParamsFor v i =
     (if i < length (vp_subParamRanges v) then snd (vp_subParamRanges v ! i) > fst (vp_subParamRanges v ! i)
      else False)"

definition sub_at :: "VTParameter list \<Rightarrow> nat \<Rightarrow> VTParameter" where
  "sub_at ps i = (if i < length ps then ps ! i else VTParameter_omitted)"

definition for_each_values :: "vt_params \<Rightarrow> VTParameter list" where
  "for_each_values v = (if vp_params v = [] then [VTParameter_omitted] else vp_params v)"

end
