(* ===== verification/VT_StateMachine.thy ===== *)
theory VT_StateMachine
  imports VT_DispatchTypes
begin

text \<open>
  The VT parser, \<^verbatim>\<open>terminal/parser/stateMachine.cpp\<close> and \<^verbatim>\<open>stateMachine.hpp\<close>.

  The engine (\<^verbatim>\<open>IStateMachineEngine\<close>) is the parameter \<open>eng\<close>: a function of the engine's own
  state, the part of the parser the engine can read, and the call, returning a reply, the parser's
  methods it invoked while it ran (\<^verbatim>\<open>SetParserMode\<close>, \<^verbatim>\<open>InjectSequence\<close>, \<^verbatim>\<open>OnCsiComplete\<close>), and
  its new state. \<open>Exn\<close> is a thrown exception; for \<open>CallDcsDispatch\<close> the Boolean says whether the
  returned handler is non-null; the handler's and the callback's captured state is engine state.
  A callback that processes a string (a macro) replies \<open>Inject\<close>.

  Every function returns \<open>vt_error + state\<close>; \<open>Inl\<close> is an exception that leaves the parser, an
  access that C++ leaves undefined (the \<^verbatim>\<open>back\<close> of an empty vector, the \<^verbatim>\<open>front\<close> of an empty
  view), or unbounded recursion. Calls to the tracing object are left out.

  \<open>FlushToTerminal\<close> and \<open>SafeExecute\<close> call each other, so \<open>FlushToTerminal\<close> is a partial function:
  \<open>None\<close> means it does not return. \<open>ProcessString\<close> takes the nesting depth allowed to strings that
  callbacks inject.
\<close>

subsection \<open>State\<close>

datatype vt_state = Ground | Escape | EscapeIntermediate | CsiEntry | CsiIntermediate | CsiIgnore
  | CsiParam | CsiSubParam | OscParam | OscString | OscTermination | Ss3Entry | Ss3Param | Vt52Param
  | DcsEntry | DcsIgnore | DcsIntermediate | DcsParam | DcsPassThrough | SosPmApcString

datatype vt_mode = AcceptC1 | Ansi

datatype injection_type = RIS | DECSET_FOCUS | W32IM

datatype vt_call = CallExecute wchar | CallExecuteFromEscape wchar | CallPrint wchar | CallPrintString wstring
  | CallPassThroughString wstring | CallEscDispatch VTID | CallVt52EscDispatch VTID vt_params
  | CallCsiDispatch VTID vt_params | CallDcsDispatch VTID vt_params | CallOscDispatch VTInt wstring
  | CallSs3Dispatch wchar vt_params | CallDcsChar wchar | CallWin32Query | CallCallback | CallCallbackDone

datatype vt_reply = Ret bool | Exn | Inject wstring

datatype vt_effect = SetParserMode vt_mode bool | InjectSequence injection_type | OnCsiComplete

datatype vt_error = BadFunctionCall | EmptyBack | EmptyFront | OutOfRange | EngineRaised | StackOverflow | NestingTooDeep

text \<open>What the engine can read of the parser: the modes and whether this is the last character.\<close>

record vt_view =
  v_acceptC1 :: bool
  v_ansi :: bool
  v_last :: bool

type_synonym 'e engine = "'e \<Rightarrow> vt_view \<Rightarrow> vt_call \<Rightarrow> vt_reply \<times> vt_effect list \<times> 'e"

record 'e sm =
  engine :: 'e
  isEngineForInput :: bool
  state :: vt_state
  acceptC1 :: bool
  ansi :: bool
  currentString :: wstring
  runOffset :: nat
  runSize :: nat
  idBuilder :: id_builder
  parameters :: "VTParameter list"
  parameterLimitOverflowed :: bool
  subParameters :: "VTParameter list"
  subParameterRanges :: "(byte \<times> byte) list"
  subParameterLimitOverflowed :: bool
  subParameterCounter :: byte
  oscString :: wstring
  oscParameter :: VTInt
  dcsStringHandler :: bool
  cachedSequence :: "wstring option"
  injections :: "(injection_type \<times> nat) list"
  processingLastCharacter :: bool
  onCsiCompleteCallback :: bool

type_synonym 'e step = "'e sm \<Rightarrow> vt_error + 'e sm"

definition andthen :: "'e step \<Rightarrow> 'e step \<Rightarrow> 'e step" where
  "andthen f g sm = (case f sm of Inl x \<Rightarrow> Inl x | Inr s \<Rightarrow> g s)"

definition MAX_PARAMETER_VALUE :: VTInt where "MAX_PARAMETER_VALUE = 65535"
definition MAX_PARAMETER_COUNT :: nat where "MAX_PARAMETER_COUNT = 32"
definition MAX_SUBPARAMETER_COUNT :: nat where "MAX_SUBPARAMETER_COUNT = 6"

definition NUL :: wchar where "NUL = 0x00"
definition BEL :: wchar where "BEL = 0x07"
definition ETB :: wchar where "ETB = 0x17"
definition CAN :: wchar where "CAN = 0x18"
definition EM :: wchar where "EM = 0x19"
definition SUB :: wchar where "SUB = 0x1A"
definition ESC :: wchar where "ESC = 0x1B"
definition FS :: wchar where "FS = 0x1C"
definition US :: wchar where "US = 0x1F"
definition SPC :: wchar where "SPC = 0x20"
definition DEL :: wchar where "DEL = 0x7F"

subsection \<open>Character classes\<close>

definition isNumericParamValue :: "wchar \<Rightarrow> bool" where
  "isNumericParamValue c \<longleftrightarrow> c \<ge> 0x30 \<and> c \<le> 0x39"

definition isC0Code :: "wchar \<Rightarrow> bool" where
  "isC0Code c \<longleftrightarrow> (c \<ge> NUL \<and> c \<le> ETB) \<or> c = EM \<or> (c \<ge> FS \<and> c \<le> US)"

definition isC1ControlCharacter :: "wchar \<Rightarrow> bool" where
  "isC1ControlCharacter c \<longleftrightarrow> c \<ge> 0x80 \<and> c \<le> 0x9F"

definition c1To7Bit :: "wchar \<Rightarrow> wchar" where
  "c1To7Bit c = c - 0x40"

definition isIntermediate :: "wchar \<Rightarrow> bool" where
  "isIntermediate c \<longleftrightarrow> c \<ge> 0x20 \<and> c \<le> 0x2F"

definition isDelete :: "wchar \<Rightarrow> bool" where
  "isDelete c \<longleftrightarrow> c = DEL"

definition isEscape :: "wchar \<Rightarrow> bool" where
  "isEscape c \<longleftrightarrow> c = ESC"

definition isParameterDelimiter :: "wchar \<Rightarrow> bool" where
  "isParameterDelimiter c \<longleftrightarrow> c = 0x3B"

definition isSubParameterDelimiter :: "wchar \<Rightarrow> bool" where
  "isSubParameterDelimiter c \<longleftrightarrow> c = 0x3A"

definition isCsiIndicator :: "wchar \<Rightarrow> bool" where
  "isCsiIndicator c \<longleftrightarrow> c = 0x5B"

definition isCsiPrivateMarker :: "wchar \<Rightarrow> bool" where
  "isCsiPrivateMarker c \<longleftrightarrow> c = 0x3C \<or> c = 0x3D \<or> c = 0x3E \<or> c = 0x3F"

definition isIntermediateInvalid :: "wchar \<Rightarrow> bool" where
  "isIntermediateInvalid c \<longleftrightarrow>
     isNumericParamValue c \<or> isSubParameterDelimiter c \<or> isParameterDelimiter c \<or> isCsiPrivateMarker c"

definition isParameterInvalid :: "wchar \<Rightarrow> bool" where
  "isParameterInvalid c \<longleftrightarrow> isCsiPrivateMarker c"

definition isStringTerminatorIndicator :: "wchar \<Rightarrow> bool" where
  "isStringTerminatorIndicator c \<longleftrightarrow> c = 0x5C"

definition isSs3Indicator :: "wchar \<Rightarrow> bool" where
  "isSs3Indicator c \<longleftrightarrow> c = 0x4F"

definition isVt52CursorAddress :: "wchar \<Rightarrow> bool" where
  "isVt52CursorAddress c \<longleftrightarrow> c = 0x59"

definition isOscIndicator :: "wchar \<Rightarrow> bool" where
  "isOscIndicator c \<longleftrightarrow> c = 0x5D"

definition isOscDelimiter :: "wchar \<Rightarrow> bool" where
  "isOscDelimiter c \<longleftrightarrow> c = 0x3B"

definition isOscInvalid :: "wchar \<Rightarrow> bool" where
  "isOscInvalid c \<longleftrightarrow> c \<le> 0x17 \<or> c = 0x19 \<or> (c \<ge> 0x1C \<and> c \<le> 0x1F)"

definition isOscTerminator :: "wchar \<Rightarrow> bool" where
  "isOscTerminator c \<longleftrightarrow> c = BEL"

definition isDcsIndicator :: "wchar \<Rightarrow> bool" where
  "isDcsIndicator c \<longleftrightarrow> c = 0x50"

definition isDcsPassThroughValid :: "wchar \<Rightarrow> bool" where
  "isDcsPassThroughValid c \<longleftrightarrow> c \<ge> SPC \<and> c < DEL"

definition isSosIndicator :: "wchar \<Rightarrow> bool" where
  "isSosIndicator c \<longleftrightarrow> c = 0x58"

definition isPmIndicator :: "wchar \<Rightarrow> bool" where
  "isPmIndicator c \<longleftrightarrow> c = 0x5E"

definition isApcIndicator :: "wchar \<Rightarrow> bool" where
  "isApcIndicator c \<longleftrightarrow> c = 0x5F"

text \<open>\<^verbatim>\<open>types/utils.cpp\<close>: the search the fast path of \<open>ProcessString\<close> uses.\<close>

definition isActionableFromGround :: "wchar \<Rightarrow> bool" where
  "isActionableFromGround c \<longleftrightarrow> c \<le> 0x1F \<or> c - 0x7F \<le> 0x20"

fun FindActionableControlCharacter :: "wstring \<Rightarrow> nat" where
  "FindActionableControlCharacter [] = 0"
| "FindActionableControlCharacter (c # cs) =
     (if isActionableFromGround c then 0 else Suc (FindActionableControlCharacter cs))"

subsection \<open>Calling the engine\<close>

definition apply_effect :: "vt_effect \<Rightarrow> 'e sm \<Rightarrow> 'e sm" where
  "apply_effect x sm =
     (case x of
        SetParserMode AcceptC1 b \<Rightarrow> sm\<lparr>acceptC1 := b\<rparr>
      | SetParserMode Ansi b \<Rightarrow> sm\<lparr>ansi := b\<rparr>
      | InjectSequence t \<Rightarrow> sm\<lparr>injections := injections sm @ [(t, runOffset sm + runSize sm)]\<rparr>
      | OnCsiComplete \<Rightarrow> sm\<lparr>onCsiCompleteCallback := True\<rparr>)"

definition view_of :: "'e sm \<Rightarrow> vt_view" where
  "view_of sm = \<lparr>v_acceptC1 = acceptC1 sm, v_ansi = ansi sm, v_last = processingLastCharacter sm\<rparr>"

definition call_engine :: "'e engine \<Rightarrow> vt_call \<Rightarrow> 'e sm \<Rightarrow> vt_reply \<times> 'e sm" where
  "call_engine eng c sm =
     (case eng (engine sm) (view_of sm) c of
        (r, xs, e) \<Rightarrow> (r, foldl (\<lambda>s x. apply_effect x s) (sm\<lparr>engine := e\<rparr>) xs))"

definition CurrentRun :: "'e sm \<Rightarrow> wstring option" where
  "CurrentRun sm =
     (if runOffset sm \<le> length (currentString sm)
      then Some (take (runSize sm) (drop (runOffset sm) (currentString sm))) else None)"

text \<open>
  \<^verbatim>\<open>FlushToTerminal\<close>, with the \<^verbatim>\<open>_SafeExecute\<close> around each pass-through call written out: a call
  that returns false flushes again before it reports failure.
\<close>

definition pass_through :: "'e engine \<Rightarrow> wstring option \<Rightarrow> 'e sm \<Rightarrow> vt_reply \<times> 'e sm" where
  "pass_through eng s sm =
     (case s of None \<Rightarrow> (Exn, sm) | Some str \<Rightarrow> call_engine eng (CallPassThroughString str) sm)"

partial_function (option) FlushToTerminal :: "'e engine \<Rightarrow> 'e sm \<Rightarrow> (bool \<times> 'e sm) option" where
  "FlushToTerminal eng sm =
     Option.bind
       (if cachedSequence sm = None then Some (True, sm)
        else
          (case pass_through eng (cachedSequence sm) sm of
             (r, sm1) \<Rightarrow>
               if r = Ret False
               then Option.bind (FlushToTerminal eng sm1) (\<lambda>p. Some (False, (snd p)\<lparr>cachedSequence := None\<rparr>))
               else Some (r \<noteq> Exn, sm1\<lparr>cachedSequence := None\<rparr>)))
       (\<lambda>p. if fst p then
              (case pass_through eng (CurrentRun (snd p)) (snd p) of
                 (r, sm2) \<Rightarrow>
                   if r = Ret False
                   then Option.bind (FlushToTerminal eng sm2) (\<lambda>q. Some (False, snd q))
                   else Some (r \<noteq> Exn, sm2))
            else Some p)"

declare FlushToTerminal.simps [code]

definition SafeExecute :: "'e engine \<Rightarrow> vt_call \<Rightarrow> 'e step" where
  "SafeExecute eng c sm =
     (case call_engine eng c sm of
        (r, sm1) \<Rightarrow>
          if r = Ret False
          then (case FlushToTerminal eng sm1 of None \<Rightarrow> Inl StackOverflow | Some p \<Rightarrow> Inr (snd p))
          else Inr sm1)"

subsection \<open>Actions\<close>

definition ActionExecute :: "'e engine \<Rightarrow> wchar \<Rightarrow> 'e step" where
  "ActionExecute eng c = SafeExecute eng (CallExecute c)"

definition ActionExecuteFromEscape :: "'e engine \<Rightarrow> wchar \<Rightarrow> 'e step" where
  "ActionExecuteFromEscape eng c = SafeExecute eng (CallExecuteFromEscape c)"

definition ActionPrint :: "'e engine \<Rightarrow> wchar \<Rightarrow> 'e step" where
  "ActionPrint eng c = SafeExecute eng (CallPrint c)"

definition ActionPrintString :: "'e engine \<Rightarrow> wstring \<Rightarrow> 'e step" where
  "ActionPrintString eng s = SafeExecute eng (CallPrintString s)"

definition ActionEscDispatch :: "'e engine \<Rightarrow> wchar \<Rightarrow> 'e step" where
  "ActionEscDispatch eng c sm = SafeExecute eng (CallEscDispatch (Finalize c (idBuilder sm))) sm"

definition ActionVt52EscDispatch :: "'e engine \<Rightarrow> wchar \<Rightarrow> 'e step" where
  "ActionVt52EscDispatch eng c sm =
     SafeExecute eng (CallVt52EscDispatch (Finalize c (idBuilder sm)) (params_only (parameters sm))) sm"

definition ActionCsiDispatch :: "'e engine \<Rightarrow> wchar \<Rightarrow> 'e step" where
  "ActionCsiDispatch eng c sm =
     SafeExecute eng (CallCsiDispatch (Finalize c (idBuilder sm))
       \<lparr>vp_params = parameters sm, vp_subParams = subParameters sm, vp_subParamRanges = subParameterRanges sm\<rparr>) sm"

definition ActionCollect :: "wchar \<Rightarrow> 'e sm \<Rightarrow> 'e sm" where
  "ActionCollect c sm = sm\<lparr>idBuilder := AddIntermediate c (idBuilder sm)\<rparr>"

definition AccumulateTo :: "wchar \<Rightarrow> VTInt \<Rightarrow> VTInt" where
  "AccumulateTo c v =
     (let v' = v * 10 + (uint c - 0x30)
      in if v' > MAX_PARAMETER_VALUE then MAX_PARAMETER_VALUE else v')"

text \<open>\<^verbatim>\<open>gsl::narrow_cast<BYTE>(_subParameters.size())\<close> keeps the low byte.\<close>

definition push_parameter :: "'e sm \<Rightarrow> 'e sm" where
  "push_parameter sm =
     (let rangeStart = (of_nat (length (subParameters sm)) :: byte)
      in sm\<lparr>parameters := parameters sm @ [VTParameter_omitted],
            subParameterRanges := subParameterRanges sm @ [(rangeStart, rangeStart)]\<rparr>)"

definition ActionParam :: "wchar \<Rightarrow> 'e sm \<Rightarrow> 'e sm" where
  "ActionParam c sm =
     (if parameterLimitOverflowed sm then sm
      else
        (let sm1 = (if parameters sm = [] then push_parameter sm else sm)
         in if isParameterDelimiter c then
              (if length (parameters sm1) \<ge> MAX_PARAMETER_COUNT
               then sm1\<lparr>parameterLimitOverflowed := True\<rparr>
               else push_parameter (sm1\<lparr>subParameterCounter := 0, subParameterLimitOverflowed := False\<rparr>))
            else
              sm1\<lparr>parameters := butlast (parameters sm1) @ [AccumulateTo c (value_or (last (parameters sm1)) 0)]\<rparr>))"

definition bump_last_range :: "(byte \<times> byte) list \<Rightarrow> (byte \<times> byte) list" where
  "bump_last_range rs = butlast rs @ [(fst (last rs), snd (last rs) + 1)]"

definition ActionSubParam :: "wchar \<Rightarrow> 'e step" where
  "ActionSubParam c sm =
     (if subParameterLimitOverflowed sm then Inr sm
      else
        (let sm1 = (if parameters sm = [] then push_parameter sm else sm)
         in if isSubParameterDelimiter c then
              (if unat (subParameterCounter sm1) \<ge> MAX_SUBPARAMETER_COUNT
               then Inr (sm1\<lparr>subParameterLimitOverflowed := True\<rparr>)
               else if subParameterRanges sm1 = [] then Inl EmptyBack
               else Inr (sm1\<lparr>subParameters := subParameters sm1 @ [VTParameter_omitted],
                             subParameterRanges := bump_last_range (subParameterRanges sm1),
                             subParameterCounter := subParameterCounter sm1 + 1\<rparr>))
            else if subParameters sm1 = [] then Inl EmptyBack
            else Inr (sm1\<lparr>subParameters := butlast (subParameters sm1)
                            @ [AccumulateTo c (value_or (last (subParameters sm1)) 0)]\<rparr>)))"

definition ActionClear :: "'e sm \<Rightarrow> 'e sm" where
  "ActionClear sm = sm\<lparr>idBuilder := id_Clear, parameters := [], parameterLimitOverflowed := False,
     subParameters := [], subParameterRanges := [], subParameterCounter := 0,
     subParameterLimitOverflowed := False, oscString := [], oscParameter := 0, dcsStringHandler := False\<rparr>"

text \<open>Calling the data string's handler; a null \<^verbatim>\<open>std::function\<close> throws.\<close>

definition call_handler :: "'e engine \<Rightarrow> wchar \<Rightarrow> 'e sm \<Rightarrow> vt_error + (bool \<times> 'e sm)" where
  "call_handler eng c sm =
     (if \<not> dcsStringHandler sm then Inl BadFunctionCall
      else case call_engine eng (CallDcsChar c) sm of
             (r, sm1) \<Rightarrow> if r = Exn then Inl EngineRaised else Inr (r = Ret True, sm1))"

definition ActionInterrupt :: "'e engine \<Rightarrow> 'e step" where
  "ActionInterrupt eng sm =
     (if state sm = DcsPassThrough then
        (case call_handler eng ESC sm of
           Inl x \<Rightarrow> Inl x
         | Inr (ok, sm1) \<Rightarrow> Inr (sm1\<lparr>dcsStringHandler := False\<rparr>))
      else Inr sm)"

definition ActionOscParam :: "wchar \<Rightarrow> 'e sm \<Rightarrow> 'e sm" where
  "ActionOscParam c sm = sm\<lparr>oscParameter := AccumulateTo c (oscParameter sm)\<rparr>"

definition ActionOscPut :: "wchar \<Rightarrow> 'e sm \<Rightarrow> 'e sm" where
  "ActionOscPut c sm = sm\<lparr>oscString := oscString sm @ [c]\<rparr>"

definition ActionOscDispatch :: "'e engine \<Rightarrow> 'e step" where
  "ActionOscDispatch eng sm = SafeExecute eng (CallOscDispatch (oscParameter sm) (oscString sm)) sm"

definition ActionSs3Dispatch :: "'e engine \<Rightarrow> wchar \<Rightarrow> 'e step" where
  "ActionSs3Dispatch eng c sm = SafeExecute eng (CallSs3Dispatch c (params_only (parameters sm))) sm"

subsection \<open>State entry\<close>

definition EnterGround :: "'e sm \<Rightarrow> 'e sm" where
  "EnterGround sm = sm\<lparr>state := Ground, cachedSequence := None\<rparr>"

definition EnterEscape :: "'e sm \<Rightarrow> 'e sm" where
  "EnterEscape sm = ActionClear (sm\<lparr>state := Escape\<rparr>)"

definition EnterEscapeIntermediate :: "'e sm \<Rightarrow> 'e sm" where
  "EnterEscapeIntermediate sm = sm\<lparr>state := EscapeIntermediate\<rparr>"

definition EnterCsiEntry :: "'e sm \<Rightarrow> 'e sm" where
  "EnterCsiEntry sm = ActionClear (sm\<lparr>state := CsiEntry\<rparr>)"

definition EnterCsiParam :: "'e sm \<Rightarrow> 'e sm" where
  "EnterCsiParam sm = sm\<lparr>state := CsiParam\<rparr>"

definition EnterCsiSubParam :: "'e sm \<Rightarrow> 'e sm" where
  "EnterCsiSubParam sm = sm\<lparr>state := CsiSubParam\<rparr>"

definition EnterCsiIgnore :: "'e sm \<Rightarrow> 'e sm" where
  "EnterCsiIgnore sm = sm\<lparr>state := CsiIgnore\<rparr>"

definition EnterCsiIntermediate :: "'e sm \<Rightarrow> 'e sm" where
  "EnterCsiIntermediate sm = sm\<lparr>state := CsiIntermediate\<rparr>"

definition EnterOscParam :: "'e sm \<Rightarrow> 'e sm" where
  "EnterOscParam sm = sm\<lparr>state := OscParam\<rparr>"

definition EnterOscString :: "'e sm \<Rightarrow> 'e sm" where
  "EnterOscString sm = sm\<lparr>state := OscString\<rparr>"

definition EnterOscTermination :: "'e sm \<Rightarrow> 'e sm" where
  "EnterOscTermination sm = sm\<lparr>state := OscTermination\<rparr>"

definition EnterSs3Entry :: "'e sm \<Rightarrow> 'e sm" where
  "EnterSs3Entry sm = ActionClear (sm\<lparr>state := Ss3Entry\<rparr>)"

definition EnterSs3Param :: "'e sm \<Rightarrow> 'e sm" where
  "EnterSs3Param sm = sm\<lparr>state := Ss3Param\<rparr>"

definition EnterVt52Param :: "'e sm \<Rightarrow> 'e sm" where
  "EnterVt52Param sm = sm\<lparr>state := Vt52Param\<rparr>"

definition EnterDcsEntry :: "'e sm \<Rightarrow> 'e sm" where
  "EnterDcsEntry sm = ActionClear (sm\<lparr>state := DcsEntry\<rparr>)"

definition EnterDcsParam :: "'e sm \<Rightarrow> 'e sm" where
  "EnterDcsParam sm = sm\<lparr>state := DcsParam\<rparr>"

definition EnterDcsIgnore :: "'e sm \<Rightarrow> 'e sm" where
  "EnterDcsIgnore sm = sm\<lparr>state := DcsIgnore, cachedSequence := None\<rparr>"

definition EnterDcsIntermediate :: "'e sm \<Rightarrow> 'e sm" where
  "EnterDcsIntermediate sm = sm\<lparr>state := DcsIntermediate\<rparr>"

definition EnterDcsPassThrough :: "'e sm \<Rightarrow> 'e sm" where
  "EnterDcsPassThrough sm = sm\<lparr>state := DcsPassThrough, cachedSequence := None\<rparr>"

definition EnterSosPmApcString :: "'e sm \<Rightarrow> 'e sm" where
  "EnterSosPmApcString sm = sm\<lparr>state := SosPmApcString, cachedSequence := None\<rparr>"

text \<open>The handler is assigned only when the engine's call returns.\<close>

definition ActionDcsDispatch :: "'e engine \<Rightarrow> wchar \<Rightarrow> 'e sm \<Rightarrow> 'e sm" where
  "ActionDcsDispatch eng c sm =
     (case call_engine eng (CallDcsDispatch (Finalize c (idBuilder sm)) (params_only (parameters sm))) sm of
        (r, sm1) \<Rightarrow>
          (let sm2 = (if r = Exn then sm1 else sm1\<lparr>dcsStringHandler := (r = Ret True)\<rparr>)
           in if dcsStringHandler sm2 then EnterDcsPassThrough sm2 else EnterDcsIgnore sm2))"

text \<open>
  \<^verbatim>\<open>_ExecuteCsiCompleteCallback\<close>; \<open>nested\<close> processes a string the callback injects.
\<close>

definition ExecuteCsiCompleteCallback :: "'e engine \<Rightarrow> (wstring \<Rightarrow> 'e step) \<Rightarrow> 'e step" where
  "ExecuteCsiCompleteCallback eng nested sm =
     (if \<not> onCsiCompleteCallback sm then Inr sm
      else
        (let restore = (\<lambda>s. s\<lparr>currentString := currentString sm, runOffset := runOffset sm, runSize := runSize sm\<rparr>)
         in case call_engine eng CallCallback (sm\<lparr>onCsiCompleteCallback := False\<rparr>) of
              (Exn, sm1) \<Rightarrow> Inl EngineRaised
            | (Ret b, sm1) \<Rightarrow> Inr (restore sm1)
            | (Inject s, sm1) \<Rightarrow>
                (case nested s sm1 of
                   Inl x \<Rightarrow> Inl x
                 | Inr sm2 \<Rightarrow> Inr (restore (snd (call_engine eng CallCallbackDone sm2))))))"

subsection \<open>Events\<close>

definition EventGround :: "'e engine \<Rightarrow> wchar \<Rightarrow> 'e step" where
  "EventGround eng c = (if isC0Code c \<or> isDelete c then ActionExecute eng c else ActionPrint eng c)"

definition thenGround :: "'e step \<Rightarrow> 'e step" where
  "thenGround f = andthen f (\<lambda>s. Inr (EnterGround s))"

definition EventEscape :: "'e engine \<Rightarrow> wchar \<Rightarrow> 'e step" where
  "EventEscape eng c sm =
     (if isC0Code c then
        (if isEngineForInput sm then thenGround (ActionExecuteFromEscape eng c) sm else ActionExecute eng c sm)
      else if isDelete c then Inr sm
      else if isIntermediate c then
        (if isEngineForInput sm then thenGround (ActionEscDispatch eng c) sm
         else Inr (EnterEscapeIntermediate (ActionCollect c sm)))
      else if ansi sm then
        (if isCsiIndicator c then Inr (EnterCsiEntry sm)
         else if isOscIndicator c then Inr (EnterOscParam sm)
         else if isSs3Indicator c \<and> isEngineForInput sm then Inr (EnterSs3Entry sm)
         else if isDcsIndicator c then Inr (EnterDcsEntry sm)
         else if isSosIndicator c \<or> isPmIndicator c \<or> isApcIndicator c then Inr (EnterSosPmApcString sm)
         else thenGround (ActionEscDispatch eng c) sm)
      else if isVt52CursorAddress c then Inr (EnterVt52Param sm)
      else thenGround (ActionVt52EscDispatch eng c) sm)"

definition EventEscapeIntermediate :: "'e engine \<Rightarrow> wchar \<Rightarrow> 'e step" where
  "EventEscapeIntermediate eng c sm =
     (if isC0Code c then ActionExecute eng c sm
      else if isIntermediate c then Inr (ActionCollect c sm)
      else if isDelete c then Inr sm
      else if ansi sm then thenGround (ActionEscDispatch eng c) sm
      else if isVt52CursorAddress c then Inr (EnterVt52Param sm)
      else thenGround (ActionVt52EscDispatch eng c) sm)"

text \<open>The end of every control sequence: dispatch, enter ground, run the callback.\<close>

definition csi_final :: "'e engine \<Rightarrow> (wstring \<Rightarrow> 'e step) \<Rightarrow> wchar \<Rightarrow> 'e step" where
  "csi_final eng nested c = andthen (thenGround (ActionCsiDispatch eng c)) (ExecuteCsiCompleteCallback eng nested)"

definition EventCsiEntry :: "'e engine \<Rightarrow> (wstring \<Rightarrow> 'e step) \<Rightarrow> wchar \<Rightarrow> 'e step" where
  "EventCsiEntry eng nested c sm =
     (if isC0Code c then ActionExecute eng c sm
      else if isDelete c then Inr sm
      else if isIntermediate c then Inr (EnterCsiIntermediate (ActionCollect c sm))
      else if isNumericParamValue c \<or> isParameterDelimiter c then Inr (EnterCsiParam (ActionParam c sm))
      else if isSubParameterDelimiter c then andthen (ActionSubParam c) (\<lambda>s. Inr (EnterCsiSubParam s)) sm
      else if isCsiPrivateMarker c then Inr (EnterCsiParam (ActionCollect c sm))
      else csi_final eng nested c sm)"

definition EventCsiIntermediate :: "'e engine \<Rightarrow> (wstring \<Rightarrow> 'e step) \<Rightarrow> wchar \<Rightarrow> 'e step" where
  "EventCsiIntermediate eng nested c sm =
     (if isC0Code c then ActionExecute eng c sm
      else if isIntermediate c then Inr (ActionCollect c sm)
      else if isDelete c then Inr sm
      else if isIntermediateInvalid c then Inr (EnterCsiIgnore sm)
      else csi_final eng nested c sm)"

definition EventCsiIgnore :: "'e engine \<Rightarrow> wchar \<Rightarrow> 'e step" where
  "EventCsiIgnore eng c sm =
     (if isC0Code c then ActionExecute eng c sm
      else if isDelete c then Inr sm
      else if isIntermediate c then Inr sm
      else if isIntermediateInvalid c then Inr sm
      else Inr (EnterGround sm))"

definition EventCsiParam :: "'e engine \<Rightarrow> (wstring \<Rightarrow> 'e step) \<Rightarrow> wchar \<Rightarrow> 'e step" where
  "EventCsiParam eng nested c sm =
     (if isC0Code c then ActionExecute eng c sm
      else if isDelete c then Inr sm
      else if isNumericParamValue c \<or> isParameterDelimiter c then Inr (ActionParam c sm)
      else if isSubParameterDelimiter c then andthen (ActionSubParam c) (\<lambda>s. Inr (EnterCsiSubParam s)) sm
      else if isIntermediate c then Inr (EnterCsiIntermediate (ActionCollect c sm))
      else if isParameterInvalid c then Inr (EnterCsiIgnore sm)
      else csi_final eng nested c sm)"

definition EventCsiSubParam :: "'e engine \<Rightarrow> (wstring \<Rightarrow> 'e step) \<Rightarrow> wchar \<Rightarrow> 'e step" where
  "EventCsiSubParam eng nested c sm =
     (if isC0Code c then ActionExecute eng c sm
      else if isDelete c then Inr sm
      else if isNumericParamValue c \<or> isSubParameterDelimiter c then ActionSubParam c sm
      else if isParameterDelimiter c then Inr (EnterCsiParam (ActionParam c sm))
      else if isIntermediate c then Inr (EnterCsiIntermediate (ActionCollect c sm))
      else if isParameterInvalid c then Inr (EnterCsiIgnore sm)
      else csi_final eng nested c sm)"

definition EventOscParam :: "'e engine \<Rightarrow> wchar \<Rightarrow> 'e step" where
  "EventOscParam eng c sm =
     (if isOscTerminator c then thenGround (ActionOscDispatch eng) sm
      else if isEscape c then Inr (EnterOscTermination sm)
      else if isNumericParamValue c then Inr (ActionOscParam c sm)
      else if isOscDelimiter c then Inr (EnterOscString sm)
      else Inr sm)"

definition EventOscString :: "'e engine \<Rightarrow> wchar \<Rightarrow> 'e step" where
  "EventOscString eng c sm =
     (if isOscTerminator c then thenGround (ActionOscDispatch eng) sm
      else if isEscape c then Inr (EnterOscTermination sm)
      else if isOscInvalid c then Inr sm
      else Inr (ActionOscPut c sm))"

definition EventOscTermination :: "'e engine \<Rightarrow> wchar \<Rightarrow> 'e step" where
  "EventOscTermination eng c sm =
     (if isStringTerminatorIndicator c then thenGround (ActionOscDispatch eng) sm
      else EventEscape eng c (EnterEscape sm))"

definition EventSs3Entry :: "'e engine \<Rightarrow> wchar \<Rightarrow> 'e step" where
  "EventSs3Entry eng c sm =
     (if isC0Code c then ActionExecute eng c sm
      else if isDelete c then Inr sm
      else if isSubParameterDelimiter c then Inr (EnterCsiIgnore sm)
      else if isNumericParamValue c \<or> isParameterDelimiter c then Inr (EnterSs3Param (ActionParam c sm))
      else thenGround (ActionSs3Dispatch eng c) sm)"

definition EventSs3Param :: "'e engine \<Rightarrow> wchar \<Rightarrow> 'e step" where
  "EventSs3Param eng c sm =
     (if isC0Code c then ActionExecute eng c sm
      else if isDelete c then Inr sm
      else if isNumericParamValue c \<or> isParameterDelimiter c then Inr (ActionParam c sm)
      else if isParameterInvalid c \<or> isSubParameterDelimiter c then Inr (EnterCsiIgnore sm)
      else thenGround (ActionSs3Dispatch eng c) sm)"

definition EventVt52Param :: "'e engine \<Rightarrow> wchar \<Rightarrow> 'e step" where
  "EventVt52Param eng c sm =
     (if isC0Code c then ActionExecute eng c sm
      else if isDelete c then Inr sm
      else
        (let sm1 = sm\<lparr>parameters := parameters sm @ [uint c]\<rparr>
         in if length (parameters sm1) = 2 then thenGround (ActionVt52EscDispatch eng 0x59) sm1 else Inr sm1))"

definition EventDcsEntry :: "'e engine \<Rightarrow> wchar \<Rightarrow> 'e step" where
  "EventDcsEntry eng c sm =
     (if isC0Code c then Inr sm
      else if isDelete c then Inr sm
      else if isSubParameterDelimiter c then Inr (EnterDcsIgnore sm)
      else if isNumericParamValue c \<or> isParameterDelimiter c then Inr (EnterDcsParam (ActionParam c sm))
      else if isIntermediate c then Inr (EnterDcsIntermediate (ActionCollect c sm))
      else Inr (ActionDcsDispatch eng c sm))"

definition EventDcsIgnore :: "'e step" where
  "EventDcsIgnore sm = Inr sm"

definition EventDcsIntermediate :: "'e engine \<Rightarrow> wchar \<Rightarrow> 'e step" where
  "EventDcsIntermediate eng c sm =
     (if isC0Code c then Inr sm
      else if isDelete c then Inr sm
      else if isIntermediate c then Inr (ActionCollect c sm)
      else if isIntermediateInvalid c then Inr (EnterDcsIgnore sm)
      else Inr (ActionDcsDispatch eng c sm))"

text \<open>
  The first two tests of the source only trace an "ignore"; the chain that follows them is a new
  \<^verbatim>\<open>if\<close>, so a control character goes on to be classified by it.
\<close>

definition EventDcsParam :: "'e engine \<Rightarrow> wchar \<Rightarrow> 'e step" where
  "EventDcsParam eng c sm =
     (if isNumericParamValue c \<or> isParameterDelimiter c then Inr (ActionParam c sm)
      else if isIntermediate c then Inr (EnterDcsIntermediate (ActionCollect c sm))
      else if isParameterInvalid c \<or> isSubParameterDelimiter c then Inr (EnterDcsIgnore sm)
      else Inr (ActionDcsDispatch eng c sm))"

definition EventDcsPassThrough :: "'e engine \<Rightarrow> wchar \<Rightarrow> 'e step" where
  "EventDcsPassThrough eng c sm =
     (if isC0Code c \<or> isDcsPassThroughValid c then
        (case call_handler eng c sm of
           Inl x \<Rightarrow> Inl x
         | Inr (ok, sm1) \<Rightarrow> Inr (if \<not> ok then EnterDcsIgnore sm1 else sm1))
      else Inr sm)"

definition EventSosPmApcString :: "'e step" where
  "EventSosPmApcString sm = Inr sm"

definition dispatch_event :: "'e engine \<Rightarrow> (wstring \<Rightarrow> 'e step) \<Rightarrow> wchar \<Rightarrow> 'e step" where
  "dispatch_event eng nested c sm =
     (case state sm of
        Ground \<Rightarrow> EventGround eng c sm
      | Escape \<Rightarrow> EventEscape eng c sm
      | EscapeIntermediate \<Rightarrow> EventEscapeIntermediate eng c sm
      | CsiEntry \<Rightarrow> EventCsiEntry eng nested c sm
      | CsiIntermediate \<Rightarrow> EventCsiIntermediate eng nested c sm
      | CsiIgnore \<Rightarrow> EventCsiIgnore eng c sm
      | CsiParam \<Rightarrow> EventCsiParam eng nested c sm
      | CsiSubParam \<Rightarrow> EventCsiSubParam eng nested c sm
      | OscParam \<Rightarrow> EventOscParam eng c sm
      | OscString \<Rightarrow> EventOscString eng c sm
      | OscTermination \<Rightarrow> EventOscTermination eng c sm
      | Ss3Entry \<Rightarrow> EventSs3Entry eng c sm
      | Ss3Param \<Rightarrow> EventSs3Param eng c sm
      | Vt52Param \<Rightarrow> EventVt52Param eng c sm
      | DcsEntry \<Rightarrow> EventDcsEntry eng c sm
      | DcsIgnore \<Rightarrow> EventDcsIgnore sm
      | DcsIntermediate \<Rightarrow> EventDcsIntermediate eng c sm
      | DcsParam \<Rightarrow> EventDcsParam eng c sm
      | DcsPassThrough \<Rightarrow> EventDcsPassThrough eng c sm
      | SosPmApcString \<Rightarrow> EventSosPmApcString sm)"

subsection \<open>Characters and strings\<close>

lemma c1To7Bit_not_C1: "isC1ControlCharacter c \<Longrightarrow> \<not> isC1ControlCharacter (c1To7Bit c)"
  unfolding isC1ControlCharacter_def c1To7Bit_def by unat_arith

lemma ESC_not_C1: "\<not> isC1ControlCharacter ESC"
  by (simp add: isC1ControlCharacter_def ESC_def)

function ProcessCharacter :: "'e engine \<Rightarrow> (wstring \<Rightarrow> 'e step) \<Rightarrow> wchar \<Rightarrow> 'e step" where
  "ProcessCharacter eng nested c sm =
     (if (c = CAN \<or> c = SUB) \<and> \<not> (state sm = Escape \<and> isEngineForInput sm) then
        andthen (ActionInterrupt eng) (thenGround (ActionExecute eng c)) sm
      else if isC1ControlCharacter c then
        (if acceptC1 sm then
           (case ProcessCharacter eng nested ESC sm of
              Inl x \<Rightarrow> Inl x
            | Inr s \<Rightarrow> ProcessCharacter eng nested (c1To7Bit c) s)
         else Inr sm)
      else if isEscape c \<and> state sm \<noteq> OscString \<and> state sm \<noteq> OscParam then
        andthen (ActionInterrupt eng) (\<lambda>s. Inr (EnterEscape s)) sm
      else dispatch_event eng nested c sm)"
  by pat_completeness auto
termination
  by (relation "measure (\<lambda>(eng, nested, c, sm). if isC1ControlCharacter c then 1 else 0)")
    (auto simp: c1To7Bit_not_C1 ESC_not_C1)

declare ProcessCharacter.simps [simp del]

function vt_loop :: "'e engine \<Rightarrow> (wstring \<Rightarrow> 'e step) \<Rightarrow> wstring \<Rightarrow> nat \<Rightarrow> 'e sm \<Rightarrow> vt_error + (nat \<times> 'e sm)" where
  "vt_loop eng nested str i sm =
     (if i < length str then
        (case ProcessCharacter eng nested (str ! i)
                (sm\<lparr>runSize := runSize sm + 1, processingLastCharacter := (i + 1 \<ge> length str)\<rparr>) of
           Inl x \<Rightarrow> Inl x
         | Inr sm1 \<Rightarrow>
             if i + 1 < length str \<and> state sm1 \<noteq> Ground then vt_loop eng nested str (i + 1) sm1 else Inr (i + 1, sm1))
      else Inr (i, sm))"
  by pat_completeness auto
termination
  by (relation "measure (\<lambda>(eng, nested, str, i, sm). length str - i)") auto

declare vt_loop.simps [simp del]

lemma vt_loop_progress: "vt_loop eng nested str i sm = Inr (j, sm') \<Longrightarrow> i < length str \<Longrightarrow> i < j \<and> j \<le> length str"
proof (induction eng nested str i sm rule: vt_loop.induct)
  case (1 eng nested str i sm)
  then show ?case by (subst (asm) (2) vt_loop.simps) (fastforce split: sum.splits if_splits)
qed

definition print_run :: "'e engine \<Rightarrow> wstring \<Rightarrow> nat \<Rightarrow> 'e sm \<Rightarrow> vt_error + (nat \<times> 'e sm)" where
  "print_run eng str i sm =
     (let run = FindActionableControlCharacter (drop i str);
          sm1 = sm\<lparr>runOffset := i, runSize := run\<rparr>
      in if run \<noteq> 0 then
           (case CurrentRun sm1 of
              None \<Rightarrow> Inl OutOfRange
            | Some s \<Rightarrow>
                (case ActionPrintString eng s sm1 of
                   Inl x \<Rightarrow> Inl x
                 | Inr sm2 \<Rightarrow> Inr (i + run, sm2\<lparr>runOffset := i + run, runSize := 0\<rparr>)))
         else Inr (i, sm1))"

lemma print_run_progress: "print_run eng str i sm = Inr (j, sm') \<Longrightarrow> i \<le> j"
  by (auto simp: print_run_def Let_def split: if_splits option.splits sum.splits)

function string_loop :: "'e engine \<Rightarrow> (wstring \<Rightarrow> 'e step) \<Rightarrow> wstring \<Rightarrow> nat \<Rightarrow> 'e step" where
  "string_loop eng nested str i sm =
     (if i < length str then
        (case print_run eng str i sm of
           Inl x \<Rightarrow> Inl x
         | Inr (j, sm1) \<Rightarrow>
             if j \<ge> length str then Inr sm1
             else (case vt_loop eng nested str j sm1 of
                     Inl x \<Rightarrow> Inl x
                   | Inr (k, sm2) \<Rightarrow> string_loop eng nested str k sm2))
      else Inr sm)"
  by pat_completeness auto
termination
proof (relation "measure (\<lambda>(eng, nested, str, i, sm). length str - i)", goal_cases)
  case prems: (2 eng nested str i sm a j sm1 b k sm2)
  then have "i \<le> j" "j < k" "i < length str"
    using print_run_progress [of eng str i sm j sm1] vt_loop_progress [of eng nested str j sm1 k sm2] by auto
  then show ?case by simp
qed simp

declare string_loop.simps [simp del]

text \<open>The end of \<^verbatim>\<open>ProcessString\<close>: what to do with an unfinished sequence.\<close>

definition cache_run :: "wstring \<Rightarrow> 'e sm \<Rightarrow> 'e sm" where
  "cache_run run sm =
     sm\<lparr>cachedSequence := Some ((case cachedSequence sm of None \<Rightarrow> [] | Some s \<Rightarrow> s) @ run)\<rparr>"

definition finish_string :: "'e engine \<Rightarrow> 'e step" where
  "finish_string eng sm =
     (if state sm = Ground then Inr sm
      else case CurrentRun sm of
        None \<Rightarrow> Inl OutOfRange
      | Some run \<Rightarrow>
          if isEngineForInput sm then
            (let win32 = (fst (eng (engine sm) (view_of sm) CallWin32Query) = Ret True)
             in if \<not> win32 \<and> length run \<le> 2 then
                  (if run = [] then Inl EmptyFront
                   else if hd run = ESC then
                     (if length run = 1
                      then thenGround (ActionExecute eng ESC) (EnterGround sm)
                      else thenGround (ActionEscDispatch eng (last run)) (EnterEscape (EnterGround sm)))
                   else Inr (cache_run run sm))
                else Inr (cache_run run sm))
          else if state sm = SosPmApcString \<or> state sm = DcsPassThrough \<or> state sm = DcsIgnore then Inr sm
          else Inr (cache_run run sm))"

definition start_string :: "wstring \<Rightarrow> 'e sm \<Rightarrow> 'e sm" where
  "start_string str sm = sm\<lparr>currentString := str, runOffset := 0, runSize := 0, injections := []\<rparr>"

definition process_with :: "'e engine \<Rightarrow> (wstring \<Rightarrow> 'e step) \<Rightarrow> wstring \<Rightarrow> 'e step" where
  "process_with eng nested str sm =
     (let sm0 = start_string str sm;
          looped = (if state sm0 \<noteq> Ground
                    then (if str = [] then Inr sm0
                          else case vt_loop eng nested str 0 sm0 of
                                 Inl x \<Rightarrow> Inl x
                               | Inr (i, sm1) \<Rightarrow> string_loop eng nested str i sm1)
                    else string_loop eng nested str 0 sm0)
      in case looped of Inl x \<Rightarrow> Inl x | Inr sm2 \<Rightarrow> finish_string eng sm2)"

fun ProcessString :: "'e engine \<Rightarrow> nat \<Rightarrow> wstring \<Rightarrow> 'e step" where
  "ProcessString eng 0 str sm = Inl NestingTooDeep"
| "ProcessString eng (Suc n) str sm = process_with eng (ProcessString eng n) str sm"

definition ResetState :: "'e sm \<Rightarrow> 'e sm" where
  "ResetState sm = EnterGround sm"

definition init_sm :: "'e \<Rightarrow> bool \<Rightarrow> 'e sm" where
  "init_sm e forInput = ActionClear \<lparr>engine = e, isEngineForInput = forInput, state = Ground,
     acceptC1 = forInput, ansi = True, currentString = [], runOffset = 0, runSize = 0,
     idBuilder = id_Clear, parameters = [], parameterLimitOverflowed = False, subParameters = [],
     subParameterRanges = [], subParameterLimitOverflowed = False, subParameterCounter = 0,
     oscString = [], oscParameter = 0, dcsStringHandler = False, cachedSequence = None, injections = [],
     processingLastCharacter = False, onCsiCompleteCallback = False\<rparr>"

end
