(* ===== verification/VT_Search.thy ===== *)
theory VT_Search
  imports VT_StateMachine
begin

unbundle bit_operations_syntax

text \<open>
  The vectorised character search of \<^verbatim>\<open>types/utils.cpp\<close>, \<^verbatim>\<open>FindActionableControlCharacter\<close>, in
  its SSE2 and NEON variants: eight 16-bit lanes per step, a bit mask of the lanes that matched and
  the index of its lowest bit; the plain loop finishes the last (fewer than eight) characters. Both
  are shown to find what the plain loop finds.
\<close>

subsection \<open>Lanes and masks\<close>

definition all_ones :: wchar where "all_ones = 0xFFFF"

text \<open>\<^verbatim>\<open>_mm_subs_epu16\<close>: unsigned subtraction that saturates at zero.\<close>

definition subs_epu16 :: "wchar \<Rightarrow> wchar \<Rightarrow> wchar" where
  "subs_epu16 a b = (if a \<le> b then 0 else a - b)"

definition cmpeq_epi16 :: "wchar \<Rightarrow> wchar \<Rightarrow> wchar" where
  "cmpeq_epi16 a b = (if a = b then all_ones else 0)"

definition cleq_u16 :: "wchar \<Rightarrow> wchar \<Rightarrow> wchar" where
  "cleq_u16 a b = (if a \<le> b then all_ones else 0)"

definition sse_lane :: "wchar \<Rightarrow> wchar" where
  "sse_lane wch =
     (let a = cmpeq_epi16 (subs_epu16 wch 0x1F) 0;
          b = cmpeq_epi16 (subs_epu16 (wch + 0xFF81) 0x20) 0
      in a OR b)"

definition neon_lane :: "wchar \<Rightarrow> wchar" where
  "neon_lane wch = (let a = cleq_u16 wch 0x1F; b = cleq_u16 (wch - 0x7F) 0x20 in a OR b)"

text \<open>\<^verbatim>\<open>_mm_movemask_epi8\<close>: the top bit of every byte, two bytes per lane.\<close>

fun movemask_epi8 :: "wchar list \<Rightarrow> nat" where
  "movemask_epi8 [] = 0"
| "movemask_epi8 (l # ls) = of_bool (bit l 7) + 2 * of_bool (bit l 15) + 4 * movemask_epi8 ls"

text \<open>\<^verbatim>\<open>vgetq_lane_u64\<close>: four 16-bit lanes read as one 64-bit number, little endian.\<close>

fun lane_u64 :: "wchar list \<Rightarrow> nat" where
  "lane_u64 [] = 0"
| "lane_u64 (l # ls) = unat l + 65536 * lane_u64 ls"

text \<open>\<^verbatim>\<open>_BitScanForward\<close>: the index of the lowest set bit.\<close>

fun BitScanForward :: "nat \<Rightarrow> nat" where
  "BitScanForward m = (if m = 0 \<or> odd m then 0 else Suc (BitScanForward (m div 2)))"

declare BitScanForward.simps [simp del]

subsection \<open>The loops\<close>

function sse_loop :: "wstring \<Rightarrow> nat \<Rightarrow> nat \<Rightarrow> nat + nat" where
  "sse_loop s end it =
     (if it < end then
        (let mask = movemask_epi8 (map sse_lane (take 8 (drop it s)))
         in if mask \<noteq> 0 then Inl (it + BitScanForward mask div 2) else sse_loop s end (it + 8))
      else Inr it)"
  by pat_completeness auto
termination
  by (relation "measure (\<lambda>(s, e, it). e - it)") auto

function neon_loop :: "wstring \<Rightarrow> nat \<Rightarrow> nat \<Rightarrow> nat + nat" where
  "neon_loop s end it =
     (if it \<ge> end then Inr it
      else
        (let c = map neon_lane (take 8 (drop it s));
             mask = lane_u64 (take 4 c)
         in if mask \<noteq> 0 then Inl (it + BitScanForward mask div 16)
            else
              (let it = it + 4;
                   mask = lane_u64 (drop 4 c)
               in if mask \<noteq> 0 then Inl (it + BitScanForward mask div 16) else neon_loop s end (it + 4))))"
  by pat_completeness auto
termination
  by (relation "measure (\<lambda>(s, e, it). e - it)") auto

declare sse_loop.simps [simp del] neon_loop.simps [simp del]

definition FindActionable_with :: "(wstring \<Rightarrow> nat \<Rightarrow> nat \<Rightarrow> nat + nat) \<Rightarrow> wstring \<Rightarrow> nat" where
  "FindActionable_with loop s =
     (case loop s (length s - length s mod 8) 0 of
        Inl i \<Rightarrow> i
      | Inr it \<Rightarrow> it + FindActionableControlCharacter (drop it s))"

subsection \<open>The lanes test the right characters\<close>

lemma sse_lane_iff: "sse_lane c = (if isActionableFromGround c then all_ones else 0)"
proof -
  have eq: "c + 0xFF81 = c - 0x7F" by (simp add: diff_conv_add_uminus del: add_uminus_conv_diff)
  have sub: "subs_epu16 a b = 0 \<longleftrightarrow> a \<le> b" for a b by (auto simp: subs_epu16_def)
  show ?thesis
    unfolding sse_lane_def cmpeq_epi16_def isActionableFromGround_def all_ones_def Let_def sub eq by simp
qed

lemma neon_lane_iff: "neon_lane c = (if isActionableFromGround c then all_ones else 0)"
  by (simp add: neon_lane_def cleq_u16_def isActionableFromGround_def all_ones_def Let_def)

lemma Find_takeWhile: "FindActionableControlCharacter s = length (takeWhile (\<lambda>c. \<not> isActionableFromGround c) s)"
  by (induction s) simp_all

lemma all_ones_bits: "bit all_ones 7" "bit all_ones 15" "unat all_ones = 65535"
  by (simp_all add: all_ones_def)

definition hits :: "wstring \<Rightarrow> wchar list" where
  "hits s = map (\<lambda>c. if isActionableFromGround c then all_ones else 0) s"

lemma scan_shift: "m \<noteq> 0 \<Longrightarrow> BitScanForward (2 ^ k * m) = k + BitScanForward m"
proof (induction k)
  case (Suc k)
  then show ?case by (subst BitScanForward.simps) (simp add: mult.assoc)
qed simp

lemma movemask_hits:
  "movemask_epi8 (hits s) = 0 \<longleftrightarrow> (\<forall>c \<in> set s. \<not> isActionableFromGround c)"
  "movemask_epi8 (hits s) \<noteq> 0 \<Longrightarrow> BitScanForward (movemask_epi8 (hits s)) div 2 = FindActionableControlCharacter s"
proof -
  show "movemask_epi8 (hits s) = 0 \<longleftrightarrow> (\<forall>c \<in> set s. \<not> isActionableFromGround c)"
    by (induction s) (simp_all add: hits_def all_ones_bits)
  show "BitScanForward (movemask_epi8 (hits s)) div 2 = FindActionableControlCharacter s" if "movemask_epi8 (hits s) \<noteq> 0"
    using that
  proof (induction s)
    case (Cons c s)
    show ?case
    proof (cases "isActionableFromGround c")
      case True
      then show ?thesis by (subst BitScanForward.simps) (simp add: hits_def all_ones_bits)
    next
      case False
      with Cons scan_shift [of "movemask_epi8 (hits s)" 2] show ?thesis by (simp add: hits_def)
    qed
  qed (simp add: hits_def)
qed

lemma lane_hits:
  "lane_u64 (hits s) = 0 \<longleftrightarrow> (\<forall>c \<in> set s. \<not> isActionableFromGround c)"
  "lane_u64 (hits s) \<noteq> 0 \<Longrightarrow> BitScanForward (lane_u64 (hits s)) div 16 = FindActionableControlCharacter s"
proof -
  show "lane_u64 (hits s) = 0 \<longleftrightarrow> (\<forall>c \<in> set s. \<not> isActionableFromGround c)"
    by (induction s) (simp_all add: hits_def all_ones_bits)
  show "BitScanForward (lane_u64 (hits s)) div 16 = FindActionableControlCharacter s" if "lane_u64 (hits s) \<noteq> 0"
    using that
  proof (induction s)
    case (Cons c s)
    show ?case
    proof (cases "isActionableFromGround c")
      case True
      then show ?thesis by (subst BitScanForward.simps) (simp add: hits_def all_ones_bits)
    next
      case False
      with Cons scan_shift [of "lane_u64 (hits s)" 16] show ?thesis by (simp add: hits_def)
    qed
  qed (simp add: hits_def)
qed

subsection \<open>The searches agree\<close>

text \<open>A search that has found nothing before \<open>it\<close> finishes with the plain search from there.\<close>

definition from_here :: "wstring \<Rightarrow> nat \<Rightarrow> nat" where
  "from_here s it = it + FindActionableControlCharacter (drop it s)"

lemma Find_append: "FindActionableControlCharacter (a @ b) =
  (if \<forall>c \<in> set a. \<not> isActionableFromGround c then length a + FindActionableControlCharacter b else FindActionableControlCharacter a)"
  by (induction a) auto

lemma Find_take:
  "FindActionableControlCharacter s =
     (if \<forall>c \<in> set (take n s). \<not> isActionableFromGround c
      then length (take n s) + FindActionableControlCharacter (drop n s)
      else FindActionableControlCharacter (take n s))"
  using Find_append [of "take n s" "drop n s"] by simp

lemma from_here_skip:
  assumes "\<forall>c \<in> set (take n (drop it s)). \<not> isActionableFromGround c" and "it + n \<le> length s"
  shows "from_here s it = from_here s (it + n)"
  using Find_take [of "drop it s" n] assms by (simp add: from_here_def add.commute)

lemma from_here_stop:
  assumes "\<not> (\<forall>c \<in> set (take n (drop it s)). \<not> isActionableFromGround c)"
  shows "from_here s it = it + FindActionableControlCharacter (take n (drop it s))"
  using Find_take [of "drop it s" n] assms by (simp add: from_here_def)

definition agrees :: "wstring \<Rightarrow> nat \<Rightarrow> nat + nat \<Rightarrow> bool" where
  "agrees s k r \<longleftrightarrow> (case r of Inl i \<Rightarrow> i = k | Inr j \<Rightarrow> from_here s j = k)"

definition searches :: "(wstring \<Rightarrow> nat \<Rightarrow> nat \<Rightarrow> nat + nat) \<Rightarrow> bool" where
  "searches loop \<longleftrightarrow> (\<forall>s e it. e \<le> length s \<longrightarrow> e mod 8 = it mod 8 \<longrightarrow> agrees s (from_here s it) (loop s e it))"

lemma agrees_simps [simp]: "agrees s k (Inl i) \<longleftrightarrow> i = k" "agrees s k (Inr j) \<longleftrightarrow> from_here s j = k"
  by (simp_all add: agrees_def)

lemma block_fits: "it < e \<Longrightarrow> e mod 8 = it mod (8 :: nat) \<Longrightarrow> it + 8 \<le> e"
  using mod_eq_dvd_iff_nat [of it e 8] dvd_imp_le [of 8 "e - it"] by auto

lemma sse_searches: "searches sse_loop"
proof -
  have "e \<le> length s \<Longrightarrow> e mod 8 = it mod 8 \<Longrightarrow> agrees s (from_here s it) (sse_loop s e it)" for s e it
  proof (induction s e it rule: sse_loop.induct)
    case (1 s e it)
    show ?case
    proof (cases "it < e")
      case True
      define w where "w = take 8 (drop it s)"
      have m: "map sse_lane w = hits w" by (simp add: hits_def sse_lane_iff)
      have fits: "it + 8 \<le> length s" using block_fits [OF True 1(3)] 1(2) by linarith
      show ?thesis
      proof (cases "movemask_epi8 (hits w) = 0")
        case z: True
        then have "from_here s it = from_here s (it + 8)"
          using movemask_hits(1) from_here_skip [OF _ fits] by (simp add: w_def)
        with 1 True z m show ?thesis by (subst sse_loop.simps) (simp add: w_def Let_def)
      next
        case False
        with movemask_hits [of w] from_here_stop [of 8 it s] True m show ?thesis
          by (subst sse_loop.simps) (auto simp: w_def Let_def)
      qed
    next
      case False
      then show ?thesis by (subst sse_loop.simps) simp
    qed
  qed
  then show ?thesis by (simp add: searches_def)
qed

lemma neon_searches: "searches neon_loop"
proof -
  have "e \<le> length s \<Longrightarrow> e mod 8 = it mod 8 \<Longrightarrow> agrees s (from_here s it) (neon_loop s e it)" for s e it
  proof (induction s e it rule: neon_loop.induct)
    case (1 s e it)
    show ?case
    proof (cases "it < e")
      case True
      define w where "w = take 4 (drop it s)"
      define w' where "w' = take 4 (drop (it + 4) s)"
      have fits: "it + 4 \<le> length s" "it + 4 + 4 \<le> length s" using block_fits [OF True 1(3)] 1(2) by linarith+
      have m: "take 4 (map neon_lane (take 8 (drop it s))) = hits w" "drop 4 (map neon_lane (take 8 (drop it s))) = hits w'"
        by (simp_all add: hits_def neon_lane_iff w_def w'_def take_map drop_map drop_take add.commute)
      note F = lane_hits [of w] lane_hits [of w'] from_here_skip [OF _ fits(1)] from_here_skip [OF _ fits(2)]
        from_here_stop [of 4 it s] from_here_stop [of 4 "it + 4" s]
      have L: "neon_loop s e it = (if lane_u64 (hits w) \<noteq> 0 then Inl (it + BitScanForward (lane_u64 (hits w)) div 16)
          else if lane_u64 (hits w') \<noteq> 0 then Inl (it + 4 + BitScanForward (lane_u64 (hits w')) div 16)
          else neon_loop s e (it + 4 + 4))"
        using True by (subst neon_loop.simps) (simp add: m Let_def)
      show ?thesis
      proof (cases "lane_u64 (hits w) = 0 \<and> lane_u64 (hits w') = 0")
        case z: True
        then have eq: "from_here s (it + 4 + 4) = from_here s it" using F(1,3,5,6) by (simp add: w_def w'_def)
        with 1(1) [of "map neon_lane (take 8 (drop it s))" "lane_u64 (hits w)" "it + 4" "lane_u64 (hits w')"] 1(2,3) True z m
        have "agrees s (from_here s (it + 4 + 4)) (neon_loop s e (it + 4 + 4))" by simp
        with z show ?thesis unfolding L eq by simp
      next
        case False
        with F show ?thesis by (auto simp: L w_def w'_def)
      qed
    next
      case False
      then show ?thesis by (subst neon_loop.simps) simp
    qed
  qed
  then show ?thesis by (simp add: searches_def)
qed

lemma searches_correct: "searches loop \<Longrightarrow> FindActionable_with loop s = FindActionableControlCharacter s"
proof -
  assume "searches loop"
  moreover have "(length s - length s mod 8) mod 8 = 0 mod 8" by simp
  ultimately have "agrees s (from_here s 0) (loop s (length s - length s mod 8) 0)" by (simp add: searches_def)
  then show ?thesis by (simp add: FindActionable_with_def from_here_def agrees_def split: sum.splits)
qed

text \<open>
  C27. The SSE2 and the NEON search return, on every string, the position the plain character loop
  returns: that of the first control character, or the length when there is none.
\<close>

theorem vectorised_search_correct:
  "FindActionable_with sse_loop s = FindActionableControlCharacter s \<and>
   FindActionable_with neon_loop s = FindActionableControlCharacter s"
  using searches_correct [OF sse_searches] searches_correct [OF neon_searches] by blast

end
