(* ===== verification/VT_MacroBuffer.thy ===== *)
theory VT_MacroBuffer
  imports VT_DispatchTypes
begin

text \<open>
  The macro buffer, \<^verbatim>\<open>terminal/adapter/MacroBuffer.cpp\<close>: 64 macros that share a fixed space, the
  parser of the definitions (\<^verbatim>\<open>DECDMAC\<close>, plain text or hex pairs with repeats) and the bookkeeping
  of nested invocations. \<^verbatim>\<open>size_t\<close> fields are 64-bit words. \<open>None\<close> is a thrown
  \<^verbatim>\<open>std::out_of_range\<close> (\<^verbatim>\<open>std::array::at\<close>, \<^verbatim>\<open>std::wstring::substr\<close>).

  \<open>InvokeMacro\<close> is split where the source calls \<^verbatim>\<open>stateMachine.ProcessString\<close>: \<open>InvokeMacro_begin\<close>
  gives the text to process, \<open>InvokeMacro_end\<close> is the scope exit.
\<close>

subsection \<open>State\<close>

type_synonym size_t = "64 word"

datatype macro_parse = ExpectingText | ExpectingHexDigit | ExpectingSecondHexDigit | ExpectingRepeatCount

record macro_buffer =
  parseState :: macro_parse
  decodedChar :: wchar
  repeatPending :: bool
  repeatCount :: size_t
  repeatStart :: size_t
  macros :: "wstring list"
  activeMacroId :: nat
  spaceUsed :: size_t
  invokedDepth :: size_t
  invokedSequenceLength :: size_t

definition MAX_SPACE :: size_t where "MAX_SPACE = 0x40000"
definition MAX_MACROS :: nat where "MAX_MACROS = 64"

definition new_macro_buffer :: macro_buffer where
  "new_macro_buffer = \<lparr>parseState = ExpectingText, decodedChar = 0, repeatPending = False, repeatCount = 0, repeatStart = 0,
     macros = replicate MAX_MACROS [], activeMacroId = 0, spaceUsed = 0, invokedDepth = 0, invokedSequenceLength = 0\<rparr>"

definition size_of :: "wstring \<Rightarrow> size_t" where
  "size_of s = of_nat (length s)"

subsection \<open>Operations\<close>

definition GetSpaceAvailable :: "macro_buffer \<Rightarrow> size_t" where
  "GetSpaceAvailable b = MAX_SPACE - spaceUsed b"

definition CalculateChecksum :: "macro_buffer \<Rightarrow> 16 word" where
  "CalculateChecksum b = foldl (\<lambda>sum m. foldl (\<lambda>sum ch. sum - ch) sum m) 0 (macros b)"

definition activeMacro :: "macro_buffer \<Rightarrow> wstring option" where
  "activeMacro b = (if activeMacroId b < length (macros b) then Some (macros b ! activeMacroId b) else None)"

definition set_active :: "wstring \<Rightarrow> macro_buffer \<Rightarrow> macro_buffer" where
  "set_active m b = b\<lparr>macros := (macros b)[activeMacroId b := m]\<rparr>"

definition appendToActiveMacro :: "wchar \<Rightarrow> macro_buffer \<Rightarrow> (bool \<times> macro_buffer) option" where
  "appendToActiveMacro ch b =
     (if GetSpaceAvailable b > 0 then
        (case activeMacro b of
           None \<Rightarrow> None
         | Some m \<Rightarrow> Some (True, (set_active (m @ [ch]) b)\<lparr>spaceUsed := spaceUsed b + 1\<rparr>))
      else Some (False, b))"

text \<open>\<open>deleteMacro i\<close> is \<^verbatim>\<open>_deleteMacro\<close> on the macro with index \<open>i\<close>.\<close>

definition deleteMacro :: "nat \<Rightarrow> macro_buffer \<Rightarrow> macro_buffer" where
  "deleteMacro i b = b\<lparr>spaceUsed := spaceUsed b - size_of (macros b ! i), macros := (macros b)[i := []]\<rparr>"

definition deleteActive :: "macro_buffer \<Rightarrow> macro_buffer option" where
  "deleteActive b = (case activeMacro b of None \<Rightarrow> None | Some m \<Rightarrow> Some (deleteMacro (activeMacroId b) b))"

definition substr :: "wstring \<Rightarrow> size_t \<Rightarrow> size_t \<Rightarrow> wstring option" where
  "substr s pos n = (if unat pos \<le> length s then Some (take (unat n) (drop (unat pos) s)) else None)"

fun repeat_loop :: "nat \<Rightarrow> size_t \<Rightarrow> macro_buffer \<Rightarrow> macro_buffer option" where
  "repeat_loop 0 sequenceLength b = Some b"
| "repeat_loop (Suc n) sequenceLength b =
     (case activeMacro b of
        None \<Rightarrow> None
      | Some m \<Rightarrow>
          (case substr m (repeatStart b) sequenceLength of
             None \<Rightarrow> None
           | Some s \<Rightarrow> repeat_loop n sequenceLength ((set_active (m @ s) b)\<lparr>spaceUsed := spaceUsed b + sequenceLength\<rparr>)))"

definition applyPendingRepeat :: "macro_buffer \<Rightarrow> (bool \<times> macro_buffer) option" where
  "applyPendingRepeat b =
     (if repeatCount b > 1 then
        (case activeMacro b of
           None \<Rightarrow> None
         | Some m \<Rightarrow>
             (let sequenceLength = size_of m - repeatStart b;
                  spaceRequired = (repeatCount b - 1) * sequenceLength
              in if spaceRequired > GetSpaceAvailable b then Some (False, b)
                 else case repeat_loop (unat (repeatCount b) - 1) sequenceLength b of
                        None \<Rightarrow> None
                      | Some b1 \<Rightarrow> Some (True, b1\<lparr>repeatPending := False\<rparr>)))
      else Some (True, b\<lparr>repeatPending := False\<rparr>))"

definition decodeHexDigit :: "wchar \<Rightarrow> macro_buffer \<Rightarrow> bool \<times> macro_buffer" where
  "decodeHexDigit ch b =
     (let d = push_bit 4 (decodedChar b)
      in if ch \<ge> 0x30 \<and> ch \<le> 0x39 then (True, b\<lparr>decodedChar := d + (ch - 0x30)\<rparr>)
         else if ch \<ge> 0x41 \<and> ch \<le> 0x46 then (True, b\<lparr>decodedChar := d + (ch - 0x41 + 10)\<rparr>)
         else if ch \<ge> 0x61 \<and> ch \<le> 0x66 then (True, b\<lparr>decodedChar := d + (ch - 0x61 + 10)\<rparr>)
         else (False, b\<lparr>decodedChar := d\<rparr>))"

definition InvokeMacro_begin :: "nat \<Rightarrow> macro_buffer \<Rightarrow> wstring option \<times> macro_buffer" where
  "InvokeMacro_begin macroId b =
     (if macroId < length (macros b) then
        (let macroSequence = macros b ! macroId;
             allowedLength = MAX_SPACE - invokedSequenceLength b
         in if invokedDepth b < 16 \<and> size_of macroSequence < allowedLength
            then (Some macroSequence, b\<lparr>invokedSequenceLength := invokedSequenceLength b + size_of macroSequence,
                                         invokedDepth := invokedDepth b + 1\<rparr>)
            else (None, b))
      else (None, b))"

definition InvokeMacro_end :: "macro_buffer \<Rightarrow> macro_buffer" where
  "InvokeMacro_end b =
     (let b1 = b\<lparr>invokedDepth := invokedDepth b - 1\<rparr>
      in if invokedDepth b1 = 0 then b1\<lparr>invokedSequenceLength := 0\<rparr> else b1)"

definition ClearMacrosIfInUse :: "macro_buffer \<Rightarrow> macro_buffer" where
  "ClearMacrosIfInUse b =
     (if invokedDepth b > 0 then b\<lparr>macros := map (\<lambda>m. replicate (length m) 0) (macros b)\<rparr> else b)"

text \<open>\<^verbatim>\<open>MacroDeleteControl\<close> and \<^verbatim>\<open>MacroEncoding\<close> hold whatever number the sequence had.\<close>

definition DeleteId :: VTInt where "DeleteId = 0"
definition DeleteAll :: VTInt where "DeleteAll = 1"
definition Text :: VTInt where "Text = 0"
definition HexPair :: VTInt where "HexPair = 1"

definition InitParser :: "nat \<Rightarrow> VTInt \<Rightarrow> VTInt \<Rightarrow> macro_buffer \<Rightarrow> (bool \<times> macro_buffer) option" where
  "InitParser macroId deleteControl encoding b =
     (if macroId < length (macros b) \<and> invokedDepth b = 0 then
        (let b1 = b\<lparr>activeMacroId := macroId, decodedChar := 0, repeatPending := False\<rparr>
         in if encoding = HexPair \<or> encoding = Text then
              (let b2 = b1\<lparr>parseState := (if encoding = HexPair then ExpectingHexDigit else ExpectingText)\<rparr>
               in if deleteControl = DeleteId then map_option (Pair True) (deleteActive b2)
                  else if deleteControl = DeleteAll then Some (True, fold deleteMacro [0 ..< length (macros b2)] b2)
                  else Some (False, b2))
            else Some (False, b1))
      else Some (False, b))"

text \<open>The switch of \<^verbatim>\<open>ParseDefinition\<close>.\<close>

definition parse_state :: "wchar \<Rightarrow> macro_buffer \<Rightarrow> (bool \<times> macro_buffer) option" where
  "parse_state ch b =
     (case parseState b of
        ExpectingText \<Rightarrow> appendToActiveMacro ch b
      | ExpectingHexDigit \<Rightarrow>
          (case decodeHexDigit ch b of
             (hex, b1) \<Rightarrow>
               if hex then Some (True, b1\<lparr>parseState := ExpectingSecondHexDigit\<rparr>)
               else if ch = 0x21 \<and> \<not> repeatPending b1
               then Some (True, b1\<lparr>parseState := ExpectingRepeatCount, repeatCount := 0\<rparr>)
               else if ch = 0x3B \<and> repeatPending b1 then applyPendingRepeat b1
               else Some (False, b1))
      | ExpectingSecondHexDigit \<Rightarrow>
          (case decodeHexDigit ch b of
             (hex, b1) \<Rightarrow>
               map_option (\<lambda>(ok, b2). (ok, b2\<lparr>decodedChar := 0, parseState := ExpectingHexDigit\<rparr>))
                 (if hex then appendToActiveMacro (decodedChar b1) b1 else Some (False, b1)))
      | ExpectingRepeatCount \<Rightarrow>
          if ch \<ge> 0x30 \<and> ch \<le> 0x39
          then Some (True, b\<lparr>repeatCount := min (repeatCount b * 10 + ucast (ch - 0x30)) 65535\<rparr>)
          else if ch = 0x3B
          then map_option (\<lambda>m. (True, b\<lparr>repeatPending := True, repeatStart := size_of m, parseState := ExpectingHexDigit\<rparr>))
                 (activeMacro b)
          else Some (False, b))"

definition ParseDefinition :: "wchar \<Rightarrow> macro_buffer \<Rightarrow> (bool \<times> macro_buffer) option" where
  "ParseDefinition ch b =
     (if ch = 0x1B then
        (if repeatPending b then
           (case applyPendingRepeat b of
              None \<Rightarrow> None
            | Some (ok, b1) \<Rightarrow> map_option (Pair False) (if \<not> ok then deleteActive b1 else Some b1))
         else Some (False, b))
      else if ch < 0x20 then Some (True, b)
      else
        (case parse_state ch b of
           None \<Rightarrow> None
         | Some (success, b1) \<Rightarrow>
             if \<not> success then map_option (Pair False) (deleteActive b1) else Some (True, b1)))"

subsection \<open>Space accounting\<close>

definition total_length :: "macro_buffer \<Rightarrow> nat" where
  "total_length b = sum_list (map length (macros b))"

text \<open>What holds between any two calls.\<close>

definition mb_inv :: "macro_buffer \<Rightarrow> bool" where
  "mb_inv b \<longleftrightarrow> length (macros b) = MAX_MACROS \<and> activeMacroId b < MAX_MACROS \<and>
     unat (spaceUsed b) = total_length b \<and> total_length b \<le> unat MAX_SPACE \<and> unat (repeatCount b) \<le> 65535 \<and>
     unat (invokedDepth b) \<le> 16 \<and> unat (invokedSequenceLength b) \<le> unat MAX_SPACE \<and>
     (invokedDepth b = 0 \<longrightarrow> invokedSequenceLength b = 0)"

text \<open>What holds while a definition is being received.\<close>

definition defining :: "macro_buffer \<Rightarrow> bool" where
  "defining b \<longleftrightarrow> mb_inv b \<and>
     (repeatPending b \<longrightarrow> parseState b \<noteq> ExpectingText \<and> parseState b \<noteq> ExpectingRepeatCount \<and>
        unat (repeatStart b) \<le> length (macros b ! activeMacroId b))"

lemma total_length_update:
  "i < length (macros b) \<Longrightarrow>
   sum_list (map length ((macros b)[i := m])) + length (macros b ! i) = total_length b + length m"
  unfolding total_length_def
proof (induction "macros b" arbitrary: i b)
  case (Cons x xs)
  have "sum_list (map length (xs[j := m])) + length (xs ! j) = sum_list (map length xs) + length m" if "j < length xs" for j
    using Cons.hyps(1) [of "b\<lparr>macros := xs\<rparr>" j] that by simp
  with Cons(2) [symmetric] Cons.prems show ?case by (cases i) auto
qed simp

lemma length_le_total: "i < length (macros b) \<Longrightarrow> length (macros b ! i) \<le> total_length b"
  unfolding total_length_def by (rule member_le_sum_list) auto

lemma size_of_unat: "length m \<le> unat MAX_SPACE \<Longrightarrow> unat (size_of m) = length m"
  by (simp add: size_of_def unat_of_nat MAX_SPACE_def)

lemma space_available: "mb_inv b \<Longrightarrow> unat (GetSpaceAvailable b) = unat MAX_SPACE - total_length b"
  by (simp add: GetSpaceAvailable_def mb_inv_def unat_sub word_le_nat_alt)

lemma activeMacro_some: "mb_inv b \<Longrightarrow> activeMacro b = Some (macros b ! activeMacroId b)"
  by (simp add: activeMacro_def mb_inv_def)

text \<open>Replacing the active macro and correcting the space used by the difference.\<close>

lemma mb_inv_replace:
  assumes i: "mb_inv b" and s: "unat s = total_length b - length (macros b ! activeMacroId b) + length m"
    and f: "total_length b - length (macros b ! activeMacroId b) + length m \<le> unat MAX_SPACE"
  shows "mb_inv ((set_active m b)\<lparr>spaceUsed := s\<rparr>)"
proof -
  have a: "activeMacroId b < length (macros b)" using i by (simp add: mb_inv_def)
  have "total_length ((set_active m b)\<lparr>spaceUsed := s\<rparr>) = total_length b - length (macros b ! activeMacroId b) + length m"
    using total_length_update [OF a, of m] length_le_total [OF a] by (simp add: total_length_def set_active_def)
  with i s f show ?thesis by (simp add: mb_inv_def set_active_def)
qed

lemma deleteMacro_inv:
  assumes i: "mb_inv b" and j: "j < length (macros b)"
  shows "mb_inv (deleteMacro j b)"
proof -
  have l: "length (macros b ! j) \<le> total_length b" using j by (rule length_le_total)
  then have u: "unat (size_of (macros b ! j)) = length (macros b ! j)" using i by (intro size_of_unat) (simp add: mb_inv_def)
  have t: "total_length (deleteMacro j b) = total_length b - length (macros b ! j)"
    using total_length_update [OF j, of "[]"] by (simp add: total_length_def deleteMacro_def)
  have "unat (spaceUsed b - size_of (macros b ! j)) = total_length b - length (macros b ! j)"
    using i l u by (simp add: unat_sub word_le_nat_alt mb_inv_def)
  moreover have "total_length b - length (macros b ! j) \<le> unat MAX_SPACE" using i by (auto simp: mb_inv_def intro: le_trans [OF diff_le_self])
  ultimately show ?thesis using i t by (simp add: mb_inv_def deleteMacro_def total_length_def)
qed

lemma deleteMacro_same [simp]:
  "length (macros (deleteMacro j b)) = length (macros b)" "activeMacroId (deleteMacro j b) = activeMacroId b"
  "parseState (deleteMacro j b) = parseState b" "repeatPending (deleteMacro j b) = repeatPending b"
  "invokedDepth (deleteMacro j b) = invokedDepth b" "decodedChar (deleteMacro j b) = decodedChar b"
  "macros (deleteMacro j b) = (macros b)[j := []]"
  by (simp_all add: deleteMacro_def)

text \<open>What deleting macros leaves alone.\<close>

definition same_parser :: "macro_buffer \<Rightarrow> macro_buffer \<Rightarrow> bool" where
  "same_parser b r \<longleftrightarrow> length (macros r) = length (macros b) \<and> activeMacroId r = activeMacroId b \<and>
     parseState r = parseState b \<and> repeatPending r = repeatPending b \<and> invokedDepth r = invokedDepth b \<and>
     decodedChar r = decodedChar b"

lemma fold_delete:
  "mb_inv b \<Longrightarrow> set is \<subseteq> {..< length (macros b)} \<Longrightarrow>
   mb_inv (fold deleteMacro is b) \<and> same_parser b (fold deleteMacro is b) \<and>
   macros (fold deleteMacro is b) = map (\<lambda>i. if i \<in> set is then [] else macros b ! i) [0 ..< length (macros b)]"
proof (induction "is" arbitrary: b)
  case Nil
  then show ?case by (simp add: same_parser_def map_nth)
next
  case (Cons j js)
  then have "mb_inv (deleteMacro j b)" by (intro deleteMacro_inv) simp_all
  from Cons.IH [OF this] Cons.prems show ?case
    by (auto simp: same_parser_def intro!: map_cong)
qed

lemma deleteActive_some: "mb_inv b \<Longrightarrow> deleteActive b = Some (deleteMacro (activeMacroId b) b)"
  by (simp add: deleteActive_def activeMacro_some)

subsection \<open>Starting a definition\<close>

lemma mb_inv_parser [simp]:
  "mb_inv (b\<lparr>activeMacroId := i, decodedChar := c, repeatPending := p\<rparr>) \<longleftrightarrow>
     mb_inv (b\<lparr>activeMacroId := i\<rparr>)"
  "mb_inv (b\<lparr>parseState := s\<rparr>) = mb_inv b" "mb_inv (b\<lparr>decodedChar := c\<rparr>) = mb_inv b"
  "mb_inv (b\<lparr>repeatPending := p\<rparr>) = mb_inv b" "mb_inv (b\<lparr>repeatStart := n\<rparr>) = mb_inv b"
  by (simp_all add: mb_inv_def total_length_def)

lemma mb_inv_active: "mb_inv b \<Longrightarrow> i < MAX_MACROS \<Longrightarrow> mb_inv (b\<lparr>activeMacroId := i\<rparr>)"
  by (simp add: mb_inv_def total_length_def)

text \<open>An accepted definition starts on an empty macro; a refused one changes no macro.\<close>

definition accepts :: "nat \<Rightarrow> VTInt \<Rightarrow> VTInt \<Rightarrow> macro_buffer \<Rightarrow> bool" where
  "accepts n d e b \<longleftrightarrow> n < MAX_MACROS \<and> invokedDepth b = 0 \<and> (e = HexPair \<or> e = Text) \<and> (d = DeleteId \<or> d = DeleteAll)"

definition started :: "nat \<Rightarrow> VTInt \<Rightarrow> macro_buffer \<Rightarrow> macro_buffer" where
  "started n e b = b\<lparr>activeMacroId := n, decodedChar := 0, repeatPending := False,
    parseState := (if e = HexPair then ExpectingHexDigit else ExpectingText)\<rparr>"

lemma started_inv: "mb_inv b \<Longrightarrow> n < MAX_MACROS \<Longrightarrow> mb_inv (started n e b)"
  by (simp add: started_def mb_inv_active)

lemma InitParser_accepts:
  assumes "mb_inv b" and "accepts n d e b"
  shows "InitParser n d e b = Some (True, if d = DeleteId then deleteMacro n (started n e b)
     else fold deleteMacro [0 ..< MAX_MACROS] (started n e b))"
proof -
  have i: "mb_inv (started n e b)" using assms by (simp add: started_inv accepts_def)
  have "length (macros b) = MAX_MACROS" using assms(1) by (simp add: mb_inv_def)
  with assms(2) deleteActive_some [OF i] show ?thesis
    by (auto simp: InitParser_def Let_def accepts_def started_def DeleteId_def DeleteAll_def Text_def HexPair_def)
qed

lemma InitParser_refuses:
  assumes "mb_inv b" and "\<not> accepts n d e b"
  shows "\<exists>r. InitParser n d e b = Some (False, r) \<and> mb_inv r \<and> macros r = macros b \<and> invokedDepth r = invokedDepth b"
proof -
  define b1 where "b1 = b\<lparr>activeMacroId := n, decodedChar := 0, repeatPending := False\<rparr>"
  have l: "length (macros b) = MAX_MACROS" using assms(1) by (simp add: mb_inv_def)
  have "InitParser n d e b = Some (False, if n < MAX_MACROS \<and> invokedDepth b = 0
      then (if e = HexPair \<or> e = Text then started n e b else b1) else b)"
    using assms(2) l by (auto simp: InitParser_def Let_def accepts_def started_def b1_def)
  moreover have "mb_inv b1" if "n < MAX_MACROS" using assms(1) that by (simp add: b1_def mb_inv_active)
  ultimately show ?thesis using assms(1) started_inv [OF assms(1)] by (auto simp: b1_def started_def)
qed

text \<open>A fresh definition.\<close>

definition fresh_at :: "nat \<Rightarrow> VTInt \<Rightarrow> macro_buffer \<Rightarrow> bool" where
  "fresh_at n e r \<longleftrightarrow> mb_inv r \<and> activeMacroId r = n \<and> macros r ! n = [] \<and> decodedChar r = 0 \<and> \<not> repeatPending r \<and>
     parseState r = (if e = HexPair then ExpectingHexDigit else ExpectingText)"

lemma InitParser_fresh:
  assumes "mb_inv b" and "accepts n d e b" and r: "InitParser n d e b = Some (True, r)"
  shows "fresh_at n e r" and "invokedDepth r = invokedDepth b"
    and "macros r = (if d = DeleteId then (macros b)[n := []] else replicate MAX_MACROS [])"
proof -
  have n: "n < MAX_MACROS" and l: "length (macros b) = MAX_MACROS" using assms by (simp_all add: accepts_def mb_inv_def)
  note i = started_inv [OF assms(1) n, of e]
  define all where "all = fold deleteMacro [0 ..< MAX_MACROS] (started n e b)"
  have R: "r = (if d = DeleteId then deleteMacro n (started n e b) else all)"
    using InitParser_accepts [OF assms(1,2)] r by (simp add: all_def)
  have s: "length (macros (started n e b)) = MAX_MACROS" using l by (simp add: started_def)
  have "set [0 ..< MAX_MACROS] \<subseteq> {..< length (macros (started n e b))}" using s by auto
  note F = fold_delete [OF i this]
  have "map (\<lambda>i. if i \<in> set [0 ..< MAX_MACROS] then [] else macros (started n e b) ! i) [0 ..< MAX_MACROS] = replicate MAX_MACROS []"
    by (rule nth_equalityI) simp_all
  with F s have D: "mb_inv all" "same_parser (started n e b) all" "macros all = replicate MAX_MACROS []"
    by (simp_all add: all_def)
  have d: "mb_inv (deleteMacro n (started n e b))" using i by (rule deleteMacro_inv) (simp add: s n)
  show "fresh_at n e r" using R D d n s by (simp add: fresh_at_def same_parser_def started_def)
  show "invokedDepth r = invokedDepth b" using R D by (simp add: same_parser_def started_def)
  show "macros r = (if d = DeleteId then (macros b)[n := []] else replicate MAX_MACROS [])" using R D by (simp add: started_def)
qed

subsection \<open>Receiving a definition\<close>

definition active_text :: "macro_buffer \<Rightarrow> wstring" where
  "active_text b = macros b ! activeMacroId b"

lemma set_active_simps [simp]:
  "activeMacroId (set_active m b) = activeMacroId b" "repeatStart (set_active m b) = repeatStart b"
  "repeatPending (set_active m b) = repeatPending b" "repeatCount (set_active m b) = repeatCount b"
  "parseState (set_active m b) = parseState b" "decodedChar (set_active m b) = decodedChar b"
  "invokedDepth (set_active m b) = invokedDepth b" "spaceUsed (set_active m b) = spaceUsed b"
  by (simp_all add: set_active_def)

lemma active_text_set: "mb_inv b \<Longrightarrow> active_text (set_active m b) = m"
  by (simp add: active_text_def set_active_def mb_inv_def)

lemma active_text_cong [simp]:
  "active_text (b\<lparr>spaceUsed := s\<rparr>) = active_text b" "active_text (b\<lparr>repeatPending := p\<rparr>) = active_text b"
  "active_text (b\<lparr>parseState := q\<rparr>) = active_text b" "active_text (b\<lparr>decodedChar := c\<rparr>) = active_text b"
  "active_text (b\<lparr>repeatCount := n\<rparr>) = active_text b" "active_text (b\<lparr>repeatStart := n\<rparr>) = active_text b"
  by (simp_all add: active_text_def)

lemma active_le_total: "mb_inv b \<Longrightarrow> length (active_text b) \<le> total_length b"
  unfolding active_text_def by (rule length_le_total) (simp add: mb_inv_def)

lemma active_size: "mb_inv b \<Longrightarrow> unat (size_of (active_text b)) = length (active_text b)"
  using active_le_total [of b] by (intro size_of_unat) (simp add: mb_inv_def)

text \<open>Growing the active macro by \<open>t\<close> is possible while the space lasts, and accounted for.\<close>

definition grow :: "wstring \<Rightarrow> macro_buffer \<Rightarrow> macro_buffer" where
  "grow t b = (set_active (active_text b @ t) b)\<lparr>spaceUsed := spaceUsed b + of_nat (length t)\<rparr>"

lemma grow_simps [simp]:
  "activeMacroId (grow t b) = activeMacroId b" "repeatStart (grow t b) = repeatStart b" "repeatPending (grow t b) = repeatPending b"
  "repeatCount (grow t b) = repeatCount b" "parseState (grow t b) = parseState b" "decodedChar (grow t b) = decodedChar b"
  "invokedDepth (grow t b) = invokedDepth b"
  by (simp_all add: grow_def)

lemma grow_text: "mb_inv b \<Longrightarrow> active_text (grow t b) = active_text b @ t"
  by (simp add: grow_def active_text_set)

lemma grow_total:
  assumes "mb_inv b"
  shows "total_length (grow t b) = total_length b + length t"
proof -
  have "activeMacroId b < length (macros b)" using assms by (simp add: mb_inv_def)
  from total_length_update [OF this, of "active_text b @ t"] show ?thesis
    by (simp add: grow_def total_length_def set_active_def active_text_def)
qed

lemma grow_inv:
  assumes i: "mb_inv b" and f: "total_length b + length t \<le> unat MAX_SPACE"
  shows "mb_inv (grow t b)"
  unfolding grow_def
proof (rule mb_inv_replace [OF i])
  have "unat (spaceUsed b + of_nat (length t)) = total_length b + length t"
    using i f by (subst unat_plus_simple [THEN iffD1]) (simp_all add: mb_inv_def MAX_SPACE_def word_le_nat_alt unat_word_ariths unat_of_nat)
  then show "unat (spaceUsed b + of_nat (length t)) = total_length b - length (macros b ! activeMacroId b) + length (active_text b @ t)"
    "total_length b - length (macros b ! activeMacroId b) + length (active_text b @ t) \<le> unat MAX_SPACE"
    using active_le_total [OF i] f by (simp_all add: active_text_def)
qed

lemma grow_grow: "mb_inv b \<Longrightarrow> grow u (grow t b) = grow (t @ u) b"
  by (simp add: grow_def active_text_set active_text_cong) (simp add: set_active_def active_text_def)

lemma append_spec:
  assumes "mb_inv b"
  shows "appendToActiveMacro ch b =
    (if total_length b < unat MAX_SPACE then Some (True, grow [ch] b) else Some (False, b))"
  using space_available [OF assms] activeMacro_some [OF assms]
  by (simp add: appendToActiveMacro_def word_less_nat_alt grow_def active_text_def)

subsection \<open>Repeats\<close>

lemma grow_nil [simp]: "mb_inv b \<Longrightarrow> grow [] b = b"
  by (simp add: grow_def set_active_def active_text_def mb_inv_def)

lemma repeat_loop_spec:
  assumes "mb_inv b" and "active_text b = pre @ seg @ post" and "length pre = unat (repeatStart b)"
    and n: "unat n = length seg" and "total_length b + k * length seg \<le> unat MAX_SPACE"
  shows "repeat_loop k n b = Some (grow (concat (replicate k seg)) b)"
  using assms(1,2,3,5)
proof (induction k arbitrary: b post)
  case (Suc k)
  have n': "n = of_nat (length seg)" using n by (metis of_nat_unat ucast_id)
  have "activeMacro b = Some (active_text b)" using Suc.prems(1) by (simp add: activeMacro_some active_text_def)
  moreover have "substr (active_text b) (repeatStart b) n = Some seg"
    using Suc.prems(2,3) n by (simp add: substr_def)
  ultimately have step: "repeat_loop (Suc k) n b = repeat_loop k n (grow seg b)" by (simp add: grow_def n')
  have i: "mb_inv (grow seg b)" using Suc.prems(1,4) by (intro grow_inv) simp_all
  have "repeat_loop k n (grow seg b) = Some (grow (concat (replicate k seg)) (grow seg b))"
    by (rule Suc.IH [where post = "post @ seg"]) (use Suc.prems i in \<open>simp_all add: grow_text grow_total\<close>)
  with step Suc.prems(1) show ?case by (simp add: grow_grow)
qed simp

lemma applyPendingRepeat_spec:
  assumes i: "mb_inv b" and s: "unat (repeatStart b) \<le> length (active_text b)"
  defines "seg \<equiv> drop (unat (repeatStart b)) (active_text b)" and "k \<equiv> unat (repeatCount b) - 1"
  shows "applyPendingRepeat b =
    (if total_length b + k * length seg \<le> unat MAX_SPACE
     then Some (True, (grow (concat (replicate k seg)) b)\<lparr>repeatPending := False\<rparr>) else Some (False, b))"
proof (cases "repeatCount b > 1")
  case False
  then have "k = 0" by (simp add: k_def word_less_nat_alt)
  with False i show ?thesis by (simp add: applyPendingRepeat_def mb_inv_def)
next
  case True
  define L where "L = size_of (active_text b) - repeatStart b"
  have L: "unat L = length seg"
    using s active_size [OF i] by (simp add: L_def seg_def unat_sub word_le_nat_alt)
  have len: "length seg \<le> 0x40000" using active_le_total [OF i] i by (auto simp: seg_def mb_inv_def MAX_SPACE_def)
  have k: "unat (repeatCount b - 1) = k" "k \<le> 65534" using True i by (auto simp: k_def unat_sub word_le_nat_alt word_less_nat_alt mb_inv_def)
  have "k * length seg \<le> 65534 * 0x40000" using k(2) len by (rule mult_le_mono)
  then have req: "unat ((repeatCount b - 1) * L) = k * length seg"
    by (simp add: unat_word_ariths(2) k(1) L)
  have avail: "(repeatCount b - 1) * L > GetSpaceAvailable b \<longleftrightarrow> \<not> total_length b + k * length seg \<le> unat MAX_SPACE"
    using space_available [OF i] i by (auto simp: word_less_nat_alt req mb_inv_def)
  have "repeat_loop k L b = Some (grow (concat (replicate k seg)) b)" if "total_length b + k * length seg \<le> unat MAX_SPACE"
    by (rule repeat_loop_spec [where pre = "take (unat (repeatStart b)) (active_text b)" and post = "[]"])
      (use i s L that in \<open>simp_all add: seg_def\<close>)
  with True avail activeMacro_some [OF i] show ?thesis
    unfolding applyPendingRepeat_def Let_def active_text_def [symmetric] k_def [symmetric]
    by (simp add: L_def [symmetric])
qed

lemma repeat_fits:
  assumes "mb_inv b" "total_length b + k * length seg \<le> unat MAX_SPACE"
  shows "mb_inv (grow (concat (replicate k seg)) b)"
  using assms by (intro grow_inv) (simp_all add: length_concat sum_list_replicate)

subsection \<open>No definition raises or loses count\<close>

lemma mb_inv_count: "mb_inv b \<Longrightarrow> unat n \<le> 65535 \<Longrightarrow> mb_inv (b\<lparr>repeatCount := n\<rparr>)"
  by (simp add: mb_inv_def total_length_def)

lemma defining_active: "defining b \<longleftrightarrow> mb_inv b \<and>
     (repeatPending b \<longrightarrow> parseState b \<noteq> ExpectingText \<and> parseState b \<noteq> ExpectingRepeatCount \<and> unat (repeatStart b) \<le> length (active_text b))"
  by (simp add: defining_def active_text_def)

lemma decode_simps:
  "mb_inv (snd (decodeHexDigit ch b)) = mb_inv b" "repeatPending (snd (decodeHexDigit ch b)) = repeatPending b"
  "active_text (snd (decodeHexDigit ch b)) = active_text b" "repeatStart (snd (decodeHexDigit ch b)) = repeatStart b"
  "parseState (snd (decodeHexDigit ch b)) = parseState b" "total_length (snd (decodeHexDigit ch b)) = total_length b"
  "invokedDepth (snd (decodeHexDigit ch b)) = invokedDepth b"
  by (simp_all add: decodeHexDigit_def Let_def total_length_def)

text \<open>\<open>keeps_defining r\<close>: \<open>r\<close> is a result, keeps the invariant, and a definition goes on only in good shape.\<close>

definition keeps_defining :: "size_t \<Rightarrow> (bool \<times> macro_buffer) option \<Rightarrow> bool" where
  "keeps_defining d r \<longleftrightarrow> (case r of None \<Rightarrow> False
     | Some (ok, b') \<Rightarrow> mb_inv b' \<and> (ok \<longrightarrow> defining b') \<and> invokedDepth b' = d)"

lemma keeps_defining_simps [simp]:
  "keeps_defining d (Some (ok, b)) \<longleftrightarrow> mb_inv b \<and> (ok \<longrightarrow> defining b) \<and> invokedDepth b = d" "\<not> keeps_defining d None"
  by (simp_all add: keeps_defining_def)

lemma keeps_definingE:
  assumes "keeps_defining d r"
  obtains ok b where "r = Some (ok, b)" "mb_inv b" "ok \<longrightarrow> defining b" "invokedDepth b = d"
  using assms by (auto simp: keeps_defining_def split: option.splits)

lemma append_keeps:
  assumes "defining b"
  shows "keeps_defining (invokedDepth b) (appendToActiveMacro ch b)"
  using assms append_spec [of b ch] grow_inv [of b "[ch]"] grow_text [of b "[ch]"]
  by (auto simp: defining_active)

lemma repeat_keeps:
  assumes "defining b" "repeatPending b"
  shows "keeps_defining (invokedDepth b) (applyPendingRepeat b)"
  using assms applyPendingRepeat_spec [of b] repeat_fits [of b]
  by (simp add: defining_active)

lemma parse_state_keeps:
  assumes d: "defining b"
  shows "keeps_defining (invokedDepth b) (parse_state ch b)"
proof -
  have i: "mb_inv b" using d by (simp add: defining_def)
  obtain hex b1 where h: "decodeHexDigit ch b = (hex, b1)" by (metis surj_pair)
  note D = decode_simps [of ch b, unfolded h snd_conv]
  have d1: "defining b1" using d D by (simp add: defining_active)
  show ?thesis
  proof (cases "parseState b")
    case ExpectingText
    then show ?thesis using append_keeps [OF d] by (simp add: parse_state_def)
  next
    case ExpectingHexDigit
    have "keeps_defining (invokedDepth b) (applyPendingRepeat b1)" if "repeatPending b1"
      using repeat_keeps [OF d1 that] D by simp
    with ExpectingHexDigit d D i show ?thesis
      by (auto simp: parse_state_def h defining_active mb_inv_count)
  next
    case ExpectingSecondHexDigit
    have "keeps_defining (invokedDepth b1) (if hex then appendToActiveMacro (decodedChar b1) b1 else Some (False, b1))"
      using append_keeps [OF d1, of "decodedChar b1"] D i by simp
    then show ?thesis
    proof (rule keeps_definingE)
      fix ok b2 assume "(if hex then appendToActiveMacro (decodedChar b1) b1 else Some (False, b1)) = Some (ok, b2)"
        "mb_inv b2" "ok \<longrightarrow> defining b2" "invokedDepth b2 = invokedDepth b1"
      with ExpectingSecondHexDigit D show ?thesis by (simp add: parse_state_def h defining_active)
    qed
  next
    case ExpectingRepeatCount
    have "unat (min (repeatCount b * 10 + ucast (ch - 0x30)) 65535 :: size_t) \<le> 65535"
      by (simp add: min_def word_le_nat_alt)
    with ExpectingRepeatCount d i active_size [OF i] show ?thesis
      by (auto simp: parse_state_def defining_active mb_inv_count activeMacro_some active_text_def [symmetric])
  qed
qed

lemma failed_keeps: "mb_inv b \<Longrightarrow> keeps_defining (invokedDepth b) (map_option (Pair False) (deleteActive b))"
  using deleteMacro_inv [of b "activeMacroId b"] by (simp add: deleteActive_some mb_inv_def [of b])

lemma ParseDefinition_keeps:
  assumes d: "defining b"
  shows "keeps_defining (invokedDepth b) (ParseDefinition ch b)"
proof -
  have step: "keeps_defining (invokedDepth b) (case r of None \<Rightarrow> None | Some (ok, b1) \<Rightarrow> f ok b1)"
    if "keeps_defining (invokedDepth b) r"
      and "\<And>ok b1. mb_inv b1 \<Longrightarrow> (ok \<longrightarrow> defining b1) \<Longrightarrow> keeps_defining (invokedDepth b1) (f ok b1)" for r f
    using that by (elim keeps_definingE) (simp, metis)
  have i: "keeps_defining (invokedDepth b) (Some (ok, b))" for ok using d by (simp add: defining_def)
  have "keeps_defining (invokedDepth b1) (map_option (Pair False) (if \<not> ok then deleteActive b1 else Some b1))"
    if "mb_inv b1" for ok b1
    using that failed_keeps [OF that] by simp
  moreover have "keeps_defining (invokedDepth b1) (if \<not> ok then map_option (Pair False) (deleteActive b1) else Some (True, b1))"
    if "mb_inv b1" "ok \<longrightarrow> defining b1" for ok b1
    using that failed_keeps [OF that(1)] by simp
  ultimately show ?thesis
    using repeat_keeps [OF d] parse_state_keeps [OF d] i unfolding ParseDefinition_def by (auto intro!: step)
qed

subsection \<open>Invocations\<close>

lemma InvokeMacro_begin_inv:
  assumes i: "mb_inv b" and r: "InvokeMacro_begin n b = (s, b')"
  shows "mb_inv b'" and "s = None \<Longrightarrow> b' = b"
    and "s = Some t \<Longrightarrow> unat (invokedDepth b') = unat (invokedDepth b) + 1 \<and> unat (invokedDepth b) < 16"
    and "macros b' = macros b" "activeMacroId b' = activeMacroId b" "parseState b' = parseState b"
      "repeatPending b' = repeatPending b" "repeatStart b' = repeatStart b"
proof -
  define m where "m = macros b ! n"
  show "s = None \<Longrightarrow> b' = b" "macros b' = macros b" "activeMacroId b' = activeMacroId b" "parseState b' = parseState b"
    "repeatPending b' = repeatPending b" "repeatStart b' = repeatStart b"
    using r by (auto simp: InvokeMacro_begin_def Let_def split: if_splits)
  have d: "unat (invokedDepth b + 1) = unat (invokedDepth b) + 1" if "unat (invokedDepth b) < 16"
    using that by (simp add: unat_word_ariths)
  show "s = Some t \<Longrightarrow> unat (invokedDepth b') = unat (invokedDepth b) + 1 \<and> unat (invokedDepth b) < 16"
    using r d by (auto simp: InvokeMacro_begin_def Let_def word_less_nat_alt split: if_splits)
  show "mb_inv b'"
  proof (cases "n < length (macros b) \<and> invokedDepth b < 16 \<and> size_of m < MAX_SPACE - invokedSequenceLength b")
    case True
    then have n: "length m \<le> total_length b" using length_le_total [of n b] by (simp add: m_def)
    have u: "unat (size_of m) = length m" using n i by (intro size_of_unat) (simp add: mb_inv_def)
    have q: "unat (MAX_SPACE - invokedSequenceLength b) = unat MAX_SPACE - unat (invokedSequenceLength b)"
      using i by (simp add: unat_sub word_le_nat_alt mb_inv_def)
    then have f: "unat (invokedSequenceLength b) + length m \<le> unat MAX_SPACE" using True u by (simp add: word_less_nat_alt less_diff_conv)
    then have "unat (invokedSequenceLength b + size_of m) = unat (invokedSequenceLength b) + length m"
      using u by (simp add: unat_word_ariths MAX_SPACE_def)
    moreover have "b' = b\<lparr>invokedSequenceLength := invokedSequenceLength b + size_of m, invokedDepth := invokedDepth b + 1\<rparr>"
      using r True by (simp add: InvokeMacro_begin_def Let_def m_def split: if_splits)
    moreover have "unat (invokedDepth b + 1) = unat (invokedDepth b) + 1" "unat (invokedDepth b) < 16"
      using True d by (simp_all add: word_less_nat_alt)
    moreover from this have "invokedDepth b + 1 \<noteq> 0" by (metis add_is_0 one_neq_zero unat_eq_0)
    ultimately show ?thesis using i f by (simp add: mb_inv_def total_length_def)
  next
    case False
    then show ?thesis using r i by (auto simp: InvokeMacro_begin_def Let_def m_def split: if_splits)
  qed
qed

lemma InvokeMacro_end_inv:
  assumes i: "mb_inv b" and d: "invokedDepth b \<noteq> 0"
  shows "mb_inv (InvokeMacro_end b)" and "unat (invokedDepth (InvokeMacro_end b)) = unat (invokedDepth b) - 1"
    and "macros (InvokeMacro_end b) = macros b" "activeMacroId (InvokeMacro_end b) = activeMacroId b" "parseState (InvokeMacro_end b) = parseState b"
      "repeatPending (InvokeMacro_end b) = repeatPending b" "repeatStart (InvokeMacro_end b) = repeatStart b"
proof -
  have u: "unat (invokedDepth b - 1) = unat (invokedDepth b) - 1" using d by (simp add: unat_sub word_le_nat_alt unat_gt_0 Suc_leI)
  then show "unat (invokedDepth (InvokeMacro_end b)) = unat (invokedDepth b) - 1" by (simp add: InvokeMacro_end_def Let_def)
  have "unat (invokedDepth b) - 1 \<le> 16" using i by (auto simp: mb_inv_def)
  with i u show "mb_inv (InvokeMacro_end b)" by (simp add: InvokeMacro_end_def Let_def mb_inv_def total_length_def)
qed (simp_all add: InvokeMacro_end_def Let_def)

lemma ClearMacrosIfInUse_inv:
  assumes "mb_inv b"
  shows "mb_inv (ClearMacrosIfInUse b)" and "defining b \<Longrightarrow> defining (ClearMacrosIfInUse b)"
    "invokedDepth (ClearMacrosIfInUse b) = invokedDepth b"
proof -
  have "map length (map (\<lambda>m. replicate (length m) (0 :: wchar)) ms) = map length ms" for ms :: "wstring list" by simp
  then show i: "mb_inv (ClearMacrosIfInUse b)" "invokedDepth (ClearMacrosIfInUse b) = invokedDepth b"
    using assms by (simp_all add: ClearMacrosIfInUse_def mb_inv_def total_length_def del: map_map)
  have "length (macros (ClearMacrosIfInUse b) ! activeMacroId b) = length (macros b ! activeMacroId b)"
    using assms by (simp add: ClearMacrosIfInUse_def mb_inv_def)
  with i(1) show "defining b \<Longrightarrow> defining (ClearMacrosIfInUse b)"
    by (auto simp: defining_def) (simp_all add: ClearMacrosIfInUse_def split: if_splits)
qed

subsection \<open>The buffer over its lifetime\<close>

text \<open>
  A state is the buffer with a flag: a definition is being received (its handler returned true last
  time). \<open>mb_step\<close> is one call; data only arrives while the flag is set, and an invocation ends
  only after it began.
\<close>

inductive mb_step :: "bool \<times> macro_buffer \<Rightarrow> bool \<times> macro_buffer \<Rightarrow> bool" where
  define_macro: "InitParser n d e b = Some (ok, b') \<Longrightarrow> mb_step (r, b) (ok, b')"
| data: "ParseDefinition c b = Some (ok, b') \<Longrightarrow> mb_step (True, b) (ok, b')"
| invoke: "InvokeMacro_begin n b = (s, b') \<Longrightarrow> mb_step (r, b) (r, b')"
| invoked: "invokedDepth b \<noteq> 0 \<Longrightarrow> mb_step (r, b) (r, InvokeMacro_end b)"
| reset: "mb_step (r, b) (r, ClearMacrosIfInUse b)"

definition mb_ok :: "bool \<times> macro_buffer \<Rightarrow> bool" where
  "mb_ok s \<longleftrightarrow> mb_inv (snd s) \<and> (fst s \<longrightarrow> defining (snd s))"

lemma InitParser_ok:
  assumes "mb_inv b" and "InitParser n d e b = Some (ok, b')"
  shows "mb_inv b'" and "ok \<Longrightarrow> defining b'" and "invokedDepth b' = invokedDepth b"
proof -
  have *: "mb_inv b' \<and> (ok \<longrightarrow> defining b') \<and> invokedDepth b' = invokedDepth b"
  proof (cases "accepts n d e b")
    case True
    have "ok" using InitParser_accepts [OF assms(1) True] assms(2) by simp
    with assms InitParser_fresh [OF assms(1) True, of b'] show ?thesis by (simp add: fresh_at_def defining_def)
  next
    case False
    with InitParser_refuses [OF assms(1) False] assms(2) show ?thesis by auto
  qed
  then show "mb_inv b'" "ok \<Longrightarrow> defining b'" "invokedDepth b' = invokedDepth b" by auto
qed

lemma mb_step_ok: "mb_step s t \<Longrightarrow> mb_ok s \<Longrightarrow> mb_ok t"
proof (induction rule: mb_step.induct)
  case (define_macro n d e b ok b' r)
  then show ?case using InitParser_ok [of b n d e ok b'] by (simp add: mb_ok_def)
next
  case (data c b ok b')
  then show ?case using ParseDefinition_keeps [of b c] by (simp add: mb_ok_def)
next
  case (invoke n b s b' r)
  then show ?case using InvokeMacro_begin_inv [of b n s b'] by (simp add: mb_ok_def defining_def)
next
  case (invoked b r)
  then show ?case using InvokeMacro_end_inv [of b] by (simp add: mb_ok_def defining_def)
next
  case (reset r b)
  then show ?case using ClearMacrosIfInUse_inv [of b] by (simp add: mb_ok_def)
qed

lemma new_macro_buffer_ok: "mb_ok (False, new_macro_buffer)"
  by (simp add: mb_ok_def mb_inv_def new_macro_buffer_def total_length_def MAX_MACROS_def sum_list_replicate)

lemma mb_reachable_ok: "mb_step\<^sup>*\<^sup>* (False, new_macro_buffer) s \<Longrightarrow> mb_ok s"
  by (induction rule: rtranclp_induct) (auto intro: mb_step_ok new_macro_buffer_ok)

text \<open>
  C21. Whatever sequence of definitions, data characters, invocations and resets a macro buffer
  sees, the space it reports is exactly what its macros leave of the 256K (the unsigned counter
  never wraps), the invocation depth is at most 16 and the text under invocation at most 256K, and
  neither starting a definition nor a data character of one raises \<^verbatim>\<open>out_of_range\<close>.
\<close>

theorem macro_buffer_accounting:
  assumes "mb_step\<^sup>*\<^sup>* (False, new_macro_buffer) (receiving, b)"
  shows "total_length b \<le> unat MAX_SPACE \<and> unat (GetSpaceAvailable b) = unat MAX_SPACE - total_length b \<and>
    unat (invokedDepth b) \<le> 16 \<and> unat (invokedSequenceLength b) \<le> unat MAX_SPACE \<and>
    InitParser n d e b \<noteq> None \<and> (receiving \<longrightarrow> ParseDefinition c b \<noteq> None)"
proof -
  from mb_reachable_ok [OF assms] have i: "mb_inv b" and d: "receiving \<longrightarrow> defining b" by (simp_all add: mb_ok_def)
  have "InitParser n d e b \<noteq> None"
    using InitParser_accepts [OF i] InitParser_refuses [OF i] by (cases "accepts n d e b") force+
  moreover have "ParseDefinition c b \<noteq> None" if receiving
    using ParseDefinition_keeps [of b c] d that keeps_definingE [of "invokedDepth b" "ParseDefinition c b"] by blast
  ultimately show ?thesis using i space_available [OF i] by (auto simp: mb_inv_def)
qed

text \<open>Macro 5 defined by \<^verbatim>\<open>4\<close>, \<^verbatim>\<open>1\<close> (an unfinished hex pair and a letter).\<close>

definition demo_buffer :: macro_buffer where
  "demo_buffer = snd (the (ParseDefinition 0x31 (snd (the (ParseDefinition 0x34
     (snd (the (InitParser 5 DeleteId HexPair new_macro_buffer))))))))"

theorem macro_buffer_accounting_witness:
  "mb_step\<^sup>*\<^sup>* (False, new_macro_buffer) (True, demo_buffer) \<and> macros demo_buffer ! 5 = [0x41] \<and>
   GetSpaceAvailable demo_buffer = 0x3FFFF \<and> ParseDefinition 0x1B demo_buffer \<noteq> None"
proof -
  define b1 where "b1 = snd (the (InitParser 5 DeleteId HexPair new_macro_buffer))"
  define b2 where "b2 = snd (the (ParseDefinition 0x34 b1))"
  have d: "demo_buffer = snd (the (ParseDefinition 0x31 b2))" by (simp add: demo_buffer_def b1_def b2_def)
  have some: "r \<noteq> None \<and> fst (the r) \<Longrightarrow> r = Some (True, snd (the r))" for r :: "(bool \<times> macro_buffer) option" by auto
  have "InitParser 5 DeleteId HexPair new_macro_buffer = Some (True, b1)"
    unfolding b1_def by (rule some) code_simp
  then have 1: "mb_step (False, new_macro_buffer) (True, b1)" by (rule define_macro)
  have "ParseDefinition 0x34 b1 = Some (True, b2)"
    unfolding b2_def by (rule some) (unfold b1_def, code_simp)
  then have 2: "mb_step (True, b1) (True, b2)" by (rule data)
  have "ParseDefinition 0x31 b2 = Some (True, demo_buffer)"
    unfolding d by (rule some) (unfold b2_def b1_def, code_simp)
  then have 3: "mb_step (True, b2) (True, demo_buffer)" by (rule data)
  have r: "mb_step\<^sup>*\<^sup>* (False, new_macro_buffer) (True, demo_buffer)"
    using 1 2 3 by (simp add: converse_rtranclp_into_rtranclp)
  moreover have "macros demo_buffer ! 5 = [0x41]" "GetSpaceAvailable demo_buffer = 0x3FFFF" by code_simp+
  moreover have "ParseDefinition 0x1B demo_buffer \<noteq> None" using macro_buffer_accounting [OF r, of 0 0 0 "0x1B"] by simp
  ultimately show ?thesis using r by (intro conjI)
qed

end
