(* ===== verification/VT_Macro_Definitions.thy ===== *)
theory VT_Macro_Definitions
  imports VT_MacroBuffer
begin

text \<open>
  What a \<^verbatim>\<open>DECDMAC\<close> data string means: \<open>item_text\<close> writes hex pairs and repeats, \<open>item_value\<close> is the
  text they stand for, and the parser of \<open>VT_MacroBuffer\<close> is shown to recover it.
\<close>

subsection \<open>Definitions as they are written\<close>

fun parse_all :: "wstring \<Rightarrow> macro_buffer \<Rightarrow> (bool \<times> macro_buffer) option" where
  "parse_all [] b = Some (True, b)"
| "parse_all (c # cs) b =
     (case ParseDefinition c b of
        None \<Rightarrow> None
      | Some (ok, b1) \<Rightarrow> if ok then parse_all cs b1 else Some (False, b1))"

definition hex_digit :: "nat \<Rightarrow> wchar" where
  "hex_digit v = (if v < 10 then of_nat (0x30 + v) else of_nat (0x41 + (v - 10)))"

definition hex_text :: "wstring \<Rightarrow> wstring" where
  "hex_text t = concat (map (\<lambda>c. [hex_digit (unat c div 16), hex_digit (unat c mod 16)]) t)"

datatype macro_item = Lit wstring | Rep nat wstring

fun item_text :: "macro_item \<Rightarrow> wstring" where
  "item_text (Lit t) = hex_text t"
| "item_text (Rep n t) = 0x21 # decimal n @ 0x3B # hex_text t @ [0x3B]"

fun item_value :: "macro_item \<Rightarrow> wstring" where
  "item_value (Lit t) = t"
| "item_value (Rep n t) = concat (replicate (max n 1) t)"

fun item_ok :: "macro_item \<Rightarrow> bool" where
  "item_ok (Lit t) \<longleftrightarrow> (\<forall>c \<in> set t. unat c < 256)"
| "item_ok (Rep n t) \<longleftrightarrow> n \<le> 65535 \<and> (\<forall>c \<in> set t. unat c < 256)"

lemma parse_all_append:
  "parse_all (xs @ ys) b =
     (case parse_all xs b of None \<Rightarrow> None | Some (ok, b1) \<Rightarrow> if ok then parse_all ys b1 else Some (False, b1))"
  by (induction xs arbitrary: b) (auto split: option.splits)

lemma nat_below_16: "v < 16 \<Longrightarrow> v \<in> {0, 1, 2, 3, 4, 5, 6, 7, 8, 9, 10, 11, 12, 13, 14, 15 :: nat}"
  by (simp only: insert_iff empty_iff) presburger

lemma decode_hex_digit:
  assumes "v < 16"
  shows "decodeHexDigit (hex_digit v) b = (True, b\<lparr>decodedChar := push_bit 4 (decodedChar b) + of_nat v\<rparr>)"
  using nat_below_16 [OF assms] by (elim insertE emptyE) (simp_all add: hex_digit_def decodeHexDigit_def Let_def)

lemma hex_digit_plain:
  assumes "v < 16"
  shows "hex_digit v \<noteq> 0x1B \<and> \<not> hex_digit v < 0x20"
  using nat_below_16 [OF assms] by (elim insertE emptyE) (simp_all add: hex_digit_def)

lemma hex_pair_value:
  assumes "unat (c :: wchar) < 256"
  shows "push_bit 4 (push_bit 4 0 + of_nat (unat c div 16)) + of_nat (unat c mod 16) = c"
proof -
  have "push_bit 4 (push_bit 4 0 + of_nat (unat c div 16)) + of_nat (unat c mod 16) = (of_nat (unat c div 16 * 16 + unat c mod 16) :: wchar)"
    by (simp only: of_nat_add of_nat_mult) (simp add: push_bit_eq_mult)
  also have "\<dots> = c" by (simp only: div_mult_mod_eq) simp
  finally show ?thesis .
qed

text \<open>Between two items of a hex definition.\<close>

definition hex_ready :: "macro_buffer \<Rightarrow> bool" where
  "hex_ready b \<longleftrightarrow> mb_inv b \<and> parseState b = ExpectingHexDigit \<and> decodedChar b = 0"

lemma hex_ready_grow: "hex_ready b \<Longrightarrow> total_length b + length t \<le> unat MAX_SPACE \<Longrightarrow> hex_ready (grow t b)"
  by (simp add: hex_ready_def grow_inv)

lemma parse_pair:
  assumes r: "hex_ready b" and c: "unat c < 256" and f: "total_length b < unat MAX_SPACE"
  shows "parse_all [hex_digit (unat c div 16), hex_digit (unat c mod 16)] b = Some (True, grow [c] b)"
proof -
  define d1 where "d1 = hex_digit (unat c div 16)"
  define d2 where "d2 = hex_digit (unat c mod 16)"
  have v: "unat c div 16 < 16" "unat c mod 16 < 16" using c by simp_all
  note p = hex_digit_plain [OF v(1), folded d1_def] hex_digit_plain [OF v(2), folded d2_def]
  note D = decode_hex_digit [OF v(1), folded d1_def] decode_hex_digit [OF v(2), folded d2_def]
  define b1 where "b1 = b\<lparr>decodedChar := push_bit 4 0 + of_nat (unat c div 16), parseState := ExpectingSecondHexDigit\<rparr>"
  have 1: "ParseDefinition d1 b = Some (True, b1)"
    using r p D(1) [of b] by (simp add: ParseDefinition_def parse_state_def hex_ready_def b1_def)
  have i: "mb_inv (b1\<lparr>decodedChar := c\<rparr>)" "total_length (b1\<lparr>decodedChar := c\<rparr>) = total_length b"
    using r by (simp_all add: b1_def hex_ready_def total_length_def)
  have 2: "decodeHexDigit d2 b1 = (True, b1\<lparr>decodedChar := c\<rparr>)" using D(2) [of b1] hex_pair_value [OF c] by (simp add: b1_def)
  have "(grow [c] (b1\<lparr>decodedChar := c\<rparr>))\<lparr>decodedChar := 0, parseState := ExpectingHexDigit\<rparr> = grow [c] b"
    using r by (simp add: b1_def grow_def set_active_def active_text_def hex_ready_def)
  then have 3: "ParseDefinition d2 b1 = Some (True, grow [c] b)"
    using p 2 append_spec [OF i(1), of c] i f by (simp add: ParseDefinition_def parse_state_def b1_def)
  from 1 3 show ?thesis by (simp add: d1_def d2_def)
qed

lemma parse_hex:
  "hex_ready b \<Longrightarrow> \<forall>c \<in> set t. unat c < 256 \<Longrightarrow> total_length b + length t \<le> unat MAX_SPACE \<Longrightarrow>
   parse_all (hex_text t) b = Some (True, grow t b)"
proof (induction t arbitrary: b)
  case Nil
  then show ?case by (simp add: hex_text_def hex_ready_def)
next
  case (Cons c t)
  have i: "mb_inv b" using Cons.prems by (simp add: hex_ready_def)
  have r: "hex_ready (grow [c] b)" using Cons.prems by (intro hex_ready_grow) simp_all
  have "parse_all (hex_text t) (grow [c] b) = Some (True, grow t (grow [c] b))"
    by (rule Cons.IH [OF r]) (use Cons.prems grow_total [OF i] in simp_all)
  moreover have "parse_all [hex_digit (unat c div 16), hex_digit (unat c mod 16)] b = Some (True, grow [c] b)"
    using Cons.prems by (intro parse_pair) simp_all
  moreover have "hex_text (c # t) = [hex_digit (unat c div 16), hex_digit (unat c mod 16)] @ hex_text t" by (simp add: hex_text_def)
  ultimately show ?case using grow_grow [OF i] by (simp only: parse_all_append) simp
qed

lemma parse_digit:
  assumes "v < 10" and "parseState b = ExpectingRepeatCount"
  shows "ParseDefinition (of_nat (0x30 + v)) b = Some (True, b\<lparr>repeatCount := min (repeatCount b * 10 + of_nat v) 65535\<rparr>)"
proof -
  have "v \<in> {0, 1, 2, 3, 4, 5, 6, 7, 8, 9}" using assms(1) by auto
  then show ?thesis using assms(2)
    by (elim insertE emptyE) (simp_all add: ParseDefinition_def parse_state_def)
qed

lemma parse_decimal:
  "n \<le> 65535 \<Longrightarrow> parseState b = ExpectingRepeatCount \<Longrightarrow> repeatCount b = 0 \<Longrightarrow>
   parse_all (decimal n) b = Some (True, b\<lparr>repeatCount := of_nat n\<rparr>)"
proof (induction n rule: decimal.induct)
  case (1 n)
  have m: "min (of_nat k) 65535 = (of_nat k :: size_t)" if "k \<le> 65535" for k
    using that by (simp add: min_def word_le_nat_alt unat_of_nat)
  show ?case
  proof (cases "n < 10")
    case True
    then show ?thesis using parse_digit [of n b] 1 m [of n] by (subst decimal.simps) simp
  next
    case False
    define d where "d = b\<lparr>repeatCount := of_nat (n div 10)\<rparr>"
    have "parse_all (decimal (n div 10)) b = Some (True, d)" using 1 False by (simp add: d_def)
    moreover have "of_nat (n div 10) * 10 + of_nat (n mod 10) = (of_nat n :: size_t)"
      by (metis div_mult_mod_eq mult.commute of_nat_add of_nat_mult of_nat_numeral)
    then have "ParseDefinition (of_nat (0x30 + n mod 10)) d = Some (True, b\<lparr>repeatCount := of_nat n\<rparr>)"
      using parse_digit [of "n mod 10" d] 1 m [of n] by (simp add: d_def)
    ultimately show ?thesis using False by (subst decimal.simps) (simp add: parse_all_append)
  qed
qed

text \<open>\<open>b'\<close> is \<open>b\<close> after an item with value \<open>t\<close>.\<close>

definition extended :: "wstring \<Rightarrow> macro_buffer \<Rightarrow> macro_buffer \<Rightarrow> bool" where
  "extended t b b' \<longleftrightarrow> hex_ready b' \<and> \<not> repeatPending b' \<and> activeMacroId b' = activeMacroId b \<and>
     macros b' = (macros b)[activeMacroId b := active_text b @ t] \<and> invokedDepth b' = invokedDepth b"

lemma extended_total: "hex_ready b \<Longrightarrow> extended t b b' \<Longrightarrow> total_length b' = total_length b + length t"
  using grow_total [of b t] by (simp add: extended_def hex_ready_def grow_def total_length_def set_active_def)

lemma extended_trans:
  assumes "hex_ready b" "extended t b c" "extended u c d"
  shows "extended (t @ u) b d"
proof -
  have "activeMacroId b < length (macros b)" using assms(1) by (simp add: hex_ready_def mb_inv_def)
  with assms show ?thesis by (simp add: extended_def active_text_def)
qed

lemma grow_extended:
  assumes "hex_ready b" "\<not> repeatPending b" "total_length b + length t \<le> unat MAX_SPACE"
  shows "extended t b (grow t b)"
  using assms hex_ready_grow [OF assms(1,3)] by (simp add: extended_def) (simp add: grow_def set_active_def)

text \<open>A repeat: its header, then its text, then the terminator that applies it.\<close>

definition rep_started :: "nat \<Rightarrow> macro_buffer \<Rightarrow> macro_buffer" where
  "rep_started n b = b\<lparr>parseState := ExpectingHexDigit, repeatCount := of_nat n, repeatPending := True, repeatStart := size_of (active_text b)\<rparr>"

lemma parse_rep_header:
  assumes r: "hex_ready b" and np: "\<not> repeatPending b" and n: "n \<le> 65535"
  shows "parse_all (0x21 # decimal n @ [0x3B]) b = Some (True, rep_started n b)" and "hex_ready (rep_started n b)"
proof -
  have i: "mb_inv b" using r by (simp add: hex_ready_def)
  define b0 where "b0 = b\<lparr>parseState := ExpectingRepeatCount, repeatCount := 0\<rparr>"
  have 0: "ParseDefinition 0x21 b = Some (True, b0)"
    using r np by (simp add: ParseDefinition_def parse_state_def decodeHexDigit_def hex_ready_def b0_def)
  have 1: "parse_all (decimal n) b0 = Some (True, b0\<lparr>repeatCount := of_nat n\<rparr>)"
    by (rule parse_decimal [OF n]) (simp_all add: b0_def)
  have i0: "mb_inv (b0\<lparr>repeatCount := of_nat n\<rparr>)" unfolding b0_def using i n by (simp add: mb_inv_count unat_of_nat)
  have 2: "ParseDefinition 0x3B (b0\<lparr>repeatCount := of_nat n\<rparr>) = Some (True, rep_started n b)"
    using activeMacro_some [OF i0] by (simp add: ParseDefinition_def parse_state_def b0_def rep_started_def active_text_def)
  show "parse_all (0x21 # decimal n @ [0x3B]) b = Some (True, rep_started n b)"
    using 0 1 2 by (simp add: parse_all_append)
  show "hex_ready (rep_started n b)"
    unfolding hex_ready_def rep_started_def using i0 r by (simp add: b0_def hex_ready_def mb_inv_def total_length_def)
qed

lemma apply_terminator:
  assumes "hex_ready b" "repeatPending b" "applyPendingRepeat b = Some (True, b')"
  shows "ParseDefinition 0x3B b = Some (True, b')"
proof -
  have eq: "b\<lparr>decodedChar := 0\<rparr> = b" using assms(1) by (simp add: hex_ready_def)
  have "applyPendingRepeat (b\<lparr>decodedChar := 0\<rparr>) = Some (True, b')" unfolding eq by (rule assms(3))
  with assms show ?thesis by (simp add: ParseDefinition_def parse_state_def decodeHexDigit_def hex_ready_def)
qed

lemma parse_rep:
  assumes r: "hex_ready b" and np: "\<not> repeatPending b" and n: "n \<le> 65535" and t: "\<forall>c \<in> set t. unat c < 256"
    and fits: "total_length b + (length t + (n - 1) * length t) \<le> unat MAX_SPACE"
  shows "\<exists>b'. parse_all (item_text (Rep n t)) b = Some (True, b') \<and> extended (t @ concat (replicate (n - 1) t)) b b'"
proof -
  define b1 where "b1 = rep_started n b"
  note H = parse_rep_header [OF r np n, folded b1_def]
  have a1: "active_text b1 = active_text b" "total_length b1 = total_length b" by (simp_all add: b1_def rep_started_def total_length_def)
  have i: "mb_inv b" "mb_inv b1" using r H(2) by (simp_all add: hex_ready_def)
  define b2 where "b2 = grow t b1"
  have p2: "parse_all (hex_text t) b1 = Some (True, b2)"
    unfolding b2_def by (rule parse_hex [OF H(2) t]) (use a1 fits in simp)
  have r2: "hex_ready b2" unfolding b2_def using hex_ready_grow [OF H(2), of t] a1 fits by simp
  then have i2: "mb_inv b2" by (simp add: hex_ready_def)
  have s2: "active_text b2 = active_text b @ t" "unat (repeatStart b2) = length (active_text b)" "unat (repeatCount b2) = n" "repeatPending b2"
    using grow_text [OF i(2)] a1 active_size [OF i(1)] n by (simp_all add: b2_def b1_def rep_started_def unat_of_nat)
  have tot: "total_length b2 + (n - 1) * length t \<le> unat MAX_SPACE" using grow_total [OF i(2)] a1 fits by (simp add: b2_def)
  define b3 where "b3 = (grow (concat (replicate (n - 1) t)) b2)\<lparr>repeatPending := False\<rparr>"
  have "applyPendingRepeat b2 = Some (True, b3)"
    using applyPendingRepeat_spec [OF i2] s2 tot by (simp add: b3_def)
  from apply_terminator [OF r2 s2(4) this] have p3: "parse_all [0x3B] b2 = Some (True, b3)" by simp
  have "item_text (Rep n t) = (0x21 # decimal n @ [0x3B]) @ hex_text t @ [0x3B]" by simp
  then have "parse_all (item_text (Rep n t)) b = Some (True, b3)"
    by (simp only: parse_all_append [of "0x21 # decimal n @ [0x3B]"] parse_all_append [of "hex_text t"] H(1) p2 p3
        option.case prod.case if_True)
  moreover have "b3 = (grow (t @ concat (replicate (n - 1) t)) b1)\<lparr>repeatPending := False\<rparr>"
    using grow_grow [OF i(2)] by (simp add: b3_def b2_def)
  moreover have "hex_ready b3" using repeat_fits [OF i2 tot] r2 by (simp add: hex_ready_def b3_def)
  ultimately show ?thesis
    using a1 by (intro exI [of _ b3]) (simp add: extended_def, simp add: grow_def set_active_def b1_def rep_started_def)
qed

lemma parse_item:
  assumes r: "hex_ready b" and np: "\<not> repeatPending b" and ok: "item_ok it"
    and fits: "total_length b + length (item_value it) \<le> unat MAX_SPACE"
  shows "\<exists>b'. parse_all (item_text it) b = Some (True, b') \<and> extended (item_value it) b b'"
proof (cases it)
  case (Lit t)
  then show ?thesis using parse_hex [OF r, of t] grow_extended [OF r np, of t] ok fits by auto
next
  case (Rep n t)
  have v: "item_value it = t @ concat (replicate (n - 1) t)" using Rep by (cases n) simp_all
  then have "length (item_value it) = length t + (n - 1) * length t" by (simp add: length_concat sum_list_replicate)
  with parse_rep [OF r np, of n t] ok fits v Rep show ?thesis by (simp del: item_text.simps item_value.simps)
qed

lemma parse_items:
  "hex_ready b \<Longrightarrow> \<not> repeatPending b \<Longrightarrow> \<forall>it \<in> set its. item_ok it \<Longrightarrow>
   total_length b + length (concat (map item_value its)) \<le> unat MAX_SPACE \<Longrightarrow>
   \<exists>b'. parse_all (concat (map item_text its)) b = Some (True, b') \<and> extended (concat (map item_value its)) b b'"
proof (induction its arbitrary: b)
  case Nil
  then show ?case using grow_extended [of b "[]"] by (simp add: hex_ready_def)
next
  case (Cons it its)
  obtain c where c: "parse_all (item_text it) b = Some (True, c)" "extended (item_value it) b c"
    using parse_item [of b it] Cons.prems by auto
  have c': "hex_ready c" "\<not> repeatPending c" using c(2) by (simp_all add: extended_def)
  obtain d where d: "parse_all (concat (map item_text its)) c = Some (True, d)" "extended (concat (map item_value its)) c d"
    using Cons.IH [OF c'] Cons.prems extended_total [OF Cons.prems(1) c(2)] by auto
  show ?case
    using c d extended_trans [OF Cons.prems(1) c(2) d(2)] by (simp add: parse_all_append)
qed

text \<open>
  C20. A macro defined in hex pairs holds what was written: after an accepted \<^verbatim>\<open>DECDMAC\<close>, receiving
  any mixture of hex-encoded text and repeats \<^verbatim>\<open>!n;...;\<close> that fits the space and then the final
  escape, the macro is the text with every repeat written out \<open>n\<close> times (once for 0), every other
  macro is as the delete control left it, and invoking it hands exactly that text to the parser.
\<close>

theorem macro_definition_roundtrip:
  assumes i: "mb_inv b" and acc: "accepts n d HexPair b" and ok: "\<forall>it \<in> set its. item_ok it"
    and fits: "(if d = DeleteId then total_length b else 0) + length (concat (map item_value its)) < unat MAX_SPACE"
  shows "\<exists>r b'. InitParser n d HexPair b = Some (True, r) \<and>
     parse_all (concat (map item_text its) @ [0x1B]) r = Some (False, b') \<and>
     macros b' = (macros r)[n := concat (map item_value its)] \<and>
     macros r = (if d = DeleteId then (macros b)[n := []] else replicate MAX_MACROS []) \<and>
     fst (InvokeMacro_begin n b') = Some (concat (map item_value its))"
proof -
  define t where "t = concat (map item_value its)"
  obtain r where r: "InitParser n d HexPair b = Some (True, r)" using InitParser_accepts [OF i acc] by blast
  note F = InitParser_fresh [OF i acc r]
  have n: "n < MAX_MACROS" "invokedDepth b = 0" using acc by (simp_all add: accepts_def)
  have hr: "hex_ready r" "\<not> repeatPending r" "activeMacroId r = n" "active_text r = []"
    using F(1) by (simp_all add: fresh_at_def hex_ready_def active_text_def)
  have l: "n < length (macros b)" using i n by (simp add: mb_inv_def)
  have "total_length r \<le> (if d = DeleteId then total_length b else 0)"
    using total_length_update [OF l, of "[]"] F(3) by (simp add: total_length_def sum_list_replicate)
  with fits have f: "total_length r + length t < unat MAX_SPACE" by (simp add: t_def)
  obtain b' where b': "parse_all (concat (map item_text its)) r = Some (True, b')" "extended t r b'"
    using parse_items [OF hr(1,2) ok] f by (auto simp: t_def)
  have m: "macros b' = (macros r)[n := t]" "mb_inv b'" "invokedDepth b' = 0" "\<not> repeatPending b'"
    using b'(2) hr F(2) n(2) by (simp_all add: extended_def hex_ready_def)
  have "parse_all (concat (map item_text its) @ [0x1B]) r = Some (False, b')"
    using b'(1) m(4) by (simp add: parse_all_append ParseDefinition_def)
  moreover have "fst (InvokeMacro_begin n b') = Some t"
  proof -
    have lr: "length (macros r) = MAX_MACROS" using hr(1) by (simp add: hex_ready_def mb_inv_def)
    have "size_of t < MAX_SPACE" using f size_of_unat [of t] by (simp add: word_less_nat_alt)
    moreover have "invokedSequenceLength b' = 0" using m(2,3) by (simp add: mb_inv_def)
    ultimately show ?thesis using m n lr by (simp add: InvokeMacro_begin_def Let_def)
  qed
  ultimately show ?thesis using r m(1) F(3) by (auto simp: t_def)
qed

text \<open>\<^verbatim>\<open>41!3;42;\<close> defines \<^verbatim>\<open>ABBB\<close>.\<close>

theorem macro_definition_roundtrip_witness:
  "\<exists>r b'. InitParser 2 DeleteId HexPair new_macro_buffer = Some (True, r) \<and>
     parse_all ([0x34, 0x31, 0x21, 0x33, 0x3B, 0x34, 0x32, 0x3B] @ [0x1B]) r = Some (False, b') \<and>
     fst (InvokeMacro_begin 2 b') = Some [0x41, 0x42, 0x42, 0x42]"
proof -
  have i: "mb_inv new_macro_buffer" using new_macro_buffer_ok by (simp add: mb_ok_def)
  have acc: "accepts 2 DeleteId HexPair new_macro_buffer" by (simp add: accepts_def new_macro_buffer_def MAX_MACROS_def)
  have t: "total_length new_macro_buffer = 0" by (simp add: new_macro_buffer_def total_length_def sum_list_replicate)
  have v: "item_value (Rep 3 [0x42]) = [0x42, 0x42, 0x42]" by (simp add: numeral_3_eq_3)
  have x: "concat (map item_text [Lit [0x41], Rep 3 [0x42]]) = [0x34, 0x31, 0x21, 0x33, 0x3B, 0x34, 0x32, 0x3B]"
    by (simp add: hex_text_def hex_digit_def decimal.simps)
  have ok: "\<forall>it \<in> set [Lit [0x41], Rep 3 [0x42]]. item_ok it" by simp
  have f: "(if DeleteId = DeleteId then total_length new_macro_buffer else 0) +
      length (concat (map item_value [Lit [0x41], Rep 3 [0x42]])) < unat MAX_SPACE"
    using v t by (simp add: MAX_SPACE_def del: item_value.simps(2))
  from macro_definition_roundtrip [OF i acc ok f] show ?thesis
    unfolding x using v by (auto simp del: item_value.simps(2))
qed

end
