(* ===== verification/VT_Parser_Safety.thy ===== *)
theory VT_Parser_Safety
  imports VT_StateMachine
begin

text \<open>
  What the parser promises its engine. \<open>vt_inv\<close> is the parser's own invariant (parameter counts and
  values, sub-parameter ranges that fit their bytes, a handler whenever data characters are passed
  on); \<open>call_ok\<close> is what every call to the engine satisfies. The locale \<open>parser_engine\<close> is the
  interface between the two; its lemmas go event by event. \<open>frame\<close> is what an engine call cannot
  change.
\<close>

subsection \<open>What an engine call may change\<close>

definition frame :: "'e sm \<Rightarrow> 'e sm \<Rightarrow> bool" where
  "frame sm sm' \<longleftrightarrow> isEngineForInput sm' = isEngineForInput sm \<and> state sm' = state sm \<and>
     currentString sm' = currentString sm \<and> runOffset sm' = runOffset sm \<and> runSize sm' = runSize sm \<and>
     idBuilder sm' = idBuilder sm \<and> parameters sm' = parameters sm \<and>
     parameterLimitOverflowed sm' = parameterLimitOverflowed sm \<and> subParameters sm' = subParameters sm \<and>
     subParameterRanges sm' = subParameterRanges sm \<and>
     subParameterLimitOverflowed sm' = subParameterLimitOverflowed sm \<and>
     subParameterCounter sm' = subParameterCounter sm \<and> oscString sm' = oscString sm \<and>
     oscParameter sm' = oscParameter sm \<and> dcsStringHandler sm' = dcsStringHandler sm \<and>
     processingLastCharacter sm' = processingLastCharacter sm"

lemma frame_refl [intro]: "frame sm sm"
  by (simp add: frame_def)

lemma frame_trans: "frame a b \<Longrightarrow> frame b c \<Longrightarrow> frame a c"
  by (simp add: frame_def)

lemma frame_updates [intro]:
  "frame a b \<Longrightarrow> frame a (b\<lparr>engine := e\<rparr>)" "frame a b \<Longrightarrow> frame a (b\<lparr>acceptC1 := x\<rparr>)"
  "frame a b \<Longrightarrow> frame a (b\<lparr>ansi := x\<rparr>)" "frame a b \<Longrightarrow> frame a (b\<lparr>injections := is\<rparr>)"
  "frame a b \<Longrightarrow> frame a (b\<lparr>onCsiCompleteCallback := x\<rparr>)" "frame a b \<Longrightarrow> frame a (b\<lparr>cachedSequence := q\<rparr>)"
  by (simp_all add: frame_def)

lemma frame_effect: "frame a b \<Longrightarrow> frame a (apply_effect x b)"
  by (auto simp: apply_effect_def split: vt_effect.splits vt_mode.splits)

lemma frame_effects: "frame a b \<Longrightarrow> frame a (foldl (\<lambda>s x. apply_effect x s) b xs)"
  by (induction xs arbitrary: b) (auto intro: frame_effect)

lemma engine_effects [simp]: "engine (foldl (\<lambda>s x. apply_effect x s) b xs) = engine b"
  by (induction xs arbitrary: b) (auto simp: apply_effect_def split: vt_effect.splits vt_mode.splits)

lemma call_engine_frame: "call_engine eng c sm = (r, sm') \<Longrightarrow> frame sm sm'"
  by (auto simp: call_engine_def split: prod.splits intro!: frame_effects)

subsection \<open>Well-formed calls\<close>

definition param_ok :: "VTParameter \<Rightarrow> bool" where
  "param_ok p \<longleftrightarrow> - 1 \<le> p \<and> p \<le> MAX_PARAMETER_VALUE"

fun ranges_of :: "nat \<Rightarrow> nat list \<Rightarrow> (byte \<times> byte) list" where
  "ranges_of a [] = []"
| "ranges_of a (c # cs) = (of_nat a, of_nat (a + c)) # ranges_of (a + c) cs"

text \<open>
  \<open>counts_ok cs n subs ranges\<close>: \<open>cs\<close> counts the sub-parameters of each of \<open>n\<close> parameters, at most
  six each, and the ranges cut the sub-parameter list accordingly.
\<close>

definition counts_ok :: "nat list \<Rightarrow> nat \<Rightarrow> VTParameter list \<Rightarrow> (byte \<times> byte) list \<Rightarrow> bool" where
  "counts_ok cs n subs ranges \<longleftrightarrow> length cs = n \<and> n \<le> MAX_PARAMETER_COUNT \<and>
     (\<forall>c \<in> set cs. c \<le> MAX_SUBPARAMETER_COUNT) \<and> sum_list cs = length subs \<and> ranges = ranges_of 0 cs"

definition params_ok :: "vt_params \<Rightarrow> bool" where
  "params_ok v \<longleftrightarrow> (\<forall>p \<in> set (vp_params v) \<union> set (vp_subParams v). param_ok p) \<and>
     (\<exists>cs. counts_ok cs (length (vp_params v)) (vp_subParams v) (vp_subParamRanges v))"

definition plain_ok :: "vt_params \<Rightarrow> bool" where
  "plain_ok v \<longleftrightarrow> length (vp_params v) \<le> MAX_PARAMETER_COUNT \<and> (\<forall>p \<in> set (vp_params v). param_ok p) \<and>
     vp_subParams v = [] \<and> vp_subParamRanges v = []"

definition printable :: "wchar \<Rightarrow> bool" where
  "printable c \<longleftrightarrow> \<not> isActionableFromGround c"

definition osc_char :: "wchar \<Rightarrow> bool" where
  "osc_char c \<longleftrightarrow> c \<ge> 0x20 \<and> \<not> isC1ControlCharacter c"

fun call_ok :: "vt_call \<Rightarrow> bool" where
  "call_ok (CallPrint c) = printable c"
| "call_ok (CallPrintString s) = (s \<noteq> [] \<and> (\<forall>c \<in> set s. printable c))"
| "call_ok (CallVt52EscDispatch i v) = (plain_ok v \<and> length (vp_params v) \<le> 2)"
| "call_ok (CallCsiDispatch i v) = params_ok v"
| "call_ok (CallDcsDispatch i v) = plain_ok v"
| "call_ok (CallSs3Dispatch c v) = plain_ok v"
| "call_ok (CallOscDispatch p s) = (0 \<le> p \<and> p \<le> MAX_PARAMETER_VALUE \<and> (\<forall>c \<in> set s. osc_char c))"
| "call_ok (CallExecute c) = (c \<le> 0x1F \<or> c = DEL)"
| "call_ok (CallDcsChar c) = (c \<le> 0x7E)"
| "call_ok _ = True"

text \<open>The calls of the engine's interface, as opposed to the callback it registered.\<close>

definition sent :: "vt_call \<Rightarrow> bool" where
  [simp]: "sent c \<longleftrightarrow> call_ok c \<and> c \<noteq> CallCallback \<and> c \<noteq> CallCallbackDone"

subsection \<open>The parser's invariant\<close>

definition collects :: "vt_state \<Rightarrow> bool" where
  "collects s \<longleftrightarrow> s \<in> {CsiEntry, CsiIntermediate, CsiParam, CsiSubParam, Ss3Entry, Ss3Param, DcsEntry, DcsIntermediate, DcsParam}"

definition counting :: "nat list \<Rightarrow> 'e sm \<Rightarrow> bool" where
  "counting cs sm \<longleftrightarrow> counts_ok cs (length (parameters sm)) (subParameters sm) (subParameterRanges sm) \<and>
     unat (subParameterCounter sm) = (if cs = [] then 0 else last cs)"

text \<open>In \<open>CsiSubParam\<close> a digit has a sub-parameter of the current parameter to go to.\<close>

definition sub_ready :: "nat list \<Rightarrow> 'e sm \<Rightarrow> bool" where
  "sub_ready cs sm \<longleftrightarrow> subParameterLimitOverflowed sm \<or> (cs \<noteq> [] \<and> 0 < last cs)"

definition vt_inv :: "'e sm \<Rightarrow> bool" where
  "vt_inv sm \<longleftrightarrow> (\<forall>p \<in> set (parameters sm) \<union> set (subParameters sm). param_ok p) \<and>
     length (parameters sm) \<le> MAX_PARAMETER_COUNT \<and>
     0 \<le> oscParameter sm \<and> oscParameter sm \<le> MAX_PARAMETER_VALUE \<and> (\<forall>c \<in> set (oscString sm). osc_char c) \<and>
     (state sm = DcsPassThrough \<longrightarrow> dcsStringHandler sm) \<and>
     (state sm \<in> {Escape, EscapeIntermediate} \<longrightarrow> parameters sm = []) \<and>
     (state sm = Vt52Param \<longrightarrow> length (parameters sm) < 2) \<and>
     (collects (state sm) \<longrightarrow> (\<exists>cs. counting cs sm \<and> (state sm = CsiSubParam \<longrightarrow> sub_ready cs sm)))"

lemma vt_inv_frame: "frame sm sm' \<Longrightarrow> vt_inv sm' = vt_inv sm"
  by (simp add: frame_def vt_inv_def counting_def sub_ready_def)

lemma ActionClear_inv: "vt_inv (ActionClear sm)" if "state sm \<notin> {DcsPassThrough, CsiSubParam}"
proof -
  have "counting [] (ActionClear sm)" using that by (simp add: counting_def ActionClear_def counts_ok_def)
  moreover have "state (ActionClear sm) = state sm" "parameters (ActionClear sm) = []" "subParameters (ActionClear sm) = []"
    "oscParameter (ActionClear sm) = 0" "oscString (ActionClear sm) = []" by (simp_all add: ActionClear_def)
  ultimately show ?thesis using that by (auto simp: vt_inv_def MAX_PARAMETER_VALUE_def)
qed

subsection \<open>Parameters\<close>

lemma AccumulateTo_bounds:
  "isNumericParamValue c \<Longrightarrow> param_ok v \<Longrightarrow> param_ok (AccumulateTo c (value_or v 0)) \<and> 0 \<le> AccumulateTo c (value_or v 0)"
proof -
  assume c: "isNumericParamValue c" and v: "param_ok v"
  have "48 \<le> uint c \<and> uint c \<le> 57" using c by (simp add: isNumericParamValue_def word_le_def)
  with v show ?thesis by (auto simp: AccumulateTo_def value_or_def param_ok_def MAX_PARAMETER_VALUE_def Let_def)
qed

lemma ranges_of_append: "ranges_of a (cs @ [c]) = ranges_of a cs @ [(of_nat (a + sum_list cs), of_nat (a + sum_list cs + c))]"
  by (induction cs arbitrary: a) (simp_all add: ac_simps)

lemma length_ranges_of [simp]: "length (ranges_of a cs) = length cs"
  by (induction cs arbitrary: a) simp_all

lemma counts_total: "counts_ok cs n subs rs \<Longrightarrow> length subs \<le> 192"
proof -
  assume c: "counts_ok cs n subs rs"
  have "(\<forall>c \<in> set cs. c \<le> 6) \<Longrightarrow> sum_list cs \<le> 6 * length cs" by (induction cs) auto
  with c show ?thesis by (simp add: counts_ok_def MAX_PARAMETER_COUNT_def MAX_SUBPARAMETER_COUNT_def)
qed

lemma param_omitted_ok [simp]: "param_ok VTParameter_omitted"
  by (simp add: param_ok_def VTParameter_omitted_def MAX_PARAMETER_VALUE_def)

lemma counting_push:
  assumes "counts_ok cs (length (parameters sm)) (subParameters sm) (subParameterRanges sm)"
    and "length (parameters sm) < MAX_PARAMETER_COUNT" and "subParameterCounter sm = 0"
  shows "counting (cs @ [0]) (push_parameter sm)"
  using assms by (simp add: counting_def counts_ok_def push_parameter_def Let_def ranges_of_append)

text \<open>The first character of a parameter list pushes a parameter.\<close>

definition ensure_parameter :: "'e sm \<Rightarrow> 'e sm" where
  "ensure_parameter sm = (if parameters sm = [] then push_parameter sm else sm)"

definition values_ok :: "'e sm \<Rightarrow> bool" where
  "values_ok sm \<longleftrightarrow> (\<forall>p \<in> set (parameters sm) \<union> set (subParameters sm). param_ok p)"

lemma ensure_parameter_spec:
  assumes "counting cs sm" and "values_ok sm"
  obtains cs' where "counting cs' (ensure_parameter sm)" "cs' \<noteq> []" "values_ok (ensure_parameter sm)"
    "parameters (ensure_parameter sm) \<noteq> []" "subParameters (ensure_parameter sm) = subParameters sm"
    "cs \<noteq> [] \<Longrightarrow> cs' = cs" "subParameterLimitOverflowed (ensure_parameter sm) = subParameterLimitOverflowed sm"
proof (cases "parameters sm = []")
  case True
  then have "cs = []" using assms by (auto simp: counting_def counts_ok_def)
  with assms True have "subParameterCounter sm = 0" by (simp add: counting_def unat_eq_0)
  then have "counting ([] @ [0]) (push_parameter sm)"
    using assms(1) True \<open>cs = []\<close> by (intro counting_push) (auto simp: counting_def MAX_PARAMETER_COUNT_def)
  with True assms(2) \<open>cs = []\<close> show ?thesis
    by (intro that [of "[0]"]) (auto simp: ensure_parameter_def push_parameter_def values_ok_def Let_def)
next
  case False
  then have "cs \<noteq> []" using assms by (auto simp: counting_def counts_ok_def)
  with False assms show ?thesis by (intro that [of cs]) (simp_all add: ensure_parameter_def)
qed

lemma ActionParam_ensure:
  "ActionParam c sm =
     (if parameterLimitOverflowed sm then sm
      else
        (let sm1 = ensure_parameter sm
         in if isParameterDelimiter c then
              (if length (parameters sm1) \<ge> MAX_PARAMETER_COUNT
               then sm1\<lparr>parameterLimitOverflowed := True\<rparr>
               else push_parameter (sm1\<lparr>subParameterCounter := 0, subParameterLimitOverflowed := False\<rparr>))
            else
              sm1\<lparr>parameters := butlast (parameters sm1) @ [AccumulateTo c (value_or (last (parameters sm1)) 0)]\<rparr>))"
  by (simp add: ActionParam_def ensure_parameter_def)

lemma values_ok_last:
  assumes "\<forall>p \<in> set ps. param_ok p" and "ps \<noteq> []" and "isNumericParamValue c"
  shows "\<forall>p \<in> set (butlast ps @ [AccumulateTo c (value_or (last ps) 0)]). param_ok p"
  using assms AccumulateTo_bounds [OF assms(3), of "last ps"] by (auto dest: in_set_butlastD)

lemma ActionParam_counting:
  assumes "counting cs sm" and "values_ok sm" and c: "isNumericParamValue c \<or> isParameterDelimiter c"
  shows "\<exists>cs'. counting cs' (ActionParam c sm)" and "values_ok (ActionParam c sm)"
proof -
  define sm1 where "sm1 = ensure_parameter sm"
  obtain cs' where s: "counting cs' sm1" "cs' \<noteq> []" "values_ok sm1" "parameters sm1 \<noteq> []"
    using ensure_parameter_spec [OF assms(1,2)] by (metis sm1_def)
  define sm2 where "sm2 = sm1\<lparr>subParameterCounter := 0, subParameterLimitOverflowed := False\<rparr>"
  define sm3 where "sm3 = sm1\<lparr>parameters := butlast (parameters sm1) @ [AccumulateTo c (value_or (last (parameters sm1)) 0)]\<rparr>"
  have A: "ActionParam c sm = (if parameterLimitOverflowed sm then sm
      else if isParameterDelimiter c then
        (if length (parameters sm1) \<ge> MAX_PARAMETER_COUNT then sm1\<lparr>parameterLimitOverflowed := True\<rparr> else push_parameter sm2)
      else sm3)"
    unfolding ActionParam_ensure sm1_def [symmetric] Let_def sm2_def sm3_def ..
  have 2: "counting (cs' @ [0]) (push_parameter sm2)" if "\<not> length (parameters sm1) \<ge> MAX_PARAMETER_COUNT"
    by (rule counting_push) (use s that in \<open>auto simp: sm2_def counting_def\<close>)
  have 3: "counting cs' sm3" using s(1,4) by (simp add: counting_def sm3_def)
  have o: "counting cs' (sm1\<lparr>parameterLimitOverflowed := True\<rparr>)" using s(1) by (simp add: counting_def)
  show "\<exists>cs'. counting cs' (ActionParam c sm)" unfolding A using assms(1) 2 3 o by auto
  have "values_ok (push_parameter sm2)" using s(3) by (auto simp: values_ok_def push_parameter_def sm2_def Let_def)
  moreover have "values_ok sm3" if "\<not> isParameterDelimiter c"
    using values_ok_last [of "parameters sm1" c] s(3,4) c that by (simp add: values_ok_def sm3_def ball_Un)
  ultimately show "values_ok (ActionParam c sm)" unfolding A using assms(2) s(3) by (auto simp: values_ok_def)
qed

lemma counting_bump:
  assumes k: "counting cs sm" and "cs \<noteq> []" and "last cs < MAX_SUBPARAMETER_COUNT"
  shows "counting (butlast cs @ [last cs + 1]) (sm\<lparr>subParameters := subParameters sm @ [VTParameter_omitted],
    subParameterRanges := bump_last_range (subParameterRanges sm), subParameterCounter := subParameterCounter sm + 1\<rparr>)"
proof -
  obtain ds d where cs: "cs = ds @ [d]" using assms(2) by (metis append_butlast_last_id)
  have "unat (subParameterCounter sm + 1) = d + 1"
  proof -
    have "unat (subParameterCounter sm) = d" "d < 6"
      using k assms(3) by (simp_all add: counting_def cs MAX_SUBPARAMETER_COUNT_def)
    then show ?thesis by (simp add: unat_word_ariths)
  qed
  moreover have "bump_last_range (ranges_of 0 (ds @ [d])) = ranges_of 0 (ds @ [d + 1])"
    by (simp add: bump_last_range_def ranges_of_append ac_simps)
  ultimately show ?thesis using k assms(3) by (simp add: counting_def counts_ok_def cs)
qed

lemma ActionSubParam_spec:
  assumes k: "counting cs sm" and v: "values_ok sm"
    and c: "isSubParameterDelimiter c \<or> (isNumericParamValue c \<and> sub_ready cs sm)"
  obtains sm' cs' where "ActionSubParam c sm = Inr sm'" "counting cs' sm'" "sub_ready cs' sm'" "values_ok sm'"
    "state sm' = state sm"
    "oscParameter sm' = oscParameter sm" "oscString sm' = oscString sm" "engine sm' = engine sm"
proof (cases "subParameterLimitOverflowed sm")
  case True
  with k v show ?thesis by (intro that [of sm cs]) (simp_all add: ActionSubParam_def sub_ready_def)
next
  case False
  define sm1 where "sm1 = ensure_parameter sm"
  obtain cs1 where s: "counting cs1 sm1" "cs1 \<noteq> []" "values_ok sm1" "subParameters sm1 = subParameters sm"
    "cs \<noteq> [] \<Longrightarrow> cs1 = cs"
    using ensure_parameter_spec [OF k v] by (metis sm1_def)
  have e: "state sm1 = state sm" "oscParameter sm1 = oscParameter sm" "oscString sm1 = oscString sm" "engine sm1 = engine sm"
    by (simp_all add: sm1_def ensure_parameter_def push_parameter_def Let_def)
  have rs: "subParameterRanges sm1 \<noteq> []"
  proof
    assume "subParameterRanges sm1 = []"
    then have "length (ranges_of 0 cs1) = 0" using s(1) by (simp add: counting_def counts_ok_def)
    with s(2) show False by simp
  qed
  have A: "ActionSubParam c sm = (if isSubParameterDelimiter c then
         (if unat (subParameterCounter sm1) \<ge> MAX_SUBPARAMETER_COUNT then Inr (sm1\<lparr>subParameterLimitOverflowed := True\<rparr>)
          else Inr (sm1\<lparr>subParameters := subParameters sm1 @ [VTParameter_omitted],
            subParameterRanges := bump_last_range (subParameterRanges sm1), subParameterCounter := subParameterCounter sm1 + 1\<rparr>))
       else if subParameters sm1 = [] then Inl EmptyBack
       else Inr (sm1\<lparr>subParameters := butlast (subParameters sm1) @ [AccumulateTo c (value_or (last (subParameters sm1)) 0)]\<rparr>))"
    using False rs by (simp add: ActionSubParam_def sm1_def [unfolded ensure_parameter_def, symmetric] Let_def)
  show ?thesis
  proof (cases "isSubParameterDelimiter c")
    case delim: True
    show ?thesis
    proof (cases "unat (subParameterCounter sm1) \<ge> MAX_SUBPARAMETER_COUNT")
      case True
      with A delim s e show ?thesis
        by (intro that [of "sm1\<lparr>subParameterLimitOverflowed := True\<rparr>" cs1])
          (simp_all add: sub_ready_def counting_def values_ok_def)
    next
      case False
      with s(1,2) have "last cs1 < MAX_SUBPARAMETER_COUNT" by (simp add: counting_def)
      note b = counting_bump [OF s(1,2) this]
      show ?thesis
        by (rule that [OF _ b]) (use A delim False s(3) e in \<open>auto simp: sub_ready_def values_ok_def\<close>)
    qed
  next
    case digit: False
    with c False have "cs \<noteq> []" "0 < last cs" "isNumericParamValue c" by (auto simp: sub_ready_def)
    then have "subParameters sm1 \<noteq> []"
      using s(1,5) member_le_sum_list [of "last cs" cs] by (auto simp: counting_def counts_ok_def)
    then have b: "values_ok (sm1\<lparr>subParameters := butlast (subParameters sm1) @ [AccumulateTo c (value_or (last (subParameters sm1)) 0)]\<rparr>)"
      using values_ok_last [of "subParameters sm1" c] s(3) \<open>isNumericParamValue c\<close> by (simp add: values_ok_def ball_Un)
    have "counting cs1 (sm1\<lparr>subParameters := butlast (subParameters sm1) @ [AccumulateTo c (value_or (last (subParameters sm1)) 0)]\<rparr>)"
      using s(1) \<open>subParameters sm1 \<noteq> []\<close> by (simp add: counting_def counts_ok_def)
    then show ?thesis
      by (rule that [rotated, OF _ _ b])
        (use A digit \<open>subParameters sm1 \<noteq> []\<close> \<open>0 < last cs\<close> \<open>cs \<noteq> []\<close> s(5) e in \<open>simp_all add: sub_ready_def\<close>)
  qed
qed

lemma vt_inv_values: "vt_inv sm \<Longrightarrow> values_ok sm"
  by (simp add: vt_inv_def values_ok_def)

lemma vt_inv_counting: "vt_inv sm \<Longrightarrow> collects (state sm) \<Longrightarrow> \<exists>cs. counting cs sm \<and> (state sm = CsiSubParam \<longrightarrow> sub_ready cs sm)"
  by (simp add: vt_inv_def)

lemma counting_length: "counting cs sm \<Longrightarrow> length (parameters sm) \<le> MAX_PARAMETER_COUNT"
  by (simp add: counting_def counts_ok_def)

text \<open>Rebuilding the invariant after the parameters changed in a collecting state.\<close>

lemma vt_inv_collecting:
  assumes "vt_inv sm" and "values_ok sm'" and "counting cs sm'" and "state sm' = CsiSubParam \<longrightarrow> sub_ready cs sm'"
    and "collects (state sm')" and "oscParameter sm' = oscParameter sm" and "oscString sm' = oscString sm"
  shows "vt_inv sm'"
proof -
  have "state sm' \<noteq> DcsPassThrough" "state sm' \<noteq> Escape" "state sm' \<noteq> EscapeIntermediate" "state sm' \<noteq> Vt52Param"
    using assms(5) by (auto simp: collects_def)
  moreover have "\<exists>cs. counting cs sm' \<and> (state sm' = CsiSubParam \<longrightarrow> sub_ready cs sm')" using assms(3,4) by blast
  ultimately show ?thesis
    using assms(1,2,6,7) counting_length [OF assms(3)] by (simp add: vt_inv_def values_ok_def)
qed

lemma vt_inv_Enter:
  assumes i: "vt_inv sm" and "s = DcsPassThrough \<longrightarrow> dcsStringHandler sm"
    and "s = Escape \<or> s = EscapeIntermediate \<or> s = Vt52Param \<longrightarrow> parameters sm = []"
    and k: "collects s \<longrightarrow> collects (state sm) \<and> s \<noteq> CsiSubParam"
  shows "vt_inv (sm\<lparr>state := s\<rparr>)" and "vt_inv (sm\<lparr>state := s, cachedSequence := q\<rparr>)"
proof -
  have "collects s \<longrightarrow> (\<exists>cs. counting cs sm)" using vt_inv_counting [OF i] k by blast
  then show "vt_inv (sm\<lparr>state := s\<rparr>)" and "vt_inv (sm\<lparr>state := s, cachedSequence := q\<rparr>)"
    using assms by (simp_all add: vt_inv_def counting_def)
qed

lemmas Enter_defs = EnterGround_def EnterEscape_def EnterEscapeIntermediate_def EnterCsiEntry_def EnterCsiParam_def
  EnterCsiSubParam_def EnterCsiIgnore_def EnterCsiIntermediate_def EnterOscParam_def EnterOscString_def
  EnterOscTermination_def EnterSs3Entry_def EnterSs3Param_def EnterVt52Param_def EnterDcsEntry_def EnterDcsParam_def
  EnterDcsIgnore_def EnterDcsIntermediate_def EnterDcsPassThrough_def EnterSosPmApcString_def

lemma Enter_inv:
  assumes "vt_inv sm"
  shows "vt_inv (EnterGround sm)" "vt_inv (EnterEscape sm)" "vt_inv (EnterCsiEntry sm)" "vt_inv (EnterCsiIgnore sm)"
    "vt_inv (EnterOscParam sm)" "vt_inv (EnterOscString sm)" "vt_inv (EnterOscTermination sm)" "vt_inv (EnterSs3Entry sm)"
    "vt_inv (EnterDcsEntry sm)" "vt_inv (EnterDcsIgnore sm)" "vt_inv (EnterSosPmApcString sm)"
  using assms by (simp_all add: Enter_defs ActionClear_inv vt_inv_Enter collects_def)

lemma Enter_inv_collecting:
  assumes "vt_inv sm" and "collects (state sm)"
  shows "vt_inv (EnterCsiIntermediate sm)" "vt_inv (EnterDcsIntermediate sm)" "vt_inv (EnterCsiParam sm)"
  using assms by (simp_all add: Enter_defs vt_inv_Enter)

lemma Collect_inv: "vt_inv sm \<Longrightarrow> vt_inv (ActionCollect c sm)"
  by (simp add: vt_inv_def ActionCollect_def counting_def sub_ready_def)

lemma Enter_engine [simp]:
  "engine (EnterGround sm) = engine sm" "engine (EnterEscape sm) = engine sm" "engine (EnterCsiEntry sm) = engine sm"
  "engine (EnterCsiIgnore sm) = engine sm" "engine (EnterOscParam sm) = engine sm" "engine (EnterOscString sm) = engine sm"
  "engine (EnterOscTermination sm) = engine sm" "engine (EnterSs3Entry sm) = engine sm" "engine (EnterDcsEntry sm) = engine sm"
  "engine (EnterDcsIgnore sm) = engine sm" "engine (EnterSosPmApcString sm) = engine sm"
  "engine (EnterCsiIntermediate sm) = engine sm" "engine (EnterDcsIntermediate sm) = engine sm" "engine (EnterCsiParam sm) = engine sm"
  "engine (EnterEscapeIntermediate sm) = engine sm" "engine (EnterVt52Param sm) = engine sm" "engine (EnterSs3Param sm) = engine sm"
  "engine (EnterDcsParam sm) = engine sm" "engine (EnterDcsPassThrough sm) = engine sm" "engine (EnterCsiSubParam sm) = engine sm"
  "engine (ActionCollect c sm) = engine sm" "engine (ActionClear sm) = engine sm"
  by (simp_all add: Enter_defs ActionClear_def ActionCollect_def)

lemma ActionParam_same [simp]:
  "engine (ActionParam c sm) = engine sm" "state (ActionParam c sm) = state sm"
  "oscParameter (ActionParam c sm) = oscParameter sm" "oscString (ActionParam c sm) = oscString sm"
  by (simp_all add: ActionParam_def push_parameter_def Let_def)

lemma ActionParam_inv:
  assumes i: "vt_inv sm" and k: "collects (state sm)" and c: "isNumericParamValue c \<or> isParameterDelimiter c"
    and s: "s \<noteq> CsiSubParam" "collects s"
  shows "vt_inv ((ActionParam c sm)\<lparr>state := s\<rparr>)"
proof -
  obtain cs where "counting cs sm" using vt_inv_counting [OF i k] by blast
  from ActionParam_counting [OF this vt_inv_values [OF i] c]
  obtain cs' where "counting cs' (ActionParam c sm)" "values_ok (ActionParam c sm)" by blast
  then show ?thesis
    by (intro vt_inv_collecting [OF i, of _ cs']) (use s in \<open>simp_all add: counting_def values_ok_def\<close>)
qed

subsection \<open>The engine's side of the contract\<close>

text \<open>
  The parser only relies on the engine keeping a property of its own state under the calls the
  parser makes, and the parser promises that those calls are well formed (\<open>call_ok\<close>). Everything
  in this context holds for every engine and property of that kind.
\<close>

locale parser_engine =
  fixes eng :: "'e engine" and Q :: "nat \<Rightarrow> 'e \<Rightarrow> bool" and limit :: nat and E :: "vt_error set"
  assumes keeps: "Q k e \<Longrightarrow> sent c \<Longrightarrow> eng e v c = (r, xs, e') \<Longrightarrow> Q k e'"
    and callback: "Q k e \<Longrightarrow> eng e v CallCallback = (r, xs, e') \<Longrightarrow>
      (case r of Ret b \<Rightarrow> Q k e' | Exn \<Rightarrow> EngineRaised \<in> E | Inject s \<Rightarrow> Q (Suc k) e' \<and> (k < limit \<or> NestingTooDeep \<in> E))"
    and callback_done: "Q (Suc k) e \<Longrightarrow> eng e v CallCallbackDone = (r, xs, e') \<Longrightarrow> Q k e'"
    and passes: "StackOverflow \<in> E \<or> fst (eng e v (CallPassThroughString s)) \<noteq> Ret False"
    and handles: "Q k e \<Longrightarrow> eng e v (CallDcsChar ch) = (Exn, xs, e') \<Longrightarrow> EngineRaised \<in> E"
begin

definition good :: "nat \<Rightarrow> 'e sm \<Rightarrow> bool" where
  "good k sm \<longleftrightarrow> vt_inv sm \<and> Q k (engine sm)"

definition ok_result :: "nat \<Rightarrow> vt_error + 'e sm \<Rightarrow> bool" where
  "ok_result k r \<longleftrightarrow> (case r of Inl x \<Rightarrow> x \<in> E | Inr sm \<Rightarrow> good k sm)"

lemma ok_result_simps [simp]:
  "ok_result k (Inr sm) = good k sm" "ok_result k (Inl x) = (x \<in> E)"
  by (simp_all add: ok_result_def)

lemma goodI: "vt_inv sm \<Longrightarrow> Q k (engine sm) \<Longrightarrow> good k sm"
  by (simp add: good_def)

lemma goodD: "good k sm \<Longrightarrow> vt_inv sm" "good k sm \<Longrightarrow> Q k (engine sm)"
  by (simp_all add: good_def)

lemma call_engine_good:
  assumes "call_engine eng c sm = (r, sm')" and "sent c"
  shows "frame sm sm'" and "Q k (engine sm) \<Longrightarrow> Q k (engine sm')" and "good k sm \<Longrightarrow> good k sm'"
proof -
  show f: "frame sm sm'" using assms(1) by (rule call_engine_frame)
  obtain r' xs e' where e: "eng (engine sm) (view_of sm) c = (r', xs, e')" by (metis prod_cases3)
  show q: "Q k (engine sm')" if "Q k (engine sm)"
    using assms that keeps [OF that assms(2) e] by (auto simp: call_engine_def e)
  show "good k sm \<Longrightarrow> good k sm'" using vt_inv_frame [OF f] q by (simp add: good_def)
qed

lemma pass_through_good:
  "pass_through eng s sm = (r, sm') \<Longrightarrow> frame sm sm' \<and> (Q k (engine sm) \<longrightarrow> Q k (engine sm'))"
  using call_engine_good [of "CallPassThroughString _" sm r sm'] by (auto simp: pass_through_def split: option.splits)

lemma FlushToTerminal_good:
  assumes ret: "FlushToTerminal eng sm = Some p"
  shows "frame sm (snd p) \<and> (Q k (engine sm) \<longrightarrow> Q k (engine (snd p)))"
proof -
  define K where "K = (\<lambda>sm (p :: bool \<times> 'e sm). frame sm (snd p) \<and> (Q k (engine sm) \<longrightarrow> Q k (engine (snd p))))"
  have trans: "K sm (b, s) \<Longrightarrow> K s p \<Longrightarrow> K sm p" for sm b s p
    unfolding K_def using frame_trans by auto
  have pass: "pass_through eng s sm = (r, sm') \<Longrightarrow> K sm (b, sm')" for s sm r sm' b
    unfolding K_def using pass_through_good by auto
  have clear: "K sm (b, s) \<Longrightarrow> K sm (b', s\<lparr>cachedSequence := None\<rparr>)" for sm b s b'
    unfolding K_def by auto
  have swap: "K sm (b, s) \<Longrightarrow> K sm (b', s)" for sm b b' s unfolding K_def by simp
  have "eng = eng \<longrightarrow> K sm p"
  proof (rule FlushToTerminal.raw_induct [where P = "\<lambda>eng' sm p. eng' = eng \<longrightarrow> K sm p", OF _ ret])
    fix flush eng' sm p
    assume IH: "\<And>eng' sm p. flush eng' sm = Some p \<Longrightarrow> eng' = eng \<longrightarrow> K sm p"
      and eq: "Option.bind
       (if cachedSequence sm = None then Some (True, sm)
        else
          (case pass_through eng' (cachedSequence sm) sm of
             (r, sm1) \<Rightarrow>
               if r = Ret False
               then Option.bind (flush eng' sm1) (\<lambda>p. Some (False, (snd p)\<lparr>cachedSequence := None\<rparr>))
               else Some (r \<noteq> Exn, sm1\<lparr>cachedSequence := None\<rparr>)))
       (\<lambda>p. if fst p then
              (case pass_through eng' (CurrentRun (snd p)) (snd p) of
                 (r, sm2) \<Rightarrow>
                   if r = Ret False
                   then Option.bind (flush eng' sm2) (\<lambda>q. Some (False, snd q))
                   else Some (r \<noteq> Exn, sm2))
            else Some p) = Some p"
    show "eng' = eng \<longrightarrow> K sm p"
    proof
      assume e: "eng' = eng"
      have IH': "flush eng sm = Some (b, s) \<Longrightarrow> K sm (b', s)" for sm b b' s
        using IH [of eng sm "(b, s)"] swap by simp
      obtain q where q1: "(if cachedSequence sm = None then Some (True, sm)
        else
          (case pass_through eng (cachedSequence sm) sm of
             (r, sm1) \<Rightarrow>
               if r = Ret False
               then Option.bind (flush eng sm1) (\<lambda>p. Some (False, (snd p)\<lparr>cachedSequence := None\<rparr>))
               else Some (r \<noteq> Exn, sm1\<lparr>cachedSequence := None\<rparr>))) = Some q"
        and q2: "(if fst q then
              (case pass_through eng (CurrentRun (snd q)) (snd q) of
                 (r, sm2) \<Rightarrow>
                   if r = Ret False
                   then Option.bind (flush eng sm2) (\<lambda>q. Some (False, snd q))
                   else Some (r \<noteq> Exn, sm2))
            else Some q) = Some p"
        using eq unfolding e bind_eq_Some_conv by (elim exE conjE) (rule that)
      obtain b1 s1 where q: "q = (b1, s1)" by (metis surj_pair)
      note b1 = q1 [unfolded q] and r1 = q2 [unfolded q fst_conv snd_conv]
      have k1: "K sm (b1, s1)"
      proof (cases "cachedSequence sm = None")
        case True
        with b1 show ?thesis by (auto simp: K_def)
      next
        case False
        obtain r sm1 where pt: "pass_through eng (cachedSequence sm) sm = (r, sm1)" by (metis surj_pair)
        note k = pass [OF pt]
        show ?thesis
          using b1 False pt k trans [OF k] IH' clear
          by (auto simp: bind_eq_Some_conv split: if_splits)
      qed
      obtain r sm2 where pt: "pass_through eng (CurrentRun s1) s1 = (r, sm2)" by (metis surj_pair)
      note k = pass [OF pt]
      show "K sm p"
        using r1 pt k1 trans [OF k1 k] trans [OF trans [OF k1 k]] IH'
        by (auto simp: bind_eq_Some_conv split: if_splits)
    qed
  qed
  then show ?thesis by (simp add: K_def)
qed

lemma fst_call_engine: "fst (call_engine eng c sm) = fst (eng (engine sm) (view_of sm) c)"
  by (simp add: call_engine_def split: prod.splits)

lemma FlushToTerminal_returns: "StackOverflow \<in> E \<or> (\<exists>p. FlushToTerminal eng sm = Some p)"
proof (cases "StackOverflow \<in> E")
  case False
  then have P: "pass_through eng s sm = (r, sm') \<Longrightarrow> r \<noteq> Ret False" for s sm r sm'
    using passes [of "engine sm" "view_of sm" "the s"] fst_call_engine [of "CallPassThroughString (the s)" sm]
    by (cases s) (auto simp: pass_through_def)
  obtain p where p: "(if cachedSequence sm = None then Some (True, sm)
        else
          (case pass_through eng (cachedSequence sm) sm of
             (r, sm1) \<Rightarrow>
               if r = Ret False
               then Option.bind (FlushToTerminal eng sm1) (\<lambda>p. Some (False, (snd p)\<lparr>cachedSequence := None\<rparr>))
               else Some (r \<noteq> Exn, sm1\<lparr>cachedSequence := None\<rparr>))) = Some p"
  proof -
    obtain r sm1 where "pass_through eng (cachedSequence sm) sm = (r, sm1)" by (metis surj_pair)
    with P [OF this] that show ?thesis by (cases "cachedSequence sm = None") simp_all
  qed
  obtain r sm2 where r: "pass_through eng (CurrentRun (snd p)) (snd p) = (r, sm2)" by (metis surj_pair)
  show ?thesis using P [OF r] unfolding FlushToTerminal.simps [of eng sm] p by (simp add: r)
qed simp

lemma SafeExecute_good:
  assumes "sent c"
  shows "good k sm \<Longrightarrow> ok_result k (SafeExecute eng c sm)"
    and "SafeExecute eng c sm = Inr sm' \<Longrightarrow> frame sm sm'"
    and "SafeExecute eng c sm = Inr sm' \<Longrightarrow> Q k (engine sm) \<Longrightarrow> Q k (engine sm')"
    and "SafeExecute eng c sm = Inl x \<Longrightarrow> x \<in> E"
proof -
  obtain r sm1 where c: "call_engine eng c sm = (r, sm1)" by (metis surj_pair)
  note C = call_engine_good [OF c assms]
  have f: "SafeExecute eng c sm = Inr sm' \<Longrightarrow> frame sm sm'" for sm'
    using C(1) FlushToTerminal_good frame_trans [OF C(1)]
    by (auto simp: SafeExecute_def c split: if_splits option.splits)
  then show "SafeExecute eng c sm = Inr sm' \<Longrightarrow> frame sm sm'" .
  have q: "SafeExecute eng c sm = Inr sm' \<Longrightarrow> Q k (engine sm) \<Longrightarrow> Q k (engine sm')" for sm'
    using C(2) FlushToTerminal_good by (auto simp: SafeExecute_def c split: if_splits option.splits)
  then show "SafeExecute eng c sm = Inr sm' \<Longrightarrow> Q k (engine sm) \<Longrightarrow> Q k (engine sm')" .
  have l: "SafeExecute eng c sm = Inl x \<Longrightarrow> x \<in> E" for x
    using FlushToTerminal_returns [of sm1] by (auto simp: SafeExecute_def c split: if_splits option.splits)
  then show "SafeExecute eng c sm = Inl x \<Longrightarrow> x \<in> E" .
  show "ok_result k (SafeExecute eng c sm)" if "good k sm"
  proof (cases "SafeExecute eng c sm")
    case (Inl x)
    with l show ?thesis by simp
  next
    case (Inr s)
    with f q that vt_inv_frame [of sm s] show ?thesis by (simp add: good_def)
  qed
qed

end

subsection \<open>Character classes as ranges\<close>

lemmas control_defs = NUL_def BEL_def ETB_def CAN_def EM_def SUB_def ESC_def FS_def US_def SPC_def DEL_def

lemma isActionable_iff: "isActionableFromGround c \<longleftrightarrow> c \<le> 0x1F \<or> (0x7F \<le> c \<and> c \<le> 0x9F)"
  unfolding isActionableFromGround_def by (uint_arith, simp)

lemma C0_le: "isC0Code c \<Longrightarrow> c \<le> 0x1F"
  unfolding isC0Code_def control_defs by uint_arith

lemma le_C0: "c \<le> 0x1F \<Longrightarrow> isC0Code c \<or> c = CAN \<or> c = SUB \<or> c = ESC"
  unfolding isC0Code_def control_defs by uint_arith

lemma control_le [simp]: "CAN \<le> 0x1F" "SUB \<le> 0x1F" "ESC \<le> 0x1F" "ESC \<le> 0x7E"
  unfolding control_defs by simp_all

lemma printable_ground:
  assumes "\<not> isC0Code c" "\<not> isDelete c" "c \<noteq> CAN" "c \<noteq> SUB" "c \<noteq> ESC" "\<not> isC1ControlCharacter c"
  shows "printable c"
proof -
  have "\<not> c \<le> 0x1F" using le_C0 assms by blast
  moreover have "\<not> (0x7F \<le> c \<and> c \<le> 0x9F)"
    using assms(2,6) unfolding isDelete_def isC1ControlCharacter_def DEL_def by uint_arith
  ultimately show ?thesis by (simp add: printable_def isActionable_iff)
qed

lemma osc_char_ok:
  assumes "\<not> isOscInvalid c" "c \<noteq> CAN" "c \<noteq> SUB" "c \<noteq> ESC" "\<not> isC1ControlCharacter c"
  shows "osc_char c"
  using assms unfolding isOscInvalid_def osc_char_def control_defs isC1ControlCharacter_def by uint_arith

lemma handler_char: "isC0Code c \<or> isDcsPassThroughValid c \<Longrightarrow> c \<le> 0x7E"
  unfolding isC0Code_def isDcsPassThroughValid_def control_defs by uint_arith

subsection \<open>Every event keeps the contract\<close>

context parser_engine
begin

lemma andthen_ok:
  assumes "ok_result k (f sm)" and "\<And>s. f sm = Inr s \<Longrightarrow> good k s \<Longrightarrow> ok_result k (g s)"
  shows "ok_result k (andthen f g sm)"
  using assms by (cases "f sm") (simp_all add: andthen_def)

lemma thenGround_ok: "ok_result k (f sm) \<Longrightarrow> ok_result k (thenGround f sm)"
  unfolding thenGround_def by (rule andthen_ok) (simp_all add: good_def Enter_inv)

lemma Enter_good:
  assumes "good k sm"
  shows "good k (EnterGround sm)" "good k (EnterEscape sm)" "good k (EnterCsiEntry sm)" "good k (EnterCsiIgnore sm)"
    "good k (EnterOscParam sm)" "good k (EnterOscString sm)" "good k (EnterOscTermination sm)" "good k (EnterSs3Entry sm)"
    "good k (EnterDcsEntry sm)" "good k (EnterDcsIgnore sm)" "good k (EnterSosPmApcString sm)"
    "good k (ActionCollect c sm)"
  using assms by (simp_all add: good_def Enter_inv Collect_inv)

lemma Enter_good_collecting:
  assumes "good k sm" and "collects (state sm)"
  shows "good k (EnterCsiIntermediate (ActionCollect c sm))" "good k (EnterDcsIntermediate (ActionCollect c sm))"
    "good k (EnterCsiParam (ActionCollect c sm))"
  using assms Enter_inv_collecting [of "ActionCollect c sm"]
  by (simp_all add: good_def Collect_inv) (simp_all add: ActionCollect_def)

lemma ActionParam_good:
  assumes "good k sm" and "collects (state sm)" and "isNumericParamValue c \<or> isParameterDelimiter c"
  shows "good k (EnterCsiParam (ActionParam c sm))" "good k (EnterSs3Param (ActionParam c sm))" "good k (EnterDcsParam (ActionParam c sm))"
    "state sm \<noteq> CsiSubParam \<Longrightarrow> good k (ActionParam c sm)"
proof -
  note P = ActionParam_inv [OF goodD(1) [OF assms(1)] assms(2,3)]
  show "good k (EnterCsiParam (ActionParam c sm))" "good k (EnterSs3Param (ActionParam c sm))" "good k (EnterDcsParam (ActionParam c sm))"
    using P [of CsiParam] P [of Ss3Param] P [of DcsParam] goodD(2) [OF assms(1)]
    by (simp_all add: good_def Enter_defs collects_def)
  show "good k (ActionParam c sm)" if "state sm \<noteq> CsiSubParam"
    using P [OF that assms(2)] goodD(2) [OF assms(1)] by (simp add: good_def)
      (metis ActionParam_same(2) sm.surjective sm.update_convs(3))
qed

lemma Execute_ok: "good k sm \<Longrightarrow> isC0Code c \<or> isDelete c \<or> c \<le> 0x1F \<Longrightarrow> ok_result k (ActionExecute eng c sm)"
  unfolding ActionExecute_def by (rule SafeExecute_good(1)) (auto simp: isDelete_def dest: C0_le)

lemma EscDispatch_ok: "good k sm \<Longrightarrow> ok_result k (ActionEscDispatch eng c sm)"
  unfolding ActionEscDispatch_def by (rule SafeExecute_good(1)) simp_all

lemma plain_params: "good k sm \<Longrightarrow> plain_ok (params_only (parameters sm))"
  using goodD(1) by (simp add: plain_ok_def params_only_def vt_inv_def)

lemma Vt52_ok: "good k sm \<Longrightarrow> length (parameters sm) \<le> 2 \<Longrightarrow> ok_result k (ActionVt52EscDispatch eng c sm)"
  unfolding ActionVt52EscDispatch_def
  by (rule SafeExecute_good(1)) (simp_all add: plain_params, simp add: params_only_def)

lemma Ss3Dispatch_ok: "good k sm \<Longrightarrow> ok_result k (ActionSs3Dispatch eng c sm)"
  unfolding ActionSs3Dispatch_def by (rule SafeExecute_good(1)) (simp_all add: plain_params)

lemma OscDispatch_ok: "good k sm \<Longrightarrow> ok_result k (ActionOscDispatch eng sm)"
  unfolding ActionOscDispatch_def by (rule SafeExecute_good(1)) (simp_all add: good_def vt_inv_def)

lemma CsiDispatch_ok:
  assumes "good k sm" and "collects (state sm)"
  shows "ok_result k (ActionCsiDispatch eng c sm)"
proof -
  obtain cs where "counting cs sm" using vt_inv_counting [OF goodD(1)] assms by blast
  then have "params_ok \<lparr>vp_params = parameters sm, vp_subParams = subParameters sm, vp_subParamRanges = subParameterRanges sm\<rparr>"
    using goodD(1) [OF assms(1)] by (auto simp: params_ok_def counting_def vt_inv_def)
  with assms(1) show ?thesis unfolding ActionCsiDispatch_def by (intro SafeExecute_good(1)) simp_all
qed

lemma DcsDispatch_good:
  assumes "good k sm"
  shows "good k (ActionDcsDispatch eng c sm)"
proof -
  define call where "call = CallDcsDispatch (Finalize c (idBuilder sm)) (params_only (parameters sm))"
  obtain r sm1 where c: "call_engine eng call sm = (r, sm1)" by (metis surj_pair)
  have "good k sm1" using call_engine_good(3) [OF c] assms by (simp add: call_def plain_params)
  then have g: "vt_inv sm1" "Q k (engine sm1)" by (simp_all add: good_def)
  define sm2 where "sm2 = (if r = Exn then sm1 else sm1\<lparr>dcsStringHandler := (r = Ret True)\<rparr>)"
  have A: "ActionDcsDispatch eng c sm = (if dcsStringHandler sm2 then EnterDcsPassThrough sm2 else EnterDcsIgnore sm2)"
    by (simp add: ActionDcsDispatch_def call_def [symmetric] c sm2_def Let_def)
  have e: "engine sm2 = engine sm1" by (simp add: sm2_def)
  have "vt_inv (sm1\<lparr>dcsStringHandler := h, state := DcsIgnore, cachedSequence := None\<rparr>)"
    "vt_inv (sm1\<lparr>dcsStringHandler := True, state := DcsPassThrough, cachedSequence := None\<rparr>)" for h
    using g(1) by (auto simp: vt_inv_def collects_def)
  then show ?thesis
    unfolding A good_def using g e vt_inv_Enter(2) [OF g(1), of DcsIgnore] vt_inv_Enter(2) [OF g(1), of DcsPassThrough]
    by (auto simp: sm2_def Enter_defs collects_def split: if_splits)
qed

lemma handler_ok:
  assumes "good k sm" and "c \<le> 0x7E" and "dcsStringHandler sm"
  shows "case call_handler eng c sm of Inl x \<Rightarrow> x \<in> E | Inr p \<Rightarrow> good k (snd p) \<and> frame sm (snd p)"
proof -
  obtain r sm1 where c: "call_engine eng (CallDcsChar c) sm = (r, sm1)" by (metis surj_pair)
  note C = call_engine_good [OF c]
  have "EngineRaised \<in> E" if "r = Exn"
    using c that handles [of k "engine sm" "view_of sm"] goodD(2) [OF assms(1)] by (auto simp: call_engine_def split: prod.splits)
  with C assms show ?thesis by (simp add: call_handler_def c)
qed

lemma good_Ground: "good k sm \<Longrightarrow> good k (sm\<lparr>dcsStringHandler := h, state := Ground\<rparr>)"
  by (simp add: good_def vt_inv_def collects_def)

lemma Interrupt_ok:
  assumes "good k sm"
  shows "case ActionInterrupt eng sm of Inl x \<Rightarrow> x \<in> E | Inr sm' \<Rightarrow> Q k (engine sm') \<and> good k (sm'\<lparr>state := Ground\<rparr>) \<and>
    (state sm \<noteq> DcsPassThrough \<longrightarrow> sm' = sm) \<and> state sm' = state sm \<and> isEngineForInput sm' = isEngineForInput sm"
proof (cases "state sm = DcsPassThrough")
  case True
  then have h: "dcsStringHandler sm" using goodD(1) [OF assms] by (simp add: vt_inv_def)
  note H = handler_ok [OF assms _ h, of ESC]
  show ?thesis
  proof (cases "call_handler eng ESC sm")
    case (Inl x)
    with H True show ?thesis by (simp add: ActionInterrupt_def)
  next
    case (Inr p)
    with H have p: "good k (snd p)" "frame sm (snd p)" by simp_all
    have "ActionInterrupt eng sm = Inr ((snd p)\<lparr>dcsStringHandler := False\<rparr>)"
      using True Inr by (cases p) (simp add: ActionInterrupt_def)
    with p True good_Ground [OF p(1), of False] show ?thesis by (simp add: frame_def good_def)
  qed
next
  case False
  with assms good_Ground [OF assms, of "dcsStringHandler sm"] show ?thesis by (simp add: ActionInterrupt_def good_def)
qed

end

context parser_engine
begin

lemmas event_rules = Execute_ok EscDispatch_ok Ss3Dispatch_ok OscDispatch_ok Enter_good Enter_good_collecting ActionParam_good thenGround_ok DcsDispatch_good

lemma EventGround_ok:
  assumes "good k sm" "c \<noteq> CAN" "c \<noteq> SUB" "c \<noteq> ESC" "\<not> isC1ControlCharacter c"
  shows "ok_result k (EventGround eng c sm)"
proof (cases "isC0Code c \<or> isDelete c")
  case True
  then show ?thesis using Execute_ok [OF assms(1), of c] by (auto simp: EventGround_def)
next
  case False
  with assms printable_ground have "sent (CallPrint c)" by auto
  from SafeExecute_good(1) [OF this assms(1)] False show ?thesis by (simp add: EventGround_def ActionPrint_def)
qed

lemma EventEscape_ok:
  assumes g: "good k sm" and s: "state sm = Escape"
  shows "ok_result k (EventEscape eng c sm)"
proof -
  have p: "parameters sm = []" using goodD(1) [OF g] s by (simp add: vt_inv_def)
  have "ok_result k (thenGround (ActionExecuteFromEscape eng c) sm)"
    unfolding ActionExecuteFromEscape_def by (rule thenGround_ok, rule SafeExecute_good(1)) (use g in simp_all)
  moreover have "good k (EnterEscapeIntermediate (ActionCollect c sm))" "good k (EnterVt52Param sm)"
    using g p vt_inv_Enter(1) [of "ActionCollect c sm" EscapeIntermediate] vt_inv_Enter(1) [of sm Vt52Param]
    by (simp_all add: good_def Enter_defs Collect_inv collects_def) (simp add: ActionCollect_def)
  moreover have "ok_result k (ActionVt52EscDispatch eng c sm)" by (rule Vt52_ok) (use g p in simp_all)
  ultimately show ?thesis unfolding EventEscape_def using g by (simp add: event_rules)
qed

lemma EventEscapeIntermediate_ok:
  assumes g: "good k sm" and s: "state sm = EscapeIntermediate"
  shows "ok_result k (EventEscapeIntermediate eng c sm)"
proof -
  have p: "parameters sm = []" using goodD(1) [OF g] s by (simp add: vt_inv_def)
  have "good k (EnterVt52Param sm)"
    using g p vt_inv_Enter(1) [of sm Vt52Param] by (simp add: good_def Enter_defs collects_def)
  moreover have "ok_result k (ActionVt52EscDispatch eng c sm)" by (rule Vt52_ok) (use g p in simp_all)
  ultimately show ?thesis unfolding EventEscapeIntermediate_def using g by (simp add: event_rules)
qed

lemma EventVt52Param_ok:
  assumes g: "good k sm" and s: "state sm = Vt52Param"
  shows "ok_result k (EventVt52Param eng c sm)"
proof -
  define sm1 where "sm1 = sm\<lparr>parameters := parameters sm @ [uint c]\<rparr>"
  have "uint c < 65536" using uint_lt2p [of c] by simp
  then have c: "param_ok (uint c)" by (simp add: param_ok_def MAX_PARAMETER_VALUE_def) (smt (verit) uint_ge_0)
  have l: "length (parameters sm) < 2" using goodD(1) [OF g] s by (simp add: vt_inv_def)
  have l0: "length (parameters sm) \<noteq> Suc 0 \<Longrightarrow> parameters sm = []" using l by (cases "parameters sm") auto
  have gd: "good k (sm1\<lparr>state := Ground\<rparr>)" and "length (parameters sm1) \<noteq> 2 \<Longrightarrow> good k sm1"
    using g l l0 c s by (auto simp: good_def vt_inv_def sm1_def collects_def MAX_PARAMETER_COUNT_def)
  moreover have "ok_result k (thenGround (ActionVt52EscDispatch eng 0x59) sm1)" if l2: "length (parameters sm1) = 2"
  proof -
    have pl: "sent (CallVt52EscDispatch (Finalize 0x59 (idBuilder sm1)) (params_only (parameters sm1)))"
      using gd l2 plain_params [OF gd] by (simp add: params_only_def)
    note S = SafeExecute_good [OF pl]
    show ?thesis
    proof (cases "ActionVt52EscDispatch eng 0x59 sm1")
      case (Inl x)
      with S(4) [of sm1 x] show ?thesis by (simp add: thenGround_def andthen_def ActionVt52EscDispatch_def)
    next
      case (Inr s')
      then have "SafeExecute eng (CallVt52EscDispatch (Finalize 0x59 (idBuilder sm1)) (params_only (parameters sm1))) sm1 = Inr s'"
        by (simp add: ActionVt52EscDispatch_def)
      from S(2) [OF this] S(3) [OF this] gd have f: "frame sm1 s'" and q: "Q k (engine s')" by (simp_all add: good_def)
      have "vt_inv (EnterGround s') = vt_inv (EnterGround sm1)" using f by (simp add: vt_inv_def frame_def Enter_defs collects_def)
      moreover have "vt_inv (EnterGround sm1)" using gd by (simp add: good_def vt_inv_def Enter_defs collects_def)
      ultimately show ?thesis using Inr q by (simp add: thenGround_def andthen_def good_def)
    qed
  qed
  ultimately show ?thesis using g Execute_ok [OF g, of c] by (simp add: EventVt52Param_def sm1_def [symmetric] Let_def)
qed

lemma ActionSubParam_ok:
  assumes g: "good k sm" and k: "collects (state sm)"
    and c: "isSubParameterDelimiter c \<or> (isNumericParamValue c \<and> state sm = CsiSubParam)"
  shows "\<exists>sm'. ActionSubParam c sm = Inr sm' \<and> good k (sm'\<lparr>state := CsiSubParam\<rparr>) \<and> (state sm = CsiSubParam \<longrightarrow> good k sm')"
proof -
  obtain cs where cs: "counting cs sm" "state sm = CsiSubParam \<longrightarrow> sub_ready cs sm"
    using vt_inv_counting [OF goodD(1) [OF g] k] by blast
  have c': "isSubParameterDelimiter c \<or> (isNumericParamValue c \<and> sub_ready cs sm)" using c cs(2) by blast
  obtain sm' cs' where S: "ActionSubParam c sm = Inr sm'" "counting cs' sm'" "sub_ready cs' sm'" "values_ok sm'"
    "state sm' = state sm" "oscParameter sm' = oscParameter sm" "oscString sm' = oscString sm" "engine sm' = engine sm"
    by (rule ActionSubParam_spec [OF cs(1) vt_inv_values [OF goodD(1) [OF g]] c'])
  have "vt_inv (sm'\<lparr>state := CsiSubParam\<rparr>)"
    by (rule vt_inv_collecting [OF goodD(1) [OF g], of _ cs'])
      (use S in \<open>simp_all add: collects_def values_ok_def counting_def sub_ready_def\<close>)
  moreover have "vt_inv sm'" if "state sm = CsiSubParam"
    by (rule vt_inv_collecting [OF goodD(1) [OF g], of _ cs']) (use S that in \<open>simp_all add: collects_def\<close>)
  ultimately show ?thesis using S(1,8) goodD(2) [OF g] by (simp add: good_def)
qed

lemma EnterSub_ok:
  assumes "good k sm" and "collects (state sm)" and "isSubParameterDelimiter c"
  shows "ok_result k (andthen (ActionSubParam c) (\<lambda>s. Inr (EnterCsiSubParam s)) sm)"
  using ActionSubParam_ok [OF assms(1,2), of c] assms(3) by (auto simp: andthen_def Enter_defs)

text \<open>The callback; \<open>nested\<close> processes a string it injects.\<close>

lemma callback_call:
  assumes c: "call_engine eng CallCallback sm = (r, sm')" and q: "Q k (engine sm)"
  shows "case r of Ret b \<Rightarrow> Q k (engine sm') | Exn \<Rightarrow> EngineRaised \<in> E
    | Inject s \<Rightarrow> Q (Suc k) (engine sm') \<and> (k < limit \<or> NestingTooDeep \<in> E)"
proof -
  obtain r' xs e' where e: "eng (engine sm) (view_of sm) CallCallback = (r', xs, e')" by (metis prod_cases3)
  then have eq: "r' = r" "e' = engine sm'" using c by (auto simp: call_engine_def)
  show ?thesis using callback [OF q e] unfolding eq .
qed

lemma callback_done_call: "Q (Suc k) (engine sm) \<Longrightarrow> Q k (engine (snd (call_engine eng CallCallbackDone sm)))"
  using callback_done [of k "engine sm" "view_of sm"] by (simp add: call_engine_def split: prod.splits)

lemma Callback_ok:
  assumes g: "good k sm" and st: "state sm = Ground"
    and n: "\<And>s sm. k < limit \<or> NestingTooDeep \<in> E \<Longrightarrow> good (Suc k) sm \<Longrightarrow> state sm = Ground \<Longrightarrow> ok_result (Suc k) (nested s sm)"
  shows "ok_result k (ExecuteCsiCompleteCallback eng nested sm)"
proof (cases "onCsiCompleteCallback sm")
  case True
  obtain r sm1 where c: "call_engine eng CallCallback (sm\<lparr>onCsiCompleteCallback := False\<rparr>) = (r, sm1)" by (metis surj_pair)
  have i: "vt_inv (sm\<lparr>onCsiCompleteCallback := False\<rparr>)" "Q k (engine (sm\<lparr>onCsiCompleteCallback := False\<rparr>))"
    using g by (simp_all add: good_def vt_inv_def counting_def sub_ready_def)
  have i1: "vt_inv sm1" "state sm1 = Ground"
    using vt_inv_frame [OF call_engine_frame [OF c]] call_engine_frame [OF c] i(1) st by (simp_all add: frame_def)
  note C = callback_call [OF c i(2)]
  have restore: "good k (s\<lparr>currentString := a, runOffset := b, runSize := d\<rparr>)" if "good k s" for s a b d
    using that by (simp add: good_def vt_inv_def counting_def sub_ready_def)
  show ?thesis
  proof (cases r)
    case (Inject s)
    with C i1 have "ok_result (Suc k) (nested s sm1)" by (intro n) (simp_all add: good_def)
    show ?thesis
    proof (cases "nested s sm1")
      case (Inl x)
      with \<open>ok_result (Suc k) (nested s sm1)\<close> show ?thesis by (simp add: ExecuteCsiCompleteCallback_def True c Inject Let_def)
    next
      case (Inr sm2)
      with \<open>ok_result (Suc k) (nested s sm1)\<close> have "good (Suc k) sm2" by simp
      moreover have "frame sm2 (snd (call_engine eng CallCallbackDone sm2))" by (metis call_engine_frame prod.collapse)
      ultimately have "good k (snd (call_engine eng CallCallbackDone sm2))"
        using callback_done_call vt_inv_frame [of sm2 "snd (call_engine eng CallCallbackDone sm2)"] by (simp add: good_def)
      from restore [OF this] show ?thesis
        by (simp add: ExecuteCsiCompleteCallback_def True c Inject Inr Let_def)
    qed
  next
    case (Ret b)
    with C i1 have "good k sm1" by (simp add: good_def)
    from restore [OF this] Ret show ?thesis by (simp add: ExecuteCsiCompleteCallback_def True c Let_def)
  qed (use C in \<open>simp add: ExecuteCsiCompleteCallback_def True c Let_def\<close>)
qed (use g in \<open>simp add: ExecuteCsiCompleteCallback_def\<close>)

lemma csi_final_ok:
  assumes g: "good k sm" and k: "collects (state sm)" and n: "\<And>s sm. k < limit \<or> NestingTooDeep \<in> E \<Longrightarrow> good (Suc k) sm \<Longrightarrow> state sm = Ground \<Longrightarrow> ok_result (Suc k) (nested s sm)"
  shows "ok_result k (csi_final eng nested c sm)"
  unfolding csi_final_def
proof (rule andthen_ok)
  show "ok_result k (thenGround (ActionCsiDispatch eng c) sm)" by (rule thenGround_ok, rule CsiDispatch_ok [OF g k])
next
  fix s assume "thenGround (ActionCsiDispatch eng c) sm = Inr s" "good k s"
  moreover from this have "state s = Ground"
    by (auto simp: thenGround_def andthen_def Enter_defs split: sum.splits)
  ultimately show "ok_result k (ExecuteCsiCompleteCallback eng nested s)" using Callback_ok n by blast
qed

lemma Csi_events_ok:
  assumes g: "good k sm" and n: "\<And>s sm. k < limit \<or> NestingTooDeep \<in> E \<Longrightarrow> good (Suc k) sm \<Longrightarrow> state sm = Ground \<Longrightarrow> ok_result (Suc k) (nested s sm)"
  shows "state sm = CsiEntry \<Longrightarrow> ok_result k (EventCsiEntry eng nested c sm)"
    and "state sm = CsiIntermediate \<Longrightarrow> ok_result k (EventCsiIntermediate eng nested c sm)"
    and "state sm = CsiParam \<Longrightarrow> ok_result k (EventCsiParam eng nested c sm)"
    and "state sm = CsiSubParam \<Longrightarrow> ok_result k (EventCsiSubParam eng nested c sm)"
    and "ok_result k (EventCsiIgnore eng c sm)"
proof -
  note [simp] = csi_final_ok [OF g _ n] EnterSub_ok [OF g] event_rules
  have k: "collects CsiEntry" "collects CsiIntermediate" "collects CsiParam" "collects CsiSubParam" by (simp_all add: collects_def)
  show "state sm = CsiEntry \<Longrightarrow> ok_result k (EventCsiEntry eng nested c sm)"
    and "state sm = CsiIntermediate \<Longrightarrow> ok_result k (EventCsiIntermediate eng nested c sm)"
    and "state sm = CsiParam \<Longrightarrow> ok_result k (EventCsiParam eng nested c sm)"
    and "ok_result k (EventCsiIgnore eng c sm)"
    using g k by (simp_all add: EventCsiEntry_def EventCsiIntermediate_def EventCsiParam_def EventCsiIgnore_def)
  show "ok_result k (EventCsiSubParam eng nested c sm)" if s: "state sm = CsiSubParam"
    using g k s ActionSubParam_ok [OF g, of c] by (auto simp: EventCsiSubParam_def)
qed

lemma Osc_events_ok:
  assumes g: "good k sm"
  shows "ok_result k (EventOscParam eng c sm)" and "ok_result k (EventOscTermination eng c sm)"
    and "c \<noteq> CAN \<Longrightarrow> c \<noteq> SUB \<Longrightarrow> \<not> isC1ControlCharacter c \<Longrightarrow> ok_result k (EventOscString eng c sm)"
proof -
  note [simp] = event_rules
  have a: "good k (ActionOscParam c sm)" if "isNumericParamValue c"
    using g AccumulateTo_bounds [OF that, of "oscParameter sm"]
    by (simp add: good_def vt_inv_def ActionOscParam_def counting_def sub_ready_def param_ok_def value_or_def MAX_PARAMETER_VALUE_def)
  then show "ok_result k (EventOscParam eng c sm)" using g by (simp add: EventOscParam_def)
  have "state (EnterEscape sm) = Escape" by (simp add: Enter_defs ActionClear_def)
  then have "ok_result k (EventEscape eng c (EnterEscape sm))" using g by (intro EventEscape_ok) simp_all
  then show "ok_result k (EventOscTermination eng c sm)" using g by (simp add: EventOscTermination_def)
  show "ok_result k (EventOscString eng c sm)" if "c \<noteq> CAN" "c \<noteq> SUB" "\<not> isC1ControlCharacter c"
  proof -
    have "good k (ActionOscPut c sm)" if "\<not> isOscInvalid c" "\<not> isEscape c"
      using g osc_char_ok [of c] that \<open>c \<noteq> CAN\<close> \<open>c \<noteq> SUB\<close> \<open>\<not> isC1ControlCharacter c\<close>
      by (simp add: good_def vt_inv_def ActionOscPut_def counting_def sub_ready_def isEscape_def)
    then show ?thesis using g by (simp add: EventOscString_def)
  qed
qed

lemma Ss3_Dcs_events_ok:
  assumes g: "good k sm"
  shows "state sm = Ss3Entry \<Longrightarrow> ok_result k (EventSs3Entry eng c sm)"
    and "state sm = Ss3Param \<Longrightarrow> ok_result k (EventSs3Param eng c sm)"
    and "state sm = DcsEntry \<Longrightarrow> ok_result k (EventDcsEntry eng c sm)"
    and "state sm = DcsIntermediate \<Longrightarrow> ok_result k (EventDcsIntermediate eng c sm)"
    and "state sm = DcsParam \<Longrightarrow> ok_result k (EventDcsParam eng c sm)"
    and "state sm = DcsPassThrough \<Longrightarrow> ok_result k (EventDcsPassThrough eng c sm)"
proof -
  note [simp] = event_rules
  have k: "collects Ss3Entry" "collects Ss3Param" "collects DcsEntry" "collects DcsIntermediate" "collects DcsParam"
    by (simp_all add: collects_def)
  show "state sm = Ss3Entry \<Longrightarrow> ok_result k (EventSs3Entry eng c sm)"
    and "state sm = Ss3Param \<Longrightarrow> ok_result k (EventSs3Param eng c sm)"
    and "state sm = DcsEntry \<Longrightarrow> ok_result k (EventDcsEntry eng c sm)"
    and "state sm = DcsIntermediate \<Longrightarrow> ok_result k (EventDcsIntermediate eng c sm)"
    and "state sm = DcsParam \<Longrightarrow> ok_result k (EventDcsParam eng c sm)"
    using g k by (simp_all add: EventSs3Entry_def EventSs3Param_def EventDcsEntry_def EventDcsIntermediate_def EventDcsParam_def)
  show "ok_result k (EventDcsPassThrough eng c sm)" if "state sm = DcsPassThrough"
  proof -
    have "dcsStringHandler sm" using goodD(1) [OF g] that by (simp add: vt_inv_def)
    then have "case call_handler eng c sm of Inl x \<Rightarrow> x \<in> E | Inr p \<Rightarrow> good k (snd p) \<and> frame sm (snd p)"
      if "isC0Code c \<or> isDcsPassThroughValid c" using handler_ok [OF g handler_char [OF that]] by blast
    then show ?thesis using g by (auto simp: EventDcsPassThrough_def split: sum.splits)
  qed
qed

lemma dispatch_event_ok:
  assumes g: "good k sm" and n: "\<And>s sm. k < limit \<or> NestingTooDeep \<in> E \<Longrightarrow> good (Suc k) sm \<Longrightarrow> state sm = Ground \<Longrightarrow> ok_result (Suc k) (nested s sm)"
    and c: "(c \<noteq> CAN \<and> c \<noteq> SUB) \<or> state sm = Escape" "\<not> isC1ControlCharacter c"
      "c \<noteq> ESC \<or> state sm = OscString \<or> state sm = OscParam"
  shows "ok_result k (dispatch_event eng nested c sm)"
  using EventGround_ok [OF g] EventEscape_ok [OF g] EventEscapeIntermediate_ok [OF g] Csi_events_ok [OF g n] Osc_events_ok [OF g]
    EventVt52Param_ok [OF g] Ss3_Dcs_events_ok [OF g] c g
  by (cases "state sm") (auto simp: dispatch_event_def EventDcsIgnore_def EventSosPmApcString_def)

end

subsection \<open>Characters and strings\<close>

context parser_engine
begin

lemma ProcessCharacter_plain_ok:
  assumes n: "\<And>s sm. k < limit \<or> NestingTooDeep \<in> E \<Longrightarrow> good (Suc k) sm \<Longrightarrow> state sm = Ground \<Longrightarrow> ok_result (Suc k) (nested s sm)" and g: "good k sm" and c: "\<not> isC1ControlCharacter c"
  shows "ok_result k (ProcessCharacter eng nested c sm)"
proof -
  note I = Interrupt_ok [OF g]
  consider (anywhere) "(c = CAN \<or> c = SUB) \<and> \<not> (state sm = Escape \<and> isEngineForInput sm)"
    | (esc) "\<not> ((c = CAN \<or> c = SUB) \<and> \<not> (state sm = Escape \<and> isEngineForInput sm))"
        "isEscape c \<and> state sm \<noteq> OscString \<and> state sm \<noteq> OscParam"
    | (event) "\<not> ((c = CAN \<or> c = SUB) \<and> \<not> (state sm = Escape \<and> isEngineForInput sm))"
        "\<not> (isEscape c \<and> state sm \<noteq> OscString \<and> state sm \<noteq> OscParam)"
    by blast
  then show ?thesis
  proof cases
    case anywhere
    have "sent (CallExecute c)" using anywhere by auto
    note S = SafeExecute_good [OF this]
    have "ok_result k (thenGround (ActionExecute eng c) s)" if "ActionInterrupt eng sm = Inr s" for s
    proof (cases "ActionExecute eng c s")
      case (Inl x)
      with S(4) [of s x] show ?thesis by (simp add: thenGround_def andthen_def ActionExecute_def)
    next
      case (Inr s')
      then have "frame s s'" "Q k (engine s')" using S(2,3) [of s s'] I that by (simp_all add: ActionExecute_def)
      moreover have "good k (s\<lparr>state := Ground\<rparr>)" using I that by simp
      ultimately have "good k (EnterGround s')" by (simp add: good_def vt_inv_def frame_def Enter_defs collects_def)
      with Inr show ?thesis by (simp add: thenGround_def andthen_def)
    qed
    then have "ok_result k (andthen (ActionInterrupt eng) (thenGround (ActionExecute eng c)) sm)"
      using I by (cases "ActionInterrupt eng sm") (simp_all add: andthen_def)
    with anywhere show ?thesis by (subst ProcessCharacter.simps) simp
  next
    case esc
    have "good k (EnterEscape s)" if "ActionInterrupt eng sm = Inr s" for s
      using I that by (simp add: good_def Enter_defs ActionClear_inv)
    then have "ok_result k (andthen (ActionInterrupt eng) (\<lambda>s. Inr (EnterEscape s)) sm)"
      using I by (cases "ActionInterrupt eng sm") (simp_all add: andthen_def)
    with esc c show ?thesis by (subst ProcessCharacter.simps) auto
  next
    case event
    have "ok_result k (dispatch_event eng nested c sm)"
      by (rule dispatch_event_ok [OF g n]) (use event c in \<open>auto simp: isEscape_def\<close>)
    with event c show ?thesis by (subst ProcessCharacter.simps) auto
  qed
qed

lemma ProcessCharacter_ok:
  assumes n: "\<And>s sm. k < limit \<or> NestingTooDeep \<in> E \<Longrightarrow> good (Suc k) sm \<Longrightarrow> state sm = Ground \<Longrightarrow> ok_result (Suc k) (nested s sm)" and g: "good k sm"
  shows "ok_result k (ProcessCharacter eng nested c sm)"
proof (cases "isC1ControlCharacter c")
  case False
  show ?thesis by (rule ProcessCharacter_plain_ok) (use n g False in auto)
next
  case True
  have "c \<noteq> CAN" "c \<noteq> SUB" using True by (auto simp: isC1ControlCharacter_def control_defs)
  then have P: "ProcessCharacter eng nested c sm = (if acceptC1 sm then
      (case ProcessCharacter eng nested ESC sm of Inl x \<Rightarrow> Inl x | Inr s \<Rightarrow> ProcessCharacter eng nested (c1To7Bit c) s) else Inr sm)"
    using True by (subst ProcessCharacter.simps) simp
  have E: "ok_result k (ProcessCharacter eng nested ESC sm)"
    by (rule ProcessCharacter_plain_ok) (use n g ESC_not_C1 in auto)
  have "ok_result k (ProcessCharacter eng nested (c1To7Bit c) s)" if "good k s" for s
    by (rule ProcessCharacter_plain_ok) (use n that c1To7Bit_not_C1 [OF True] in auto)
  with E g show ?thesis unfolding P by (cases "ProcessCharacter eng nested ESC sm") simp_all
qed

end

text \<open>The run bookkeeping and the engine kind survive a character.\<close>

definition kept :: "'e sm \<Rightarrow> 'e sm \<Rightarrow> bool" where
  "kept a b \<longleftrightarrow> currentString b = currentString a \<and> runOffset b = runOffset a \<and> runSize b = runSize a \<and>
     isEngineForInput b = isEngineForInput a"

definition kept_res :: "'e sm \<Rightarrow> vt_error + 'e sm \<Rightarrow> bool" where
  "kept_res a r \<longleftrightarrow> (case r of Inl x \<Rightarrow> True | Inr b \<Rightarrow> kept a b)"

lemma kept_res_simps [simp]: "kept_res a (Inr b) = kept a b" "kept_res a (Inl x)"
  by (simp_all add: kept_res_def)

lemma kept_refl [simp]: "kept a a"
  by (simp add: kept_def)

lemma kept_Enter [simp]:
  "kept a (EnterGround s) = kept a s" "kept a (EnterEscape s) = kept a s" "kept a (EnterCsiEntry s) = kept a s"
  "kept a (EnterCsiIgnore s) = kept a s" "kept a (EnterOscParam s) = kept a s" "kept a (EnterOscString s) = kept a s"
  "kept a (EnterOscTermination s) = kept a s" "kept a (EnterSs3Entry s) = kept a s" "kept a (EnterDcsEntry s) = kept a s"
  "kept a (EnterDcsIgnore s) = kept a s" "kept a (EnterSosPmApcString s) = kept a s" "kept a (EnterCsiIntermediate s) = kept a s"
  "kept a (EnterDcsIntermediate s) = kept a s" "kept a (EnterCsiParam s) = kept a s" "kept a (EnterEscapeIntermediate s) = kept a s"
  "kept a (EnterVt52Param s) = kept a s" "kept a (EnterSs3Param s) = kept a s" "kept a (EnterDcsParam s) = kept a s"
  "kept a (EnterDcsPassThrough s) = kept a s" "kept a (EnterCsiSubParam s) = kept a s" "kept a (ActionCollect c s) = kept a s"
  "kept a (ActionParam c s) = kept a s" "kept a (ActionOscParam c s) = kept a s" "kept a (ActionOscPut c s) = kept a s"
  "kept a (s\<lparr>parameters := ps\<rparr>) = kept a s" "kept a (s\<lparr>dcsStringHandler := h\<rparr>) = kept a s"
  by (simp_all add: kept_def Enter_defs ActionClear_def ActionCollect_def ActionParam_def ActionOscParam_def ActionOscPut_def
      push_parameter_def Let_def)

interpretation any_engine: parser_engine eng "\<lambda>k e. True" 0 UNIV for eng :: "'e engine"
  by unfold_locales (auto split: vt_reply.splits)

lemma frame_kept: "frame s s' \<Longrightarrow> kept a s \<Longrightarrow> kept a s'"
  by (simp add: frame_def kept_def)

lemma kept_SafeExecute [simp]: "kept a s \<Longrightarrow> kept_res a (SafeExecute eng c s)"
proof -
  assume k: "kept a s"
  obtain r s1 where c: "call_engine eng c s = (r, s1)" by (metis surj_pair)
  have f: "frame s s1" using c by (rule call_engine_frame)
  have "frame s1 (snd p)" if "FlushToTerminal eng s1 = Some p" for p using any_engine.FlushToTerminal_good [OF that] by simp
  with f k show ?thesis by (auto simp: SafeExecute_def c intro: frame_kept split: option.splits)
qed

lemma kept_andthen:
  "kept_res a (f s) \<Longrightarrow> (\<And>s'. kept a s' \<Longrightarrow> kept_res a (g s')) \<Longrightarrow> kept_res a (andthen f g s)"
  by (cases "f s") (simp_all add: andthen_def)

lemma kept_thenGround [simp]: "kept_res a (f s) \<Longrightarrow> kept_res a (thenGround f s)"
  unfolding thenGround_def by (rule kept_andthen) simp_all

lemmas SafeExecute_actions = ActionExecute_def ActionExecuteFromEscape_def ActionPrint_def ActionPrintString_def
  ActionEscDispatch_def ActionVt52EscDispatch_def ActionCsiDispatch_def ActionOscDispatch_def ActionSs3Dispatch_def

lemma kept_actions [simp]:
  assumes "kept a s"
  shows "kept_res a (ActionExecute eng c s)" "kept_res a (ActionExecuteFromEscape eng c s)" "kept_res a (ActionPrint eng c s)"
    "kept_res a (ActionEscDispatch eng c s)" "kept_res a (ActionVt52EscDispatch eng c s)" "kept_res a (ActionCsiDispatch eng c s)"
    "kept_res a (ActionOscDispatch eng s)" "kept_res a (ActionSs3Dispatch eng c s)" "kept_res a (ActionPrintString eng str s)"
  using assms by (simp_all add: SafeExecute_actions)

lemma kept_call: "kept a s \<Longrightarrow> kept a (snd (call_engine eng c s))"
  using frame_kept [OF call_engine_frame [of eng c s]] by (metis prod.collapse)

lemma kept_DcsDispatch [simp]: "kept a s \<Longrightarrow> kept a (ActionDcsDispatch eng c s)"
  using kept_call [of a s eng "CallDcsDispatch (Finalize c (idBuilder s)) (params_only (parameters s))"]
  by (auto simp: ActionDcsDispatch_def Let_def split: prod.splits)

lemma kept_handler: "kept a s \<Longrightarrow> call_handler eng c s = Inr (b, s') \<Longrightarrow> kept a s'"
  using kept_call [of a s eng "CallDcsChar c"] by (auto simp: call_handler_def split: prod.splits if_splits)

lemma kept_Interrupt [simp]: "kept a s \<Longrightarrow> kept_res a (ActionInterrupt eng s)"
  using kept_handler [of a s eng ESC] by (auto simp: ActionInterrupt_def split: sum.splits)

lemma kept_SubParam [simp]: "kept a s \<Longrightarrow> kept_res a (ActionSubParam c s)"
  by (simp add: ActionSubParam_def push_parameter_def Let_def kept_def)

lemma kept_Callback:
  assumes "kept a s" and "\<And>str s s'. nested str s = Inr s' \<Longrightarrow> isEngineForInput s' = isEngineForInput s"
  shows "kept_res a (ExecuteCsiCompleteCallback eng nested s)"
proof -
  obtain r s1 where c: "call_engine eng CallCallback (s\<lparr>onCsiCompleteCallback := False\<rparr>) = (r, s1)" by (metis surj_pair)
  have "isEngineForInput s1 = isEngineForInput a" using call_engine_frame [OF c] assms(1) by (simp add: frame_def kept_def)
  moreover have "isEngineForInput (snd (call_engine eng CallCallbackDone s2)) = isEngineForInput s2" for s2
    using call_engine_frame [of eng CallCallbackDone s2] by (metis frame_def prod.collapse)
  ultimately show ?thesis
    using assms c by (auto simp: ExecuteCsiCompleteCallback_def kept_def Let_def split: vt_reply.splits sum.splits)
qed

lemma kept_csi_final:
  assumes "kept a s" and "\<And>str s s'. nested str s = Inr s' \<Longrightarrow> isEngineForInput s' = isEngineForInput s"
  shows "kept_res a (csi_final eng nested c s)"
  unfolding csi_final_def by (rule kept_andthen, use assms in simp) (rule kept_Callback, simp, rule assms(2))

lemma kept_Escape [simp]: "kept a s \<Longrightarrow> kept_res a (EventEscape eng c s)"
  by (simp add: EventEscape_def)

lemma kept_dispatch:
  assumes k: "kept a s" and n: "\<And>str s s'. nested str s = Inr s' \<Longrightarrow> isEngineForInput s' = isEngineForInput s"
  shows "kept_res a (dispatch_event eng nested c s)"
proof -
  have sub: "kept_res a (andthen (ActionSubParam c) (\<lambda>s. Inr (EnterCsiSubParam s)) s)" by (rule kept_andthen) (use k in simp_all)
  note fin = kept_csi_final [OF k n, where eng = eng and c = c]
  have pass: "kept_res a (EventDcsPassThrough eng c s)"
    using k kept_handler [OF k] by (auto simp: EventDcsPassThrough_def split: sum.splits)
  show ?thesis
    using k sub fin pass
    by (cases "state s")
      (simp_all add: dispatch_event_def EventGround_def EventEscapeIntermediate_def EventCsiEntry_def EventCsiIntermediate_def
        EventCsiIgnore_def EventCsiParam_def EventCsiSubParam_def EventOscParam_def EventOscString_def EventOscTermination_def
        EventSs3Entry_def EventSs3Param_def EventVt52Param_def EventDcsEntry_def EventDcsIgnore_def EventDcsIntermediate_def
        EventDcsParam_def EventSosPmApcString_def Let_def)
qed

lemma kept_ProcessCharacter:
  assumes n: "\<And>str s s'. nested str s = Inr s' \<Longrightarrow> isEngineForInput s' = isEngineForInput s"
  shows "kept a s \<Longrightarrow> kept_res a (ProcessCharacter eng nested c s)"
proof -
  have plain: "kept_res a (ProcessCharacter eng nested c s)" if "kept a s" "\<not> isC1ControlCharacter c" for a c s
  proof -
    have "kept_res a (andthen (ActionInterrupt eng) (thenGround (ActionExecute eng c)) s)"
      "kept_res a (andthen (ActionInterrupt eng) (\<lambda>s. Inr (EnterEscape s)) s)"
      by (rule kept_andthen; use that in simp)+
    with that kept_dispatch [OF that(1) n] show ?thesis by (subst ProcessCharacter.simps) simp
  qed
  show "kept a s \<Longrightarrow> kept_res a (ProcessCharacter eng nested c s)"
  proof (cases "isC1ControlCharacter c")
    case True
    assume k: "kept a s"
    have "c \<noteq> CAN" "c \<noteq> SUB" using True by (auto simp: isC1ControlCharacter_def control_defs)
    with True k plain [OF k ESC_not_C1] plain [OF _ c1To7Bit_not_C1 [OF True]] show ?thesis
      by (subst ProcessCharacter.simps) (auto split: sum.splits)
  qed (use plain in blast)
qed

end
