(* ===== verification/VT_Parser_Strings.thy ===== *)
theory VT_Parser_Strings
  imports VT_Parser_Safety
begin

text \<open>
  The contract of \<open>VT_Parser_Safety\<close> lifted from characters to \<^verbatim>\<open>ProcessString\<close> and to a stream of
  chunks: the loops, the strings callbacks inject (induction on the nesting depth), and what is
  cached or flushed at the end of a chunk.
\<close>

subsection \<open>The loops of ProcessString\<close>

definition at_pos :: "wstring \<Rightarrow> nat \<Rightarrow> 'e sm \<Rightarrow> bool" where
  "at_pos str i sm \<longleftrightarrow> currentString sm = str \<and> runOffset sm + runSize sm = i"

lemma Find_le: "FindActionableControlCharacter s \<le> length s"
  by (induction s) simp_all

lemma Find_printable: "c \<in> set (take (FindActionableControlCharacter s) s) \<Longrightarrow> printable c"
  by (induction s) (auto simp: printable_def split: if_splits)

lemma Find_stops: "FindActionableControlCharacter s < length s \<Longrightarrow> isActionableFromGround (s ! FindActionableControlCharacter s)"
  by (induction s) auto

definition keeps_kind :: "(wstring \<Rightarrow> 'e step) \<Rightarrow> bool" where
  "keeps_kind nested \<longleftrightarrow> (\<forall>str s s'. nested str s = Inr s' \<longrightarrow> isEngineForInput s' = isEngineForInput s)"

context parser_engine
begin

definition nested_ok :: "nat \<Rightarrow> (wstring \<Rightarrow> 'e step) \<Rightarrow> bool" where
  "nested_ok k nested \<longleftrightarrow> keeps_kind nested \<and>
     (\<forall>s sm. k < limit \<or> NestingTooDeep \<in> E \<longrightarrow> good (Suc k) sm \<longrightarrow> state sm = Ground \<longrightarrow> ok_result (Suc k) (nested s sm))"

lemma good_run: "good k sm \<Longrightarrow> good k (sm\<lparr>runOffset := o', runSize := n\<rparr>)"
  "good k sm \<Longrightarrow> good k (sm\<lparr>runSize := n, processingLastCharacter := b\<rparr>)"
  "good k sm \<Longrightarrow> good k (sm\<lparr>cachedSequence := q\<rparr>)" "good k sm \<Longrightarrow> good k (start_string str sm)"
  by (simp_all add: good_def vt_inv_def counting_def sub_ready_def start_string_def)

lemma char_step:
  assumes n: "nested_ok k nested" and g: "good k sm" and p: "at_pos str i sm" and i: "i < length str"
  shows "case ProcessCharacter eng nested (str ! i) (sm\<lparr>runSize := runSize sm + 1, processingLastCharacter := l\<rparr>) of
      Inl x \<Rightarrow> x \<in> E
    | Inr s \<Rightarrow> good k s \<and> at_pos str (i + 1) s \<and> 0 < runSize s \<and> isEngineForInput s = isEngineForInput sm"
proof -
  let ?sm = "sm\<lparr>runSize := runSize sm + 1, processingLastCharacter := l\<rparr>"
  have "ok_result k (ProcessCharacter eng nested (str ! i) ?sm)"
    by (rule ProcessCharacter_ok) (use n g good_run in \<open>auto simp: nested_ok_def\<close>)
  moreover have "kept_res ?sm (ProcessCharacter eng nested (str ! i) ?sm)"
    by (rule kept_ProcessCharacter) (use n in \<open>auto simp: nested_ok_def keeps_kind_def\<close>)
  ultimately show ?thesis
    using p by (cases "ProcessCharacter eng nested (str ! i) ?sm") (simp_all add: kept_def at_pos_def)
qed

lemma vt_loop_ok:
  assumes n: "nested_ok k nested"
  shows "good k sm \<Longrightarrow> at_pos str i sm \<Longrightarrow> i < length str \<Longrightarrow>
    (case vt_loop eng nested str i sm of
       Inl x \<Rightarrow> x \<in> E
     | Inr (j, s) \<Rightarrow> good k s \<and> at_pos str j s \<and> 0 < runSize s \<and> j \<le> length str \<and>
         (j = length str \<or> state s = Ground) \<and> isEngineForInput s = isEngineForInput sm)"
proof (induction "length str - i" arbitrary: i sm rule: less_induct)
  case less
  let ?r = "ProcessCharacter eng nested (str ! i) (sm\<lparr>runSize := runSize sm + 1, processingLastCharacter := (i + 1 \<ge> length str)\<rparr>)"
  note S = char_step [OF n less.prems, of "i + 1 \<ge> length str"]
  have V: "vt_loop eng nested str i sm = (case ?r of Inl x \<Rightarrow> Inl x | Inr sm1 \<Rightarrow>
      if i + 1 < length str \<and> state sm1 \<noteq> Ground then vt_loop eng nested str (i + 1) sm1 else Inr (i + 1, sm1))"
    using less.prems(3) by (subst vt_loop.simps) simp
  show ?case
  proof (cases ?r)
    case (Inl x)
    with S show ?thesis unfolding V by simp
  next
    case (Inr s)
    with S have s: "good k s" "at_pos str (i + 1) s" "0 < runSize s" "isEngineForInput s = isEngineForInput sm" by simp_all
    show ?thesis
    proof (cases "i + 1 < length str \<and> state s \<noteq> Ground")
      case True
      then have "length str - (i + 1) < length str - i" using less.prems(3) by linarith
      from less.hyps [OF this s(1,2)] True show ?thesis unfolding V Inr s(4) by simp
    next
      case False
      with s less.prems(3) show ?thesis unfolding V Inr by auto
    qed
  qed
qed

lemma print_run_ok:
  assumes g: "good k sm" and c: "currentString sm = str" and i: "i < length str"
  shows "case print_run eng str i sm of
       Inl x \<Rightarrow> x \<in> E
     | Inr (j, s) \<Rightarrow> good k s \<and> at_pos str j s \<and> runSize s = 0 \<and> j \<le> length str \<and> state s = state sm \<and>
         isEngineForInput s = isEngineForInput sm"
proof -
  define run where "run = FindActionableControlCharacter (drop i str)"
  define sm1 where "sm1 = sm\<lparr>runOffset := i, runSize := run\<rparr>"
  define piece where "piece = take run (drop i str)"
  have l: "run \<le> length str - i" using Find_le [of "drop i str"] by (simp add: run_def)
  have g1: "good k sm1" unfolding sm1_def using g by (rule good_run)
  have r1: "CurrentRun sm1 = Some piece" using c i by (simp add: CurrentRun_def sm1_def piece_def)
  show ?thesis
  proof (cases "run = 0")
    case True
    then have "print_run eng str i sm = Inr (i, sm1)" by (simp add: print_run_def Let_def run_def [symmetric] sm1_def)
    with g1 c i True show ?thesis by (simp add: at_pos_def sm1_def)
  next
    case False
    have "sent (CallPrintString piece)" using False l i Find_printable by (auto simp: piece_def run_def)
    note S = SafeExecute_good [OF this, where sm = sm1]
    have P: "print_run eng str i sm = (case ActionPrintString eng piece sm1 of Inl x \<Rightarrow> Inl x
        | Inr sm2 \<Rightarrow> Inr (i + run, sm2\<lparr>runOffset := i + run, runSize := 0\<rparr>))"
      using False r1 by (simp add: print_run_def Let_def run_def [symmetric] sm1_def [symmetric])
    show ?thesis
    proof (cases "ActionPrintString eng piece sm1")
      case (Inl x)
      with S(4) show ?thesis unfolding P by (simp add: ActionPrintString_def)
    next
      case (Inr s)
      then have "frame sm1 s" "good k s" using S(1) [OF g1] S(2) by (auto simp: ActionPrintString_def)
      with Inr l i c show ?thesis unfolding P by (simp add: at_pos_def frame_def sm1_def good_run)
    qed
  qed
qed

lemma string_loop_ok:
  assumes n: "nested_ok k nested"
  shows "good k sm \<Longrightarrow> at_pos str i sm \<Longrightarrow> i \<le> length str \<Longrightarrow> (i < length str \<longrightarrow> state sm = Ground) \<Longrightarrow>
    (state sm \<noteq> Ground \<longrightarrow> 0 < runSize sm) \<Longrightarrow>
    (case string_loop eng nested str i sm of
       Inl x \<Rightarrow> x \<in> E
     | Inr s \<Rightarrow> good k s \<and> at_pos str (length str) s \<and> (state s \<noteq> Ground \<longrightarrow> 0 < runSize s) \<and>
         isEngineForInput s = isEngineForInput sm)"
proof (induction "length str - i" arbitrary: i sm rule: less_induct)
  case less
  show ?case
  proof (cases "i < length str")
    case False
    with less.prems show ?thesis by (subst string_loop.simps) simp
  next
    case True
    note P = print_run_ok [OF less.prems(1) _ True]
    show ?thesis
    proof (cases "print_run eng str i sm")
      case (Inl x)
      with P True less.prems(2) show ?thesis by (subst string_loop.simps) (simp add: at_pos_def)
    next
      case (Inr q)
      obtain j s where q: "q = (j, s)" by (cases q)
      have s: "good k s" "at_pos str j s" "j \<le> length str" "state s = Ground" "isEngineForInput s = isEngineForInput sm" "i \<le> j"
        using P Inr q True less.prems(2,4) print_run_progress [of eng str i sm j s] by (auto simp: at_pos_def)
      show ?thesis
      proof (cases "j < length str")
        case False
        then have "string_loop eng nested str i sm = Inr s" using True Inr q by (subst string_loop.simps) simp
        with s False show ?thesis by simp
      next
        case jl: True
        note V = vt_loop_ok [OF n s(1,2) jl]
        have L: "string_loop eng nested str i sm = (case vt_loop eng nested str j s of Inl x \<Rightarrow> Inl x
            | Inr (m, s2) \<Rightarrow> string_loop eng nested str m s2)"
          using True jl Inr q by (subst string_loop.simps) simp
        show ?thesis
        proof (cases "vt_loop eng nested str j s")
          case (Inl x)
          with V show ?thesis unfolding L by simp
        next
          case vr: (Inr w)
          obtain m s2 where w: "w = (m, s2)" by (cases w)
          have "j < m" using vt_loop_progress [of eng nested str j s m s2] vr w jl by simp
          then have lt: "length str - m < length str - i" using s(6) True by linarith
          have s2: "good k s2" "at_pos str m s2" "m \<le> length str" "m < length str \<longrightarrow> state s2 = Ground" "0 < runSize s2"
            "isEngineForInput s2 = isEngineForInput sm" using V vr w s(5) by auto
          have "string_loop eng nested str i sm = string_loop eng nested str m s2" unfolding L by (simp add: vr w)
          with less.hyps [OF lt s2(1-4)] s2(5,6) show ?thesis by (simp only: simp_thms)
        qed
      qed
    qed
  qed
qed

lemma finish_string_ok:
  assumes g: "good k sm" and p: "at_pos str (length str) sm"
    and r: "state sm \<noteq> Ground \<longrightarrow> isEngineForInput sm \<longrightarrow> 0 < runSize sm"
  shows "ok_result k (finish_string eng sm)"
proof (cases "state sm = Ground")
  case False
  have ro: "runOffset sm \<le> length (currentString sm)" using p by (simp add: at_pos_def)
  define run where "run = take (runSize sm) (drop (runOffset sm) (currentString sm))"
  have c: "CurrentRun sm = Some run" using ro by (simp add: CurrentRun_def run_def)
  have ne: "run \<noteq> []" if "isEngineForInput sm" using r False that p by (auto simp: run_def at_pos_def)
  have cache: "good k (cache_run run sm)" unfolding cache_run_def by (rule good_run(3) [OF g])
  have "ok_result k (thenGround (ActionExecute eng ESC) (EnterGround sm))"
    by (rule thenGround_ok, rule Execute_ok) (use g Enter_good in auto)
  moreover have "ok_result k (thenGround (ActionEscDispatch eng (last run)) (EnterEscape (EnterGround sm)))"
    by (rule thenGround_ok, rule EscDispatch_ok) (use g Enter_good in auto)
  ultimately show ?thesis
    using False c ne cache g by (simp add: finish_string_def Let_def)
qed (use g in \<open>simp add: finish_string_def\<close>)

lemma process_with_ok:
  assumes n: "nested_ok k nested" and g: "good k sm" and e: "str \<noteq> [] \<or> state sm = Ground \<or> \<not> isEngineForInput sm"
  shows "ok_result k (process_with eng nested str sm)"
proof -
  define sm0 where "sm0 = start_string str sm"
  have g0: "good k sm0" unfolding sm0_def using g by (rule good_run)
  have p0: "at_pos str 0 sm0" and s0: "state sm0 = state sm" "isEngineForInput sm0 = isEngineForInput sm"
    by (simp_all add: sm0_def start_string_def at_pos_def)
  define looped where "looped = (if state sm0 \<noteq> Ground
      then (if str = [] then Inr sm0 else case vt_loop eng nested str 0 sm0 of Inl x \<Rightarrow> Inl x | Inr (i, sm1) \<Rightarrow> string_loop eng nested str i sm1)
      else string_loop eng nested str 0 sm0)"
  have L: "case looped of Inl x \<Rightarrow> x \<in> E
     | Inr s \<Rightarrow> good k s \<and> at_pos str (length str) s \<and> (state s \<noteq> Ground \<longrightarrow> isEngineForInput s \<longrightarrow> 0 < runSize s)"
  proof (cases "state sm0 = Ground \<or> str = []")
    case True
    with string_loop_ok [OF n g0 p0] g0 p0 e s0 show ?thesis by (auto simp: looped_def split: sum.splits)
  next
    case False
    then have ne: "0 < length str" by simp
    note V = vt_loop_ok [OF n g0 p0 ne]
    show ?thesis
    proof (cases "vt_loop eng nested str 0 sm0")
      case (Inl x)
      with V False show ?thesis by (simp add: looped_def)
    next
      case (Inr w)
      obtain i s where w: "w = (i, s)" by (cases w)
      with V Inr have s: "good k s" "at_pos str i s" "i \<le> length str" "i < length str \<longrightarrow> state s = Ground" "0 < runSize s" by auto
      from string_loop_ok [OF n s(1-4)] s(5) False Inr w show ?thesis by (auto simp: looped_def split: sum.splits)
    qed
  qed
  have "process_with eng nested str sm = (case looped of Inl x \<Rightarrow> Inl x | Inr s \<Rightarrow> finish_string eng s)"
    by (simp add: process_with_def Let_def sm0_def [symmetric] looped_def)
  with L finish_string_ok show ?thesis by (cases looped) auto
qed

end


subsection \<open>Whole strings\<close>

definition same_kind :: "'e sm \<Rightarrow> 'e sm \<Rightarrow> bool" where
  "same_kind a b \<longleftrightarrow> isEngineForInput b = isEngineForInput a"

lemma same_kind_trans: "same_kind a b \<Longrightarrow> same_kind b c \<Longrightarrow> same_kind a c"
  by (simp add: same_kind_def)

lemma keeps_kind_same: "keeps_kind nested \<longleftrightarrow> (\<forall>str s s'. nested str s = Inr s' \<longrightarrow> same_kind s s')"
  by (simp add: keeps_kind_def same_kind_def)

lemma kept_same_kind: "kept a b \<Longrightarrow> same_kind a b"
  by (simp add: kept_def same_kind_def)

lemma same_kind_run [simp]:
  "same_kind (sm\<lparr>runSize := n, processingLastCharacter := b\<rparr>) s = same_kind sm s"
  "same_kind (sm\<lparr>runOffset := m, runSize := n\<rparr>) s = same_kind sm s"
  "same_kind s (sm\<lparr>runOffset := m, runSize := n\<rparr>) = same_kind s sm"
  "same_kind (start_string str sm) s = same_kind sm s"
  "same_kind s (cache_run r s)" "same_kind s s"
  by (simp_all add: same_kind_def start_string_def cache_run_def)

lemma vt_loop_kind:
  assumes n: "keeps_kind nested"
  shows "vt_loop eng nested str i sm = Inr (j, s) \<Longrightarrow> same_kind sm s"
proof (induction "length str - i" arbitrary: i sm rule: less_induct)
  case less
  let ?sm = "sm\<lparr>runSize := runSize sm + 1, processingLastCharacter := (i + 1 \<ge> length str)\<rparr>"
  show ?case
  proof (cases "i < length str")
    case True
    have "kept_res ?sm (ProcessCharacter eng nested (str ! i) ?sm)"
      by (rule kept_ProcessCharacter) (use n in \<open>simp_all add: keeps_kind_def\<close>)
    then have "same_kind sm s1" if "ProcessCharacter eng nested (str ! i) ?sm = Inr s1" for s1
      using that kept_same_kind [of ?sm s1] by simp
    moreover have "same_kind s1 s" if "vt_loop eng nested str (i + 1) s1 = Inr (j, s)" for s1
      using less.hyps [OF _ that] True by linarith
    ultimately show ?thesis
      using less.prems True by (subst (asm) vt_loop.simps) (auto split: sum.splits if_splits intro: same_kind_trans)
  next
    case False
    with less.prems show ?thesis by (subst (asm) vt_loop.simps) simp
  qed
qed

lemma print_run_kind: "print_run eng str i sm = Inr (j, s) \<Longrightarrow> same_kind sm s"
proof -
  have "same_kind sm s2" if "ActionPrintString eng piece (sm\<lparr>runOffset := i, runSize := k\<rparr>) = Inr s2" for piece k s2
  proof -
    have "kept_res (sm\<lparr>runOffset := i, runSize := k\<rparr>) (ActionPrintString eng piece (sm\<lparr>runOffset := i, runSize := k\<rparr>))" by simp
    with that kept_same_kind [of "sm\<lparr>runOffset := i, runSize := k\<rparr>" s2] show ?thesis by simp
  qed
  then show "print_run eng str i sm = Inr (j, s) \<Longrightarrow> ?thesis"
    by (auto simp: print_run_def Let_def split: if_splits option.splits sum.splits)
qed

lemma string_loop_kind:
  "keeps_kind nested \<Longrightarrow> string_loop eng nested str i sm = Inr s \<Longrightarrow> same_kind sm s"
proof (induction eng nested str i sm rule: string_loop.induct)
  case (1 eng nested str i sm)
  show ?case
  proof (cases "i < length str")
    case True
    have "same_kind sm s" if "print_run eng str i sm = Inr (a, b)" "vt_loop eng nested str a b = Inr (k, s2)" "same_kind s2 s" for a b k s2
      using print_run_kind [OF that(1)] vt_loop_kind [OF 1(2) that(2)] that(3) by (blast intro: same_kind_trans)
    with 1 True print_run_kind [of eng str i sm] show ?thesis
      by (subst (asm) (2) string_loop.simps) (auto split: sum.splits if_splits)
  next
    case False
    with 1(3) show ?thesis by (subst (asm) string_loop.simps) simp
  qed
qed

lemma finish_string_kind: "finish_string eng sm = Inr s \<Longrightarrow> same_kind sm s"
proof -
  have "kept_res sm (thenGround (ActionExecute eng ESC) (EnterGround sm))"
    "kept_res sm (thenGround (ActionEscDispatch eng c) (EnterEscape (EnterGround sm)))" for c by simp_all
  then have "thenGround (ActionExecute eng ESC) (EnterGround sm) = Inr s \<Longrightarrow> same_kind sm s"
    "thenGround (ActionEscDispatch eng c) (EnterEscape (EnterGround sm)) = Inr s \<Longrightarrow> same_kind sm s" for c
    by (metis kept_res_simps(1) kept_same_kind)+
  then show "finish_string eng sm = Inr s \<Longrightarrow> ?thesis"
    by (auto simp: finish_string_def Let_def split: if_splits option.splits)
qed

lemma process_with_kind:
  assumes n: "keeps_kind nested" and r: "process_with eng nested str sm = Inr s"
  shows "same_kind sm s"
proof -
  let ?s0 = "start_string str sm"
  have "same_kind ?s0 s2" if "vt_loop eng nested str 0 ?s0 = Inr (i, s1)" "string_loop eng nested str i s1 = Inr s2" for i s1 s2
    using vt_loop_kind [OF n that(1)] string_loop_kind [OF n that(2)] by (rule same_kind_trans)
  moreover have "same_kind ?s0 s" if "finish_string eng s2 = Inr s" "same_kind ?s0 s2" for s2
    using that(2) finish_string_kind [OF that(1)] by (rule same_kind_trans)
  moreover have "same_kind ?s0 ?s0" by (simp add: same_kind_def)
  ultimately show ?thesis
    using r string_loop_kind [OF n, of eng str 0 ?s0] unfolding same_kind_run(4) [of str sm, symmetric]
    by (simp add: process_with_def Let_def split: sum.splits if_splits prod.splits del: same_kind_run)
qed

lemma ProcessString_Suc: "ProcessString eng (Suc n) = process_with eng (ProcessString eng n)"
  by (intro ext) simp

lemma ProcessString_kind: "keeps_kind (ProcessString eng n)"
  by (induction n) (use process_with_kind in \<open>auto simp: keeps_kind_same\<close>)

context parser_engine
begin

text \<open>Fuel beyond the levels still allowed is enough.\<close>

lemma ProcessString_nested_ok: "limit < n + k + 1 \<or> NestingTooDeep \<in> E \<Longrightarrow> nested_ok k (ProcessString eng n)"
proof (induction n arbitrary: k)
  case 0
  then show ?case by (auto simp: nested_ok_def keeps_kind_def)
next
  case (Suc n)
  then have "nested_ok (Suc k) (ProcessString eng n)" by (intro Suc.IH) auto
  from process_with_ok [OF this]
  have "ok_result (Suc k) (process_with eng (ProcessString eng n) s sm)" if "good (Suc k) sm" "state sm = Ground" for s sm
    using that by blast
  then show ?case using ProcessString_kind [of eng "Suc n"] by (simp add: nested_ok_def ProcessString_Suc del: ProcessString.simps)
qed

lemma ProcessString_ok:
  assumes "good k sm" and "str \<noteq> [] \<or> state sm = Ground \<or> \<not> isEngineForInput sm" and "0 < n \<and> limit < n + k \<or> NestingTooDeep \<in> E"
  shows "ok_result k (ProcessString eng n str sm)"
proof (cases n)
  case 0
  with assms(3) show ?thesis by auto
next
  case (Suc m)
  with assms(3) have "nested_ok k (ProcessString eng m)" by (intro ProcessString_nested_ok) auto
  from process_with_ok [OF this assms(1,2)] Suc show ?thesis by simp
qed

end

text \<open>
  A client's loop: one \<^verbatim>\<open>ProcessString\<close> per chunk of text that arrives. \<open>recording\<close> is any engine
  with a log of the calls it received.
\<close>

fun ProcessStrings :: "'e engine \<Rightarrow> nat \<Rightarrow> wstring list \<Rightarrow> 'e step" where
  "ProcessStrings eng n [] sm = Inr sm"
| "ProcessStrings eng n (s # ss) sm =
     (case ProcessString eng n s sm of Inl x \<Rightarrow> Inl x | Inr sm1 \<Rightarrow> ProcessStrings eng n ss sm1)"

definition recording :: "'e engine \<Rightarrow> ('e \<times> vt_call list) engine" where
  "recording eng p v c = (case eng (fst p) v c of (r, xs, e') \<Rightarrow> (r, xs, (e', snd p @ [c])))"

interpretation recorded: parser_engine "recording eng" "\<lambda>k p. \<forall>c \<in> set (snd p). call_ok c" 0
    "{EngineRaised, StackOverflow, NestingTooDeep}" for eng :: "'e engine"
  by unfold_locales (auto simp: recording_def split: prod.splits vt_reply.splits)

context parser_engine
begin

lemma ProcessStrings_ok:
  "good k sm \<Longrightarrow> \<forall>s \<in> set ss. s \<noteq> [] \<Longrightarrow> 0 < n \<and> limit < n + k \<or> NestingTooDeep \<in> E \<Longrightarrow> ok_result k (ProcessStrings eng n ss sm)"
proof (induction ss arbitrary: sm)
  case (Cons s ss)
  then show ?case using ProcessString_ok [of k sm s n] by (cases "ProcessString eng n s sm") auto
qed simp

lemma init_good: "Q k e \<Longrightarrow> good k (init_sm e forInput)"
  unfolding init_sm_def by (rule goodI, rule ActionClear_inv) simp_all

end

text \<open>
  C1. Whatever the engine answers, and however the input is cut into (non-empty) chunks, every call
  the parser makes is well formed: printed text has no control characters, at most 32 parameters
  each between 0 and 65535 or omitted, at most six sub-parameters per parameter with byte ranges
  that cut the sub-parameter list exactly, operating system commands carry a number within bounds
  and no control characters. The parser's invariant holds after every chunk, and no empty vector is
  read, no null handler called and no run taken outside its string: what can go wrong is an
  exception of the engine's handler or callback, an engine that refuses to pass text through, or
  callbacks nested deeper than allowed.
\<close>

theorem engine_calls_well_formed:
  assumes "\<forall>s \<in> set ss. s \<noteq> []"
  shows "case ProcessStrings (recording eng) n ss (init_sm (e, []) forInput) of
      Inl x \<Rightarrow> x \<in> {EngineRaised, StackOverflow, NestingTooDeep}
    | Inr sm \<Rightarrow> vt_inv sm \<and> (\<forall>c \<in> set (snd (engine sm)). call_ok c)"
proof -
  have "recorded.good 0 (init_sm (e, []) forInput)" by (rule recorded.init_good) simp
  from recorded.ProcessStrings_ok [OF this assms, of n eng] show ?thesis
    by (simp add: recorded.ok_result_def recorded.good_def split: sum.splits)
qed

text \<open>An engine that accepts everything, and the calls a chunked stream makes to it.\<close>

definition accepting :: "unit engine" where
  "accepting e v c = (Ret True, [], ())"

definition calls_of :: "bool \<Rightarrow> wstring list \<Rightarrow> vt_call list option" where
  "calls_of forInput ss =
     (case ProcessStrings (recording accepting) 1 ss (init_sm ((), []) forInput) of
        Inl x \<Rightarrow> None | Inr sm \<Rightarrow> Some (snd (engine sm)))"

text \<open>\<^verbatim>\<open>a\<close>, then \<^verbatim>\<open>ESC [ 1\<close>, then \<^verbatim>\<open>:2;3m\<close>.\<close>

theorem engine_calls_well_formed_witness:
  "let ss = [[0x61], [ESC, 0x5B, 0x31], [0x3A, 0x32, 0x3B, 0x33, 0x6D]];
       calls = [CallPrintString [0x61], CallCsiDispatch 0x6D
         \<lparr>vp_params = [1, 3], vp_subParams = [2], vp_subParamRanges = [(0, 1), (1, 1)]\<rparr>]
   in calls_of False ss = Some calls \<and> (\<forall>c \<in> set calls. call_ok c)"
proof -
  define ss :: "wstring list" where "ss = [[0x61], [ESC, 0x5B, 0x31], [0x3A, 0x32, 0x3B, 0x33, 0x6D]]"
  define calls where "calls = [CallPrintString [0x61], CallCsiDispatch 0x6D
         \<lparr>vp_params = [1, 3], vp_subParams = [2], vp_subParamRanges = [(0, 1), (1, 1)]\<rparr>]"
  have r: "calls_of False ss = Some calls" unfolding ss_def calls_def by code_simp
  have "\<forall>s \<in> set ss. s \<noteq> []" by (simp add: ss_def)
  from engine_calls_well_formed [OF this, of accepting 1 "()" False] r have "\<forall>c \<in> set calls. call_ok c"
    by (auto simp: calls_of_def split: sum.splits)
  with r show ?thesis unfolding Let_def ss_def [symmetric] calls_def [symmetric] by blast
qed

end
