(* ===== verification/VT_Parser_Feed.thy ===== *)
theory VT_Parser_Feed
  imports VT_Parser_Strings
begin

text \<open>
  The fast path of \<^verbatim>\<open>ProcessString\<close> against its specification: feeding the characters to the state
  machine one at a time. \<open>same\<close> compares parsers up to the bookkeeping of the current string; the
  locale \<open>chunk_blind\<close> is what an engine has to promise for the two to agree.
\<close>

subsection \<open>States up to the bookkeeping of the current string\<close>

text \<open>
  \<open>same a b\<close>: the two parsers agree on everything that decides what they do next. The current
  string and run, the cached text, the recorded injection points and the last-character flag are
  left out.
\<close>

definition same :: "'e sm \<Rightarrow> 'e sm \<Rightarrow> bool" where
  "same a b \<longleftrightarrow> engine b = engine a \<and> isEngineForInput b = isEngineForInput a \<and> state b = state a \<and>
     acceptC1 b = acceptC1 a \<and> ansi b = ansi a \<and> idBuilder b = idBuilder a \<and> parameters b = parameters a \<and>
     parameterLimitOverflowed b = parameterLimitOverflowed a \<and> subParameters b = subParameters a \<and>
     subParameterRanges b = subParameterRanges a \<and> subParameterLimitOverflowed b = subParameterLimitOverflowed a \<and>
     subParameterCounter b = subParameterCounter a \<and> oscString b = oscString a \<and> oscParameter b = oscParameter a \<and>
     dcsStringHandler b = dcsStringHandler a \<and> onCsiCompleteCallback b = onCsiCompleteCallback a"

definition same_res :: "vt_error + 'e sm \<Rightarrow> vt_error + 'e sm \<Rightarrow> bool" where
  "same_res r q \<longleftrightarrow> (case (r, q) of (Inl x, Inl y) \<Rightarrow> x = y | (Inr a, Inr b) \<Rightarrow> same a b | _ \<Rightarrow> False)"

lemma same_res_simps [simp]:
  "same_res (Inl x) (Inl y) \<longleftrightarrow> x = y" "same_res (Inr a) (Inr b) \<longleftrightarrow> same a b"
  "\<not> same_res (Inl x) (Inr b)" "\<not> same_res (Inr a) (Inl y)"
  by (simp_all add: same_res_def)

lemma same_refl [simp]: "same a a"
  by (simp add: same_def)

lemma same_sym: "same a b \<Longrightarrow> same b a"
  by (simp add: same_def)

lemma same_trans: "same a b \<Longrightarrow> same b c \<Longrightarrow> same a c"
  by (simp add: same_def)

lemma same_res_refl [simp]: "same_res r r"
  by (cases r) simp_all

lemma same_res_sym: "same_res r q \<Longrightarrow> same_res q r"
  by (cases r; cases q) (simp_all add: same_sym)

lemma same_res_trans: "same_res r q \<Longrightarrow> same_res q p \<Longrightarrow> same_res r p"
  by (cases r; cases q; cases p) (auto intro: same_trans)

lemma same_res_bind:
  "same_res r q \<Longrightarrow> (\<And>a b. r = Inr a \<Longrightarrow> q = Inr b \<Longrightarrow> same a b \<Longrightarrow> same_res (f a) (g b)) \<Longrightarrow>
   same_res (case r of Inl x \<Rightarrow> Inl x | Inr a \<Rightarrow> f a) (case q of Inl x \<Rightarrow> Inl x | Inr b \<Rightarrow> g b)"
  by (cases r; cases q) simp_all

lemma same_res_if:
  "(P \<Longrightarrow> same_res r q) \<Longrightarrow> (\<not> P \<Longrightarrow> same_res r' q') \<Longrightarrow> same_res (if P then r else r') (if P then q else q')"
  by simp

lemma same_pure [simp]:
  assumes "same a b"
  shows "same (EnterGround a) (EnterGround b)" "same (EnterEscape a) (EnterEscape b)" "same (EnterCsiEntry a) (EnterCsiEntry b)"
    "same (EnterCsiIgnore a) (EnterCsiIgnore b)" "same (EnterOscParam a) (EnterOscParam b)" "same (EnterOscString a) (EnterOscString b)"
    "same (EnterOscTermination a) (EnterOscTermination b)" "same (EnterSs3Entry a) (EnterSs3Entry b)" "same (EnterDcsEntry a) (EnterDcsEntry b)"
    "same (EnterDcsIgnore a) (EnterDcsIgnore b)" "same (EnterSosPmApcString a) (EnterSosPmApcString b)"
    "same (EnterCsiIntermediate a) (EnterCsiIntermediate b)" "same (EnterDcsIntermediate a) (EnterDcsIntermediate b)"
    "same (EnterCsiParam a) (EnterCsiParam b)" "same (EnterEscapeIntermediate a) (EnterEscapeIntermediate b)"
    "same (EnterVt52Param a) (EnterVt52Param b)" "same (EnterSs3Param a) (EnterSs3Param b)" "same (EnterDcsParam a) (EnterDcsParam b)"
    "same (EnterDcsPassThrough a) (EnterDcsPassThrough b)" "same (EnterCsiSubParam a) (EnterCsiSubParam b)"
    "same (ActionCollect c a) (ActionCollect c b)" "same (ActionParam c a) (ActionParam c b)" "same (ActionOscParam c a) (ActionOscParam c b)"
    "same (ActionOscPut c a) (ActionOscPut c b)"
  using assms by (simp_all add: same_def Enter_defs ActionClear_def ActionCollect_def ActionParam_def ActionOscParam_def
      ActionOscPut_def push_parameter_def Let_def)

lemma same_run [simp]:
  "same (a\<lparr>runSize := n, processingLastCharacter := l\<rparr>) b = same a b" "same (a\<lparr>runOffset := m, runSize := n\<rparr>) b = same a b"
  "same (start_string s a) b = same a b" "same (cache_run r a) b = same a b"
  "same b (a\<lparr>runSize := n, processingLastCharacter := l\<rparr>) = same b a" "same b (a\<lparr>runOffset := m, runSize := n\<rparr>) = same b a"
  "same b (start_string s a) = same b a" "same b (cache_run r a) = same b a"
  "same (a\<lparr>currentString := s, runOffset := m, runSize := n\<rparr>) b = same a b"
  "same b (a\<lparr>currentString := s, runOffset := m, runSize := n\<rparr>) = same b a"
  "same (a\<lparr>currentString := s\<rparr>) b = same a b" "same b (a\<lparr>currentString := s\<rparr>) = same b a"
  by (simp_all add: same_def start_string_def cache_run_def)

lemma same_SubParam [simp]: "same a b \<Longrightarrow> same_res (ActionSubParam c a) (ActionSubParam c b)"
  by (simp add: same_def ActionSubParam_def push_parameter_def Let_def)

lemma same_effects: "same a b \<Longrightarrow> same (foldl (\<lambda>s x. apply_effect x s) a xs) (foldl (\<lambda>s x. apply_effect x s) b xs)"
proof (induction xs arbitrary: a b)
  case (Cons x xs)
  then have "same (apply_effect x a) (apply_effect x b)"
    by (auto simp: same_def apply_effect_def split: vt_effect.splits vt_mode.splits)
  with Cons show ?case by simp
qed simp

subsection \<open>Engines that do not see where a chunk ends\<close>

text \<open>
  The engine does not look at the last-character flag, handles what it is sent (so no text is
  passed through), and prints a run as it prints its characters one after the other.
\<close>

definition handled :: "vt_call \<Rightarrow> bool" where
  "handled c \<longleftrightarrow> (case c of CallExecute ch \<Rightarrow> True | CallExecuteFromEscape ch \<Rightarrow> True | CallPrint ch \<Rightarrow> True
     | CallPrintString s \<Rightarrow> True | CallEscDispatch i \<Rightarrow> True | CallVt52EscDispatch i ps \<Rightarrow> True
     | CallCsiDispatch i ps \<Rightarrow> True | CallOscDispatch n s \<Rightarrow> True | CallSs3Dispatch ch ps \<Rightarrow> True | _ \<Rightarrow> False)"

locale chunk_blind =
  fixes eng :: "'e engine" and pr :: "wchar \<Rightarrow> 'e \<Rightarrow> 'e"
  assumes blind: "v_acceptC1 v = v_acceptC1 w \<Longrightarrow> v_ansi v = v_ansi w \<Longrightarrow> eng e v c = eng e w c"
    and handles: "handled c \<Longrightarrow> fst (eng e v c) \<noteq> Ret False"
    and prints: "eng e v (CallPrint ch) = (Ret True, [], pr ch e)"
    and prints_run: "eng e v (CallPrintString s) = (Ret True, [], fold pr s e)"
begin

lemma same_call:
  assumes "same a b"
  shows "fst (call_engine eng c a) = fst (call_engine eng c b)" "same (snd (call_engine eng c a)) (snd (call_engine eng c b))"
proof -
  obtain r xs e where e: "eng (engine a) (view_of a) c = (r, xs, e)" by (metis prod_cases3)
  have "eng (engine b) (view_of b) c = (r, xs, e)"
    using blind [of "view_of b" "view_of a"] assms e by (simp add: same_def view_of_def)
  moreover have "same (a\<lparr>engine := e\<rparr>) (b\<lparr>engine := e\<rparr>)" using assms by (simp add: same_def)
  ultimately show "fst (call_engine eng c a) = fst (call_engine eng c b)" "same (snd (call_engine eng c a)) (snd (call_engine eng c b))"
    using e same_effects by (simp_all add: call_engine_def)
qed

lemma SafeExecute_handled: "handled c \<Longrightarrow> SafeExecute eng c sm = Inr (snd (call_engine eng c sm))"
  using handles [of c "engine sm" "view_of sm"] by (auto simp: SafeExecute_def call_engine_def split: prod.splits)

lemma same_SafeExecute: "same a b \<Longrightarrow> handled c \<Longrightarrow> same_res (SafeExecute eng c a) (SafeExecute eng c b)"
  by (simp add: SafeExecute_handled same_call)

lemma same_actions [simp]:
  assumes "same a b"
  shows "same_res (ActionExecute eng c a) (ActionExecute eng c b)" "same_res (ActionExecuteFromEscape eng c a) (ActionExecuteFromEscape eng c b)"
    "same_res (ActionPrint eng c a) (ActionPrint eng c b)" "same_res (ActionEscDispatch eng c a) (ActionEscDispatch eng c b)"
    "same_res (ActionVt52EscDispatch eng c a) (ActionVt52EscDispatch eng c b)" "same_res (ActionCsiDispatch eng c a) (ActionCsiDispatch eng c b)"
    "same_res (ActionOscDispatch eng a) (ActionOscDispatch eng b)" "same_res (ActionSs3Dispatch eng c a) (ActionSs3Dispatch eng c b)"
  using assms same_SafeExecute [OF assms] by (simp_all add: SafeExecute_actions handled_def same_def)

lemma same_andthen:
  assumes "same_res (f a) (f b)" and "\<And>a b. same a b \<Longrightarrow> same_res (g a) (g b)"
  shows "same_res (andthen f g a) (andthen f g b)"
  unfolding andthen_def using assms by (intro same_res_bind)

lemma same_thenGround [simp]: "same_res (f a) (f b) \<Longrightarrow> same_res (thenGround f a) (thenGround f b)"
  unfolding thenGround_def by (rule same_andthen) simp_all

lemma same_DcsDispatch [simp]:
  assumes "same a b"
  shows "same (ActionDcsDispatch eng c a) (ActionDcsDispatch eng c b)"
proof -
  define call where "call = CallDcsDispatch (Finalize c (idBuilder a)) (params_only (parameters a))"
  obtain r a' where a: "call_engine eng call a = (r, a')" by (metis surj_pair)
  obtain q b' where b: "call_engine eng call b = (q, b')" by (metis surj_pair)
  have q: "q = r" "same a' b'" using same_call [OF assms, of call] by (simp_all add: a b)
  have "same (a'\<lparr>dcsStringHandler := x\<rparr>) (b'\<lparr>dcsStringHandler := x\<rparr>)" for x using q(2) by (simp add: same_def)
  moreover have "dcsStringHandler a' = dcsStringHandler b'" using q(2) by (simp add: same_def)
  moreover have "CallDcsDispatch (Finalize c (idBuilder b)) (params_only (parameters b)) = call"
    using assms by (simp add: same_def call_def)
  ultimately show ?thesis
    using q by (simp add: ActionDcsDispatch_def call_def [symmetric] a b Let_def)
qed

lemma same_handler:
  assumes "same a b"
  shows "case (call_handler eng c a, call_handler eng c b) of (Inl x, Inl y) \<Rightarrow> x = y
    | (Inr (p, s), Inr (q, t)) \<Rightarrow> p = q \<and> same s t | _ \<Rightarrow> False"
proof -
  obtain r a' where a: "call_engine eng (CallDcsChar c) a = (r, a')" by (metis surj_pair)
  obtain q b' where b: "call_engine eng (CallDcsChar c) b = (q, b')" by (metis surj_pair)
  have "q = r" "same a' b'" using same_call [OF assms, of "CallDcsChar c"] by (simp_all add: a b)
  moreover have "dcsStringHandler b = dcsStringHandler a" using assms by (simp add: same_def)
  ultimately show ?thesis by (simp add: call_handler_def a b)
qed

lemma same_handlerE:
  assumes "same a b"
  obtains (raises) x where "call_handler eng c a = Inl x" "call_handler eng c b = Inl x"
  | (returns) p s t where "call_handler eng c a = Inr (p, s)" "call_handler eng c b = Inr (p, t)" "same s t"
proof -
  note H = same_handler [OF assms, of c]
  show thesis
  proof (cases "call_handler eng c a")
    case (Inl x)
    with H raises [of x] show ?thesis by (cases "call_handler eng c b") auto
  next
    case (Inr p)
    with H returns [of "fst p" "snd p"] show ?thesis by (cases "call_handler eng c b"; cases p) auto
  qed
qed

lemma same_Interrupt:
  assumes "same a b"
  shows "same_res (ActionInterrupt eng a) (ActionInterrupt eng b)"
proof -
  have st: "state b = state a" using assms by (simp add: same_def)
  have "same s t \<Longrightarrow> same (s\<lparr>dcsStringHandler := False\<rparr>) (t\<lparr>dcsStringHandler := False\<rparr>)" for s t :: "'e sm" by (simp add: same_def)
  with assms st show ?thesis
    by (cases rule: same_handlerE [OF assms, of ESC]) (simp_all add: ActionInterrupt_def)
qed

lemma same_PassThrough:
  assumes "same a b"
  shows "same_res (EventDcsPassThrough eng c a) (EventDcsPassThrough eng c b)"
  using assms by (cases rule: same_handlerE [OF assms, of c]) (simp_all add: EventDcsPassThrough_def)

end

text \<open>A nested call that respects \<open>same\<close> on an output parser.\<close>

definition nested_same :: "(wstring \<Rightarrow> 'e step) \<Rightarrow> bool" where
  "nested_same nested \<longleftrightarrow> keeps_kind nested \<and>
     (\<forall>s a b. \<not> isEngineForInput a \<longrightarrow> same a b \<longrightarrow> same_res (nested s a) (nested s b))"

context chunk_blind
begin

lemma same_Callback:
  assumes s: "same a b" and n: "nested_same nested" and out: "\<not> isEngineForInput a"
  shows "same_res (ExecuteCsiCompleteCallback eng nested a) (ExecuteCsiCompleteCallback eng nested b)"
proof (cases "onCsiCompleteCallback a")
  case True
  then have tb: "onCsiCompleteCallback b" using s by (simp add: same_def)
  have s': "same (a\<lparr>onCsiCompleteCallback := False\<rparr>) (b\<lparr>onCsiCompleteCallback := False\<rparr>)" using s by (simp add: same_def)
  obtain r a' where a: "call_engine eng CallCallback (a\<lparr>onCsiCompleteCallback := False\<rparr>) = (r, a')" by (metis surj_pair)
  obtain q b' where b: "call_engine eng CallCallback (b\<lparr>onCsiCompleteCallback := False\<rparr>) = (q, b')" by (metis surj_pair)
  have q: "q = r" "same a' b'" using same_call [OF s', of CallCallback] by (simp_all add: a b)
  have out': "\<not> isEngineForInput a'" using call_engine_frame [OF a] out by (simp add: frame_def)
  show ?thesis
  proof (cases r)
    case (Inject str)
    have "same_res (nested str a') (nested str b')" using n q(2) out' by (simp add: nested_same_def)
    then have "same_res (case nested str a' of Inl x \<Rightarrow> Inl x | Inr s \<Rightarrow> Inr (snd (call_engine eng CallCallbackDone s)\<lparr>currentString := currentString a, runOffset := runOffset a, runSize := runSize a\<rparr>))
        (case nested str b' of Inl x \<Rightarrow> Inl x | Inr s \<Rightarrow> Inr (snd (call_engine eng CallCallbackDone s)\<lparr>currentString := currentString b, runOffset := runOffset b, runSize := runSize b\<rparr>))"
      by (rule same_res_bind) (simp add: same_call(2))
    with Inject q True tb a b show ?thesis by (simp add: ExecuteCsiCompleteCallback_def Let_def)
  qed (use q True tb a b in \<open>simp_all add: ExecuteCsiCompleteCallback_def Let_def\<close>)
next
  case False
  then show ?thesis using s by (simp add: ExecuteCsiCompleteCallback_def same_def)
qed

lemma same_csi_final:
  assumes s: "same a b" and n: "nested_same nested" and out: "\<not> isEngineForInput a"
  shows "same_res (csi_final eng nested c a) (csi_final eng nested c b)"
proof -
  have "kept_res a (thenGround (ActionCsiDispatch eng c) a)" by simp
  then have "\<not> isEngineForInput s" if "thenGround (ActionCsiDispatch eng c) a = Inr s" for s
    using that out by (simp add: kept_def)
  then show ?thesis
    unfolding csi_final_def andthen_def using s n by (intro same_res_bind same_Callback) simp_all
qed

lemma same_EventEscape:
  assumes "same a b"
  shows "same_res (EventEscape eng c a) (EventEscape eng c b)"
proof -
  have "isEngineForInput b = isEngineForInput a" "ansi b = ansi a" using assms by (simp_all add: same_def)
  then show ?thesis using assms by (simp add: EventEscape_def)
qed

lemma same_dispatch:
  assumes s: "same a b" and n: "nested_same nested" and out: "\<not> isEngineForInput a"
  shows "same_res (dispatch_event eng nested c a) (dispatch_event eng nested c b)"
proof -
  have f: "state b = state a" "ansi b = ansi a" using s by (simp_all add: same_def)
  note fin = same_csi_final [OF s n out, of c]
  have sub: "same_res (andthen (ActionSubParam c) (\<lambda>s. Inr (EnterCsiSubParam s)) a) (andthen (ActionSubParam c) (\<lambda>s. Inr (EnterCsiSubParam s)) b)"
    by (rule same_andthen) (use s in simp_all)
  have trm: "same_res (EventOscTermination eng c a) (EventOscTermination eng c b)"
    using s same_EventEscape [of "EnterEscape a" "EnterEscape b" c] by (simp add: EventOscTermination_def)
  have vt: "same_res (EventVt52Param eng c a) (EventVt52Param eng c b)"
  proof -
    have "same (a\<lparr>parameters := parameters a @ [uint c]\<rparr>) (b\<lparr>parameters := parameters b @ [uint c]\<rparr>)" "length (parameters b) = length (parameters a)"
      using s by (simp_all add: same_def)
    with s show ?thesis by (simp add: EventVt52Param_def Let_def)
  qed
  show ?thesis
    using s f fin sub trm vt same_EventEscape [OF s, of c] same_PassThrough [OF s, of c]
    by (cases "state a")
      (simp_all add: dispatch_event_def EventGround_def EventEscapeIntermediate_def EventCsiEntry_def EventCsiIntermediate_def
        EventCsiIgnore_def EventCsiParam_def EventCsiSubParam_def EventOscParam_def EventOscString_def
        EventSs3Entry_def EventSs3Param_def EventDcsEntry_def EventDcsIgnore_def EventDcsIntermediate_def
        EventDcsParam_def EventSosPmApcString_def)
qed

lemma same_ProcessCharacter_plain:
  assumes s: "same a b" and n: "nested_same nested" and out: "\<not> isEngineForInput a" and c: "\<not> isC1ControlCharacter c"
  shows "same_res (ProcessCharacter eng nested c a) (ProcessCharacter eng nested c b)"
proof -
  have f: "state b = state a" "isEngineForInput b = isEngineForInput a" using s by (simp_all add: same_def)
  have "same_res (andthen (ActionInterrupt eng) (thenGround (ActionExecute eng c)) a) (andthen (ActionInterrupt eng) (thenGround (ActionExecute eng c)) b)"
    "same_res (andthen (ActionInterrupt eng) (\<lambda>s. Inr (EnterEscape s)) a) (andthen (ActionInterrupt eng) (\<lambda>s. Inr (EnterEscape s)) b)"
    using same_Interrupt [OF s] by (rule same_andthen; simp)+
  with c f same_dispatch [OF s n out] show ?thesis
    by (simp add: ProcessCharacter.simps [of eng nested c a] ProcessCharacter.simps [of eng nested c b])
qed

lemma kind_ProcessCharacter:
  assumes "keeps_kind nested" and "ProcessCharacter eng nested c a = Inr s"
  shows "isEngineForInput s = isEngineForInput a"
proof -
  have "kept_res a (ProcessCharacter eng nested c a)"
    by (rule kept_ProcessCharacter) (use assms(1) in \<open>simp_all add: keeps_kind_def\<close>)
  with assms(2) show ?thesis by (simp add: kept_def)
qed

lemma same_ProcessCharacter:
  assumes s: "same a b" and n: "nested_same nested" and out: "\<not> isEngineForInput a"
  shows "same_res (ProcessCharacter eng nested c a) (ProcessCharacter eng nested c b)"
proof (cases "isC1ControlCharacter c")
  case True
  have c: "c \<noteq> CAN" "c \<noteq> SUB" using True by (auto simp: isC1ControlCharacter_def control_defs)
  have f: "acceptC1 b = acceptC1 a" using s by (simp add: same_def)
  have "same_res (case ProcessCharacter eng nested ESC a of Inl x \<Rightarrow> Inl x | Inr s \<Rightarrow> ProcessCharacter eng nested (c1To7Bit c) s)
      (case ProcessCharacter eng nested ESC b of Inl x \<Rightarrow> Inl x | Inr s \<Rightarrow> ProcessCharacter eng nested (c1To7Bit c) s)"
  proof (rule same_res_bind)
    show "same_res (ProcessCharacter eng nested ESC a) (ProcessCharacter eng nested ESC b)"
      by (rule same_ProcessCharacter_plain [OF s n out ESC_not_C1])
    fix a' b' assume "ProcessCharacter eng nested ESC a = Inr a'" "same a' b'"
    then show "same_res (ProcessCharacter eng nested (c1To7Bit c) a') (ProcessCharacter eng nested (c1To7Bit c) b')"
      using kind_ProcessCharacter n out by (intro same_ProcessCharacter_plain c1To7Bit_not_C1 [OF True]) (auto simp: nested_same_def)
  qed
  with True c f s show ?thesis by (subst (1 2) ProcessCharacter.simps) simp
qed (rule same_ProcessCharacter_plain [OF s n out])

end

subsection \<open>One character at a time\<close>

fun feed :: "'e engine \<Rightarrow> (wstring \<Rightarrow> 'e step) \<Rightarrow> wstring \<Rightarrow> 'e step" where
  "feed eng nested [] sm = Inr sm"
| "feed eng nested (c # cs) sm =
     (case ProcessCharacter eng nested c sm of Inl x \<Rightarrow> Inl x | Inr s \<Rightarrow> feed eng nested cs s)"

lemma feed_append:
  "feed eng nested (xs @ ys) sm = (case feed eng nested xs sm of Inl x \<Rightarrow> Inl x | Inr s \<Rightarrow> feed eng nested ys s)"
  by (induction xs arbitrary: sm) (auto split: sum.splits)

text \<open>The rest of a loop's work as characters still to feed.\<close>

definition then_feed :: "'e engine \<Rightarrow> (wstring \<Rightarrow> 'e step) \<Rightarrow> wstring \<Rightarrow> vt_error + nat \<times> 'e sm \<Rightarrow> vt_error + 'e sm" where
  "then_feed eng nested str r = (case r of Inl x \<Rightarrow> Inl x | Inr (j, s) \<Rightarrow> feed eng nested (drop j str) s)"

lemma then_feed_simps [simp]:
  "then_feed eng nested str (Inl x) = Inl x" "then_feed eng nested str (Inr (j, s)) = feed eng nested (drop j str) s"
  by (simp_all add: then_feed_def)

context chunk_blind
begin

lemma same_feed:
  assumes n: "nested_same nested"
  shows "same a b \<Longrightarrow> \<not> isEngineForInput a \<Longrightarrow> same_res (feed eng nested cs a) (feed eng nested cs b)"
proof (induction cs arbitrary: a b)
  case (Cons c cs)
  have "isEngineForInput s = isEngineForInput a" if "ProcessCharacter eng nested c a = Inr s" for s
    using kind_ProcessCharacter [OF _ that] n by (simp add: nested_same_def)
  then show ?case
    using Cons same_ProcessCharacter [OF Cons.prems(1) n Cons.prems(2), of c] by (auto intro!: same_res_bind)
qed simp

lemma vt_loop_feed:
  assumes n: "nested_same nested"
  shows "same a b \<Longrightarrow> \<not> isEngineForInput a \<Longrightarrow> same_res (then_feed eng nested str (vt_loop eng nested str i a)) (feed eng nested (drop i str) b)"
proof (induction "length str - i" arbitrary: i a b rule: less_induct)
  case less
  show ?case
  proof (cases "i < length str")
    case True
    define a0 where "a0 = a\<lparr>runSize := runSize a + 1, processingLastCharacter := (i + 1 \<ge> length str)\<rparr>"
    have s0: "same a0 b" "\<not> isEngineForInput a0" using less.prems by (simp_all add: a0_def)
    note P = same_ProcessCharacter [OF s0(1) n s0(2), of "str ! i"]
    have F: "feed eng nested (drop i str) b = (case ProcessCharacter eng nested (str ! i) b of Inl x \<Rightarrow> Inl x
        | Inr s \<Rightarrow> feed eng nested (drop (Suc i) str) s)"
      using True by (simp add: Cons_nth_drop_Suc [symmetric])
    have V: "vt_loop eng nested str i a = (case ProcessCharacter eng nested (str ! i) a0 of Inl x \<Rightarrow> Inl x
        | Inr s \<Rightarrow> if i + 1 < length str \<and> state s \<noteq> Ground then vt_loop eng nested str (i + 1) s else Inr (i + 1, s))"
      using True by (subst vt_loop.simps) (simp add: a0_def)
    show ?thesis
    proof (cases "ProcessCharacter eng nested (str ! i) a0")
      case (Inl x)
      with P V F show ?thesis by (cases "ProcessCharacter eng nested (str ! i) b") simp_all
    next
      case (Inr s)
      then obtain t where t: "ProcessCharacter eng nested (str ! i) b = Inr t" "same s t"
        using P by (cases "ProcessCharacter eng nested (str ! i) b") auto
      have o: "\<not> isEngineForInput s" using kind_ProcessCharacter [OF _ Inr] n s0(2) by (simp add: nested_same_def)
      have "length str - (i + 1) < length str - i" using True by linarith
      from less.hyps [OF this t(2) o] same_feed [OF n t(2) o] show ?thesis by (simp add: V F Inr t(1))
    qed
  next
    case False
    then show ?thesis using less.prems by (subst vt_loop.simps) simp
  qed
qed

lemma ProcessCharacter_print:
  assumes "printable c" and "state sm = Ground"
  shows "ProcessCharacter eng nested c sm = Inr (sm\<lparr>engine := pr c (engine sm)\<rparr>)"
proof -
  have c: "\<not> c \<le> 0x1F" "\<not> (0x7F \<le> c \<and> c \<le> 0x9F)" using assms(1) by (simp_all add: printable_def isActionable_iff)
  have "c \<noteq> CAN" "c \<noteq> SUB" "\<not> isEscape c" "\<not> isC0Code c" using c(1) C0_le by (auto simp: isEscape_def)
  moreover have "\<not> isC1ControlCharacter c" using c(2) unfolding isC1ControlCharacter_def by uint_arith
  moreover have "\<not> isDelete c" using c(2) by (auto simp: isDelete_def DEL_def)
  ultimately show ?thesis
    using assms(2) by (subst ProcessCharacter.simps)
      (simp add: dispatch_event_def EventGround_def ActionPrint_def SafeExecute_def call_engine_def prints)
qed

lemma feed_print:
  "\<forall>c \<in> set s. printable c \<Longrightarrow> state sm = Ground \<Longrightarrow> feed eng nested s sm = Inr (sm\<lparr>engine := fold pr s (engine sm)\<rparr>)"
  by (induction s arbitrary: sm) (simp_all add: ProcessCharacter_print)

lemma print_run_feed:
  assumes n: "nested_same nested" and s: "same a b" and out: "\<not> isEngineForInput a" and g: "state a = Ground"
    and c: "currentString a = str" and i: "i < length str"
  shows "same_res (then_feed eng nested str (print_run eng str i a)) (feed eng nested (drop i str) b)"
proof -
  define run where "run = FindActionableControlCharacter (drop i str)"
  define piece where "piece = take run (drop i str)"
  define e where "e = fold pr piece (engine a)"
  have d: "drop i str = piece @ drop (i + run) str" by (simp add: piece_def) (metis append_take_drop_id drop_drop add.commute)
  have p: "\<forall>c \<in> set piece. printable c" using Find_printable by (auto simp: piece_def run_def)
  have gb: "state b = Ground" "engine b = engine a" using s g by (simp_all add: same_def)
  have F: "feed eng nested (drop i str) b = feed eng nested (drop (i + run) str) (b\<lparr>engine := e\<rparr>)"
    using feed_print [OF p gb(1), of nested] gb(2) by (subst d) (simp add: feed_append e_def)
  show ?thesis
  proof (cases "run = 0")
    case True
    then have "print_run eng str i a = Inr (i, a\<lparr>runOffset := i, runSize := 0\<rparr>)"
      by (simp add: print_run_def Let_def run_def [symmetric])
    moreover have "same_res (feed eng nested (drop i str) (a\<lparr>runOffset := i, runSize := 0\<rparr>)) (feed eng nested (drop i str) b)"
      by (rule same_feed [OF n]) (use s out in simp_all)
    ultimately show ?thesis by simp
  next
    case False
    define a1 where "a1 = a\<lparr>runOffset := i, runSize := run\<rparr>"
    have "CurrentRun a1 = Some piece" using c i by (simp add: CurrentRun_def a1_def piece_def)
    moreover have "ActionPrintString eng piece a1 = Inr (a1\<lparr>engine := e\<rparr>)"
      by (simp add: ActionPrintString_def SafeExecute_def call_engine_def prints_run e_def a1_def)
    ultimately have "print_run eng str i a = Inr (i + run, a1\<lparr>engine := e, runOffset := i + run, runSize := 0\<rparr>)"
      using False by (simp add: print_run_def Let_def run_def [symmetric] a1_def [symmetric])
    moreover have "same_res (feed eng nested (drop (i + run) str) (a1\<lparr>engine := e, runOffset := i + run, runSize := 0\<rparr>))
        (feed eng nested (drop (i + run) str) (b\<lparr>engine := e\<rparr>))"
      by (rule same_feed [OF n]) (use s out in \<open>simp_all add: a1_def same_def\<close>)
    ultimately show ?thesis by (simp add: F)
  qed
qed

lemma print_run_keeps:
  assumes "print_run eng str i a = Inr (j, s)" and "currentString a = str" "i \<le> length str"
  shows "state s = state a" "isEngineForInput s = isEngineForInput a" "currentString s = str" "runOffset s \<le> length str"
  using assms Find_le [of "drop i str"]
  by (auto simp: print_run_def Let_def ActionPrintString_def SafeExecute_def call_engine_def prints_run CurrentRun_def split: if_splits)

end

lemma vt_loop_exit:
  assumes n: "keeps_kind nested"
  shows "vt_loop eng nested str i a = Inr (k, s) \<Longrightarrow> i < length str \<Longrightarrow>
    (k = length str \<or> state s = Ground) \<and> currentString s = currentString a \<and> runOffset s = runOffset a"
proof (induction "length str - i" arbitrary: i a rule: less_induct)
  case less
  let ?a = "a\<lparr>runSize := runSize a + 1, processingLastCharacter := (i + 1 \<ge> length str)\<rparr>"
  have kept: "kept_res ?a (ProcessCharacter eng nested (str ! i) ?a)"
    by (rule kept_ProcessCharacter) (use n in \<open>simp_all add: keeps_kind_def\<close>)
  show ?case
  proof (cases "ProcessCharacter eng nested (str ! i) ?a")
    case (Inr t)
    then have t: "currentString t = currentString a" "runOffset t = runOffset a" using kept by (simp_all add: kept_def)
    have "length str - (i + 1) < length str - i" using less.prems(2) by linarith
    note IH = less.hyps [OF this, of t]
    have "if i + 1 < length str \<and> state t \<noteq> Ground then vt_loop eng nested str (i + 1) t = Inr (k, s) else (i + 1, t) = (k, s)"
      using less.prems Inr by (subst (asm) vt_loop.simps) (auto split: if_splits)
    with IH t less.prems(2) show ?thesis by (auto split: if_splits)
  qed (use less.prems in \<open>subst (asm) vt_loop.simps, simp\<close>)
qed

context chunk_blind
begin

lemma string_loop_feed:
  assumes n: "nested_same nested"
  shows "same a b \<Longrightarrow> \<not> isEngineForInput a \<Longrightarrow> currentString a = str \<Longrightarrow> (i < length str \<longrightarrow> state a = Ground) \<Longrightarrow>
    same_res (string_loop eng nested str i a) (feed eng nested (drop i str) b)"
proof (induction "length str - i" arbitrary: i a b rule: less_induct)
  case less
  have k: "keeps_kind nested" using n by (simp add: nested_same_def)
  show ?case
  proof (cases "i < length str")
    case False
    with less.prems show ?thesis by (subst string_loop.simps) simp
  next
    case True
    with less.prems have g: "state a = Ground" by simp
    note P = print_run_feed [OF n less.prems(1,2) g less.prems(3) True]
    show ?thesis
    proof (cases "print_run eng str i a")
      case (Inl x)
      with P True show ?thesis by (subst string_loop.simps) simp
    next
      case (Inr p)
      obtain j s where p: "p = (j, s)" by (cases p)
      note K = print_run_keeps [OF Inr [unfolded p] less.prems(3)]
      have ks: "state s = Ground" "\<not> isEngineForInput s" "currentString s = str" "i \<le> j"
        using K g less.prems(2) True print_run_progress [OF Inr [unfolded p]] by simp_all
      show ?thesis
      proof (cases "j < length str")
        case False
        with P Inr p True show ?thesis by (subst string_loop.simps) simp
      next
        case jl: True
        note V = vt_loop_feed [OF n same_refl ks(2), of str j]
        have L: "string_loop eng nested str i a = (case vt_loop eng nested str j s of Inl x \<Rightarrow> Inl x
            | Inr (m, t) \<Rightarrow> string_loop eng nested str m t)"
          using True jl Inr p by (subst string_loop.simps) simp
        have "same_res (string_loop eng nested str i a) (then_feed eng nested str (vt_loop eng nested str j s))"
        proof (cases "vt_loop eng nested str j s")
          case vr: (Inr w)
          obtain m t where w: "w = (m, t)" by (cases w)
          have "isEngineForInput t = isEngineForInput s" using vt_loop_kind [OF k vr [unfolded w]] by (simp add: same_kind_def)
          then have t: "\<not> isEngineForInput t" "currentString t = str" "m < length str \<longrightarrow> state t = Ground" "j < m"
            using ks vt_loop_exit [OF k vr [unfolded w] jl] vt_loop_progress [OF vr [unfolded w] jl] by auto
          then have "length str - m < length str - i" using ks(4) True by linarith
          from less.hyps [OF this same_refl t(1-3)] show ?thesis by (simp add: L vr w)
        qed (simp add: L)
        from same_res_trans [OF this V] P Inr p show ?thesis by (auto intro: same_res_trans)
      qed
    qed
  qed
qed

lemma string_loop_run:
  assumes k: "keeps_kind nested"
  shows "string_loop eng nested str i a = Inr s \<Longrightarrow> currentString a = str \<Longrightarrow> runOffset a \<le> length str \<Longrightarrow>
    currentString s = str \<and> runOffset s \<le> length str"
proof (induction "length str - i" arbitrary: i a rule: less_induct)
  case less
  show ?case
  proof (cases "i < length str")
    case True
    obtain j t where p: "print_run eng str i a = Inr (j, t)"
      using less.prems(1) True by (subst (asm) string_loop.simps) (auto split: sum.splits)
    note K = print_run_keeps [OF p less.prems(2)] print_run_progress [OF p]
    show ?thesis
    proof (cases "j < length str")
      case False
      with less.prems(1) p True have "s = t" by (subst (asm) string_loop.simps) simp
      with K True show ?thesis by simp
    next
      case jl: True
      obtain m u where v: "vt_loop eng nested str j t = Inr (m, u)" and l: "string_loop eng nested str m u = Inr s"
        using less.prems(1) p True jl by (subst (asm) string_loop.simps) (auto split: sum.splits)
      have "length str - m < length str - i" using vt_loop_progress [OF v jl] K(5) True by linarith
      from less.hyps [OF this l] vt_loop_exit [OF k v jl] K True show ?thesis by simp
    qed
  qed (use less.prems in \<open>subst (asm) string_loop.simps, simp\<close>)
qed

lemma finish_string_out:
  assumes "\<not> isEngineForInput sm" and "runOffset sm \<le> length (currentString sm)"
  shows "\<exists>t. finish_string eng sm = Inr t \<and> same sm t"
  using assms by (auto simp: finish_string_def CurrentRun_def)

text \<open>\<^verbatim>\<open>ProcessString\<close> up to its last step does what feeding the characters one by one does.\<close>

definition string_body :: "(wstring \<Rightarrow> 'e step) \<Rightarrow> wstring \<Rightarrow> 'e step" where
  "string_body nested str a =
     (if state a \<noteq> Ground
      then (if str = [] then Inr a else case vt_loop eng nested str 0 a of Inl x \<Rightarrow> Inl x | Inr (i, s) \<Rightarrow> string_loop eng nested str i s)
      else string_loop eng nested str 0 a)"

lemma process_with_body:
  "process_with eng nested str a =
     (case string_body nested str (start_string str a) of Inl x \<Rightarrow> Inl x | Inr t \<Rightarrow> finish_string eng t)"
  by (simp add: process_with_def string_body_def Let_def)

lemma string_body_feed:
  assumes n: "nested_same nested" and s: "same a b" "\<not> isEngineForInput a" "currentString a = str"
  shows "same_res (string_body nested str a) (feed eng nested str b)"
proof (cases "state a \<noteq> Ground \<and> str \<noteq> []")
  case True
  have k: "keeps_kind nested" using n by (simp add: nested_same_def)
  from True have ne: "0 < length str" by simp
  have "same_res (string_body nested str a) (then_feed eng nested str (vt_loop eng nested str 0 a))"
  proof (cases "vt_loop eng nested str 0 a")
    case (Inr w)
    obtain m t where w: "w = (m, t)" by (cases w)
    have "isEngineForInput t = isEngineForInput a" using vt_loop_kind [OF k Inr [unfolded w]] by (simp add: same_kind_def)
    with string_loop_feed [OF n same_refl, of t str m] vt_loop_exit [OF k Inr [unfolded w] ne] s True
    show ?thesis by (auto simp: string_body_def Inr w)
  qed (use True in \<open>simp add: string_body_def\<close>)
  with vt_loop_feed [OF n s(1,2), of str 0] show ?thesis by (auto intro: same_res_trans)
next
  case False
  with string_loop_feed [OF n s, of 0] s(1) show ?thesis by (auto simp: string_body_def)
qed

lemma string_body_run:
  assumes k: "keeps_kind nested" and r: "string_body nested str a = Inr t" and a: "currentString a = str" "runOffset a \<le> length str"
  shows "runOffset t \<le> length (currentString t)" and "same_kind a t"
proof -
  have "currentString t = str \<and> runOffset t \<le> length str \<and> same_kind a t"
  proof (cases "state a \<noteq> Ground \<and> str \<noteq> []")
    case True
    with r obtain m s where v: "vt_loop eng nested str 0 a = Inr (m, s)" and l: "string_loop eng nested str m s = Inr t"
      by (auto simp: string_body_def split: sum.splits)
    have ne: "0 < length str" using True by simp
    from vt_loop_exit [OF k v ne] string_loop_run [OF k l] a vt_loop_kind [OF k v] string_loop_kind [OF k l]
    show ?thesis by (auto intro: same_kind_trans)
  next
    case False
    with r a string_loop_run [OF k, of str 0 a t] string_loop_kind [OF k, of eng str 0 a t] show ?thesis
      by (auto simp: string_body_def same_kind_def split: if_splits)
  qed
  then show "runOffset t \<le> length (currentString t)" and "same_kind a t" by simp_all
qed

lemma process_with_feed:
  assumes n: "nested_same nested" and s: "same a b" and out: "\<not> isEngineForInput a"
  shows "same_res (process_with eng nested str a) (feed eng nested str b)"
proof -
  have k: "keeps_kind nested" using n by (simp add: nested_same_def)
  define a0 where "a0 = start_string str a"
  have a0: "same a0 b" "\<not> isEngineForInput a0" "currentString a0 = str" "runOffset a0 \<le> length str"
    using s out by (simp_all add: a0_def) (simp_all add: start_string_def)
  have "same_res (string_body nested str a0) (case string_body nested str a0 of Inl x \<Rightarrow> Inl x | Inr t \<Rightarrow> finish_string eng t)"
  proof (cases "string_body nested str a0")
    case (Inr t)
    have "runOffset t \<le> length (currentString t)" "\<not> isEngineForInput t"
      using string_body_run [OF k Inr a0(3,4)] a0(2) by (simp_all add: same_kind_def)
    with finish_string_out [of t] Inr show ?thesis by auto
  qed simp
  with string_body_feed [OF n a0(1-3)] show ?thesis
    unfolding process_with_body a0_def [symmetric] by (metis same_res_sym same_res_trans)
qed

lemma ProcessString_same: "nested_same (ProcessString eng n)"
proof (induction n)
  case (Suc n)
  have "same_res (process_with eng (ProcessString eng n) s a) (process_with eng (ProcessString eng n) s b)"
    if "same a b" "\<not> isEngineForInput a" for s a b
  proof -
    have "\<not> isEngineForInput b" using that by (simp add: same_def)
    from process_with_feed [OF Suc same_refl this, of s] process_with_feed [OF Suc that] show ?thesis
      by (metis same_res_sym same_res_trans)
  qed
  then show ?case using ProcessString_kind [of eng "Suc n"] by (simp add: nested_same_def ProcessString_Suc del: ProcessString.simps)
qed (simp add: nested_same_def keeps_kind_def)

lemma ProcessStrings_feed:
  "same a b \<Longrightarrow> \<not> isEngineForInput a \<Longrightarrow>
   same_res (ProcessStrings eng (Suc n) ss a) (feed eng (ProcessString eng n) (concat ss) b)"
proof (induction ss arbitrary: a b)
  case (Cons s ss)
  note P = process_with_feed [OF ProcessString_same Cons.prems, of n s]
  have "same_res (case process_with eng (ProcessString eng n) s a of Inl x \<Rightarrow> Inl x | Inr t \<Rightarrow> ProcessStrings eng (Suc n) ss t)
      (case feed eng (ProcessString eng n) s b of Inl x \<Rightarrow> Inl x | Inr t \<Rightarrow> feed eng (ProcessString eng n) (concat ss) t)"
  proof (rule same_res_bind [OF P])
    fix t u assume t: "process_with eng (ProcessString eng n) s a = Inr t" and "same t u"
    have "isEngineForInput t = isEngineForInput a" using process_with_kind [OF ProcessString_kind t] by (simp add: same_kind_def)
    with Cons \<open>same t u\<close> show "same_res (ProcessStrings eng (Suc n) ss t) (feed eng (ProcessString eng n) (concat ss) u)" by blast
  qed
  then show ?case by (simp add: feed_append)
qed simp

end

subsection \<open>Chunks do not matter\<close>

text \<open>The engine that writes down what it is sent, printed text character by character.\<close>

definition char_log :: "vt_call list engine" where
  "char_log e v c = (Ret True, [], e @ (case c of CallPrintString s \<Rightarrow> map CallPrint s | _ \<Rightarrow> [c]))"

lemma fold_log: "fold (\<lambda>c e. e @ [CallPrint c]) s e = e @ map CallPrint s"
  by (induction s arbitrary: e) simp_all

interpretation char_log: chunk_blind char_log "\<lambda>c e. e @ [CallPrint c]"
  by unfold_locales (simp_all add: char_log_def fold_log)



end
