(* ===== verification/VT_Parser_Trace.thy ===== *)
theory VT_Parser_Trace
  imports VT_Parser_Feed
begin

text \<open>
  Round trips through the parser: a control sequence or an operating system command is written
  down the way an application would, fed to \<^verbatim>\<open>StateMachine::ProcessString\<close> in arbitrary chunks, and
  the call the engine gets is compared with what was written. \<open>loaded\<close> describes the parser in the
  middle of a parameter list; the lemmas follow the text character by character.
\<close>

subsection \<open>Control sequences as they are written\<close>

text \<open>A parameter with its sub-parameters; \<open>- 1\<close> is an omitted value.\<close>

type_synonym csi_param = "VTInt \<times> VTInt list"

definition value_text :: "VTInt \<Rightarrow> wstring" where
  "value_text v = (if v < 0 then [] else decimal (nat v))"

definition param_text :: "csi_param \<Rightarrow> wstring" where
  "param_text p = value_text (fst p) @ concat (map (\<lambda>s. 0x3A # value_text s) (snd p))"

fun params_text :: "csi_param list \<Rightarrow> wstring" where
  "params_text [] = []"
| "params_text [p] = param_text p"
| "params_text (p # q # ps) = param_text p @ 0x3B # params_text (q # ps)"

definition csi_param_ok :: "csi_param \<Rightarrow> bool" where
  "csi_param_ok p \<longleftrightarrow> param_ok (fst p) \<and> (\<forall>s \<in> set (snd p). param_ok s) \<and> length (snd p) \<le> MAX_SUBPARAMETER_COUNT"

definition params_of :: "csi_param list \<Rightarrow> vt_params" where
  "params_of ps = \<lparr>vp_params = map fst ps, vp_subParams = concat (map snd ps), vp_subParamRanges = ranges_of 0 (map (length \<circ> snd) ps)\<rparr>"

subsection \<open>Accumulating numerals\<close>

definition accumulate :: "VTInt \<Rightarrow> wstring \<Rightarrow> VTInt" where
  "accumulate v s = foldl (\<lambda>v c. AccumulateTo c (value_or v 0)) v s"

lemma accumulate_digit:
  assumes "d < 10"
  shows "AccumulateTo (of_nat (0x30 + d)) v = min (v * 10 + int d) 65535"
proof -
  have "d \<in> {0,1,2,3,4,5,6,7,8,9}" using assms by auto
  then show ?thesis by (elim insertE emptyE) (simp_all add: AccumulateTo_def Let_def MAX_PARAMETER_VALUE_def min_def)
qed

lemma accumulate_decimal: "n \<le> 65535 \<Longrightarrow> v \<le> 0 \<Longrightarrow> accumulate v (decimal n) = int n"
proof (induction n rule: decimal.induct)
  case (1 n)
  show ?case
  proof (cases "n < 10")
    case True
    then have "decimal n = [of_nat (0x30 + n)]" by (subst decimal.simps) simp
    then show ?thesis using accumulate_digit [OF True, of 0] 1(2,3) True by (auto simp: accumulate_def value_or_def)
  next
    case False
    then have d: "decimal n = decimal (n div 10) @ [of_nat (0x30 + n mod 10)]" by (subst decimal.simps) simp
    have "accumulate v (decimal n) = AccumulateTo (of_nat (0x30 + n mod 10)) (int (n div 10))"
      using 1 False by (simp add: d accumulate_def value_or_def)
    also have "\<dots> = min (int (n div 10) * 10 + int (n mod 10)) 65535" by (rule accumulate_digit) simp
    also have "int (n div 10) * 10 + int (n mod 10) = int n" by presburger
    finally show ?thesis using 1(2) by simp
  qed
qed

lemma value_text_accumulate: "param_ok v \<Longrightarrow> accumulate (- 1) (value_text v) = v"
proof (cases "v < 0")
  case True
  moreover assume "param_ok v"
  ultimately show ?thesis by (simp add: value_text_def accumulate_def param_ok_def)
next
  case False
  moreover assume "param_ok v"
  ultimately show ?thesis using accumulate_decimal [of "nat v" "- 1"]
    by (simp add: value_text_def param_ok_def MAX_PARAMETER_VALUE_def nat_le_iff)
qed

lemma digit_range: "d < 10 \<Longrightarrow> isNumericParamValue (of_nat (0x30 + d))"
proof -
  assume "d < 10"
  then have "d \<in> {0,1,2,3,4,5,6,7,8,9}" by auto
  then show ?thesis by (elim insertE emptyE) (simp_all add: isNumericParamValue_def)
qed

lemma decimal_digits: "\<forall>c \<in> set (decimal n). isNumericParamValue c"
proof (induction n rule: decimal.induct)
  case (1 n)
  then show ?case using digit_range [of n] digit_range [of "n mod 10"] by (subst decimal.simps) auto
qed

lemma decimal_not_Nil: "decimal n \<noteq> []"
  by (subst decimal.simps) simp

lemma value_text_digits: "\<forall>c \<in> set (value_text v). isNumericParamValue c"
  using decimal_digits by (simp add: value_text_def)

subsection \<open>Characters of a control sequence\<close>

definition plain_char :: "wchar \<Rightarrow> bool" where
  "plain_char c \<longleftrightarrow> 0x20 \<le> c \<and> c \<le> 0x7E"

lemma plain_char_event:
  assumes "plain_char c"
  shows "ProcessCharacter eng nested c sm = dispatch_event eng nested c sm" and "\<not> isC0Code c" and "\<not> isDelete c"
proof -
  have "c \<noteq> CAN" "c \<noteq> SUB" "\<not> isEscape c" "\<not> isC1ControlCharacter c"
    using assms by (auto simp: plain_char_def control_defs isEscape_def isC1ControlCharacter_def) uint_arith
  then show "ProcessCharacter eng nested c sm = dispatch_event eng nested c sm" by (subst ProcessCharacter.simps) simp
  show "\<not> isC0Code c" "\<not> isDelete c"
    using assms unfolding plain_char_def isC0Code_def isDelete_def control_defs by uint_arith+
qed

lemma char_classes:
  "isNumericParamValue c \<Longrightarrow> plain_char c \<and> \<not> isIntermediate c \<and> \<not> isParameterDelimiter c \<and> \<not> isSubParameterDelimiter c \<and> \<not> isCsiPrivateMarker c"
  "isIntermediate c \<Longrightarrow> plain_char c \<and> \<not> isNumericParamValue c \<and> \<not> isParameterDelimiter c \<and> \<not> isSubParameterDelimiter c \<and> \<not> isCsiPrivateMarker c"
  "isCsiPrivateMarker c \<Longrightarrow> plain_char c \<and> \<not> isNumericParamValue c \<and> \<not> isParameterDelimiter c \<and> \<not> isSubParameterDelimiter c \<and> \<not> isIntermediate c"
  unfolding isNumericParamValue_def plain_char_def isIntermediate_def isParameterDelimiter_def isSubParameterDelimiter_def isCsiPrivateMarker_def
  by (uint_arith | (elim disjE, simp_all))+

lemma delimiters:
  "plain_char 0x3A" "plain_char 0x3B" "\<not> isIntermediate 0x3A" "\<not> isIntermediate 0x3B" "\<not> isNumericParamValue 0x3A" "\<not> isNumericParamValue 0x3B"
  "isSubParameterDelimiter 0x3A" "\<not> isSubParameterDelimiter 0x3B" "isParameterDelimiter 0x3B" "\<not> isParameterDelimiter 0x3A"
  by (simp_all add: plain_char_def isIntermediate_def isNumericParamValue_def isSubParameterDelimiter_def isParameterDelimiter_def)

text \<open>What the two parameter states do with digits and delimiters.\<close>

lemma param_chars:
  assumes "state s = CsiParam"
  shows "isNumericParamValue c \<Longrightarrow> ProcessCharacter eng nested c s = Inr (ActionParam c s)"
    and "ProcessCharacter eng nested 0x3B s = Inr (ActionParam 0x3B s)"
    and "ProcessCharacter eng nested 0x3A s = andthen (ActionSubParam 0x3A) (\<lambda>s. Inr (EnterCsiSubParam s)) s"
    and "isIntermediate c \<Longrightarrow> ProcessCharacter eng nested c s = Inr (EnterCsiIntermediate (ActionCollect c s))"
  using char_classes(1,2) [of c] by (simp_all add: plain_char_event delimiters dispatch_event_def EventCsiParam_def assms)

lemma sub_param_chars:
  assumes "state s = CsiSubParam"
  shows "isNumericParamValue c \<Longrightarrow> ProcessCharacter eng nested c s = ActionSubParam c s"
    and "ProcessCharacter eng nested 0x3B s = Inr (EnterCsiParam (ActionParam 0x3B s))"
    and "ProcessCharacter eng nested 0x3A s = ActionSubParam 0x3A s"
    and "isIntermediate c \<Longrightarrow> ProcessCharacter eng nested c s = Inr (EnterCsiIntermediate (ActionCollect c s))"
  using char_classes(1,2) [of c] by (simp_all add: plain_char_event delimiters dispatch_event_def EventCsiSubParam_def assms)

subsection \<open>The parser in the middle of a parameter list\<close>

definition param_state :: "csi_param list \<Rightarrow> vt_state" where
  "param_state ps = (if snd (last ps) = [] then CsiParam else CsiSubParam)"

definition loaded :: "csi_param list \<Rightarrow> 'e sm \<Rightarrow> 'e sm" where
  "loaded ps sm = sm\<lparr>state := param_state ps, parameters := map fst ps, parameterLimitOverflowed := False,
     subParameters := concat (map snd ps), subParameterRanges := ranges_of 0 (map (length \<circ> snd) ps),
     subParameterLimitOverflowed := False, subParameterCounter := of_nat (length (snd (last ps)))\<rparr>"

lemma loaded_state: "state (loaded ps sm) = param_state ps"
  by (simp add: loaded_def)

lemma loaded_digit:
  assumes c: "isNumericParamValue c"
  shows "ProcessCharacter eng nested c (loaded (ps @ [(v, [])]) sm) = Inr (loaded (ps @ [(AccumulateTo c (value_or v 0), [])]) sm)"
proof -
  have "state (loaded (ps @ [(v, [])]) sm) = CsiParam" by (simp add: loaded_state param_state_def)
  from param_chars(1) [OF this c] show ?thesis
    using char_classes(1) [OF c] by (simp add: ActionParam_def) (simp add: loaded_def param_state_def)
qed

lemma loaded_sub_digit:
  assumes c: "isNumericParamValue c"
  shows "ProcessCharacter eng nested c (loaded (ps @ [(v, ss @ [w])]) sm) = Inr (loaded (ps @ [(v, ss @ [AccumulateTo c (value_or w 0)])]) sm)"
proof -
  have "state (loaded (ps @ [(v, ss @ [w])]) sm) = CsiSubParam" by (simp add: loaded_state param_state_def)
  from sub_param_chars(1) [OF this c] show ?thesis
    using char_classes(1) [OF c] unfolding ActionSubParam_def loaded_def Let_def by (simp add: param_state_def butlast_append)
qed

lemma loaded_ActionSubParam:
  assumes l: "length ss < MAX_SUBPARAMETER_COUNT"
  shows "ActionSubParam 0x3A (loaded (ps @ [(v, ss)]) sm) = Inr (loaded (ps @ [(v, ss @ [- 1])]) sm\<lparr>state := param_state (ps @ [(v, ss)])\<rparr>)"
proof -
  have u: "unat (of_nat (length ss) :: byte) = length ss" using l by (simp add: unat_of_nat MAX_SUBPARAMETER_COUNT_def)
  have b: "bump_last_range (ranges_of 0 (map (length \<circ> snd) (ps @ [(v, ss)]))) = ranges_of 0 (map (length \<circ> snd) (ps @ [(v, ss @ [- 1])]))"
    by (simp add: bump_last_range_def ranges_of_append ac_simps)
  have r: "ranges_of 0 (map (length \<circ> snd) (ps @ [(v, ss)])) \<noteq> []" by (simp add: ranges_of_append)
  note b [simp del] r [simp del]
  show ?thesis
    using l u b r unfolding loaded_def ActionSubParam_def Let_def
    by (simp add: delimiters VTParameter_omitted_def del: map_append list.map add: add.commute) simp
qed

lemma loaded_colon:
  assumes l: "length ss < MAX_SUBPARAMETER_COUNT"
  shows "ProcessCharacter eng nested 0x3A (loaded (ps @ [(v, ss)]) sm) = Inr (loaded (ps @ [(v, ss @ [- 1])]) sm)"
proof -
  have s: "loaded (ps @ [(v, ss @ [- 1])]) sm\<lparr>state := CsiSubParam\<rparr> = loaded (ps @ [(v, ss @ [- 1])]) sm"
    by (simp add: loaded_def param_state_def)
  show ?thesis
  proof (cases "ss = []")
    case True
    then have "state (loaded (ps @ [(v, ss)]) sm) = CsiParam" by (simp add: loaded_state param_state_def)
    then show ?thesis using loaded_ActionSubParam [OF l, of ps v sm] s by (simp add: param_chars(3) andthen_def EnterCsiSubParam_def)
  next
    case False
    then have st: "state (loaded (ps @ [(v, ss)]) sm) = CsiSubParam" "param_state (ps @ [(v, ss)]) = CsiSubParam"
      by (simp_all add: loaded_state param_state_def)
    then show ?thesis using loaded_ActionSubParam [OF l, of ps v sm] s by (simp add: sub_param_chars(3))
  qed
qed

lemma loaded_ActionParam:
  assumes l: "length ps < MAX_PARAMETER_COUNT" and ne: "ps \<noteq> []"
  shows "ActionParam 0x3B (loaded ps sm) = loaded (ps @ [(- 1, [])]) sm\<lparr>state := param_state ps\<rparr>"
proof -
  have r: "ranges_of 0 (map (length \<circ> snd) (ps @ [(- 1, [])])) = ranges_of 0 (map (length \<circ> snd) ps) @
      [(of_nat (length (concat (map snd ps))), of_nat (length (concat (map snd ps))))]"
    by (simp add: ranges_of_append length_concat comp_def)
  show ?thesis
    unfolding loaded_def ActionParam_def push_parameter_def Let_def r
    using l ne by (simp add: delimiters VTParameter_omitted_def)
qed

lemma loaded_semicolon:
  assumes l: "length ps < MAX_PARAMETER_COUNT" and ne: "ps \<noteq> []"
  shows "ProcessCharacter eng nested 0x3B (loaded ps sm) = Inr (loaded (ps @ [(- 1, [])]) sm)"
proof -
  have s: "loaded (ps @ [(- 1, [])]) sm\<lparr>state := CsiParam\<rparr> = loaded (ps @ [(- 1, [])]) sm"
    by (simp add: loaded_def param_state_def)
  have "state (loaded ps sm) = CsiParam \<or> state (loaded ps sm) = CsiSubParam" by (simp add: loaded_state param_state_def)
  then show ?thesis
    using loaded_ActionParam [OF assms, of sm] s
    by (elim disjE) (simp_all add: param_chars(2) sub_param_chars(2) EnterCsiParam_def loaded_state)
qed

subsection \<open>Whole parameter lists\<close>

lemma feed_digits:
  "\<forall>c \<in> set ds. isNumericParamValue c \<Longrightarrow>
   feed eng nested ds (loaded (ps @ [(v, [])]) sm) = Inr (loaded (ps @ [(accumulate v ds, [])]) sm)"
  by (induction ds arbitrary: v) (simp_all add: loaded_digit accumulate_def)

lemma feed_sub_digits:
  "\<forall>c \<in> set ds. isNumericParamValue c \<Longrightarrow>
   feed eng nested ds (loaded (ps @ [(v, ss @ [w])]) sm) = Inr (loaded (ps @ [(v, ss @ [accumulate w ds])]) sm)"
  by (induction ds arbitrary: w) (simp_all add: loaded_sub_digit accumulate_def)

lemma feed_subs:
  "\<forall>s \<in> set ss. param_ok s \<Longrightarrow> length rs + length ss \<le> MAX_SUBPARAMETER_COUNT \<Longrightarrow>
   feed eng nested (concat (map (\<lambda>s. 0x3A # value_text s) ss)) (loaded (ps @ [(v, rs)]) sm) = Inr (loaded (ps @ [(v, rs @ ss)]) sm)"
proof (induction ss arbitrary: rs)
  case (Cons s ss)
  then show ?case using Cons.IH [of "rs @ [s]"]
    by (simp add: loaded_colon feed_append feed_sub_digits value_text_digits value_text_accumulate)
qed simp

lemma feed_param:
  assumes "csi_param_ok p"
  shows "feed eng nested (param_text p) (loaded (ps @ [(- 1, [])]) sm) = Inr (loaded (ps @ [p]) sm)"
  using assms feed_subs [of "snd p" "[]" eng nested ps "fst p" sm]
  by (simp add: csi_param_ok_def param_text_def feed_append feed_digits value_text_digits value_text_accumulate)

lemma feed_params:
  "\<forall>p \<in> set ps. csi_param_ok p \<Longrightarrow> ps \<noteq> [] \<Longrightarrow> length qs + length ps \<le> MAX_PARAMETER_COUNT \<Longrightarrow>
   feed eng nested (params_text ps) (loaded (qs @ [(- 1, [])]) sm) = Inr (loaded (qs @ ps) sm)"
proof (induction ps arbitrary: qs rule: params_text.induct)
  case (3 p q ps)
  then show ?case using "3.IH" [of "qs @ [p]"] by (simp add: feed_append feed_param loaded_semicolon)
qed (simp_all add: feed_param)

subsection \<open>From the introducer to the final character\<close>

definition cleared :: "vt_state \<Rightarrow> id_builder \<Rightarrow> 'e sm \<Rightarrow> 'e sm" where
  "cleared st b sm = ActionClear (sm\<lparr>state := st\<rparr>)\<lparr>idBuilder := b\<rparr>"

definition param_char :: "wchar \<Rightarrow> bool" where
  "param_char c \<longleftrightarrow> isNumericParamValue c \<or> c = 0x3A \<or> c = 0x3B"

lemma params_text_first: "params_text ps = c # cs \<Longrightarrow> param_char c"
proof -
  assume "params_text ps = c # cs"
  moreover have "\<forall>c \<in> set (params_text ps). param_char c"
    using value_text_digits by (induction ps rule: params_text.induct) (auto simp: param_text_def param_char_def)
  ultimately show ?thesis by simp
qed

lemma action_ensure:
  "\<not> parameterLimitOverflowed s \<Longrightarrow> ActionParam c (ensure_parameter s) = ActionParam c s"
  "\<not> subParameterLimitOverflowed s \<Longrightarrow> ActionSubParam c (ensure_parameter s) = ActionSubParam c s"
  by (simp_all add: ensure_parameter_def ActionParam_def ActionSubParam_def push_parameter_def Let_def)

lemma action_state:
  "ActionParam c (s\<lparr>state := x\<rparr>) = ActionParam c s\<lparr>state := x\<rparr>"
  "ActionSubParam c (s\<lparr>state := x\<rparr>) = map_sum id (\<lambda>t. t\<lparr>state := x\<rparr>) (ActionSubParam c s)"
  by (simp_all add: ActionParam_def ActionSubParam_def push_parameter_def Let_def)

lemma cleared_loaded: "ensure_parameter (cleared st b sm) = loaded [(- 1, [])] (cleared st b sm)\<lparr>state := st\<rparr>"
  by (simp add: ensure_parameter_def cleared_def loaded_def push_parameter_def ActionClear_def VTParameter_omitted_def Let_def)

lemma cleared_actions:
  "ActionParam c (cleared st b sm) = ActionParam c (loaded [(- 1, [])] (cleared st b sm))\<lparr>state := st\<rparr>"
  "ActionSubParam c (cleared st b sm) = map_sum id (\<lambda>t. t\<lparr>state := st\<rparr>) (ActionSubParam c (loaded [(- 1, [])] (cleared st b sm)))"
proof -
  have "\<not> parameterLimitOverflowed (cleared st b sm)" "\<not> subParameterLimitOverflowed (cleared st b sm)"
    by (simp_all add: cleared_def ActionClear_def)
  note E = action_ensure(1) [OF this(1)] action_ensure(2) [OF this(2)]
  show "ActionParam c (cleared st b sm) = ActionParam c (loaded [(- 1, [])] (cleared st b sm))\<lparr>state := st\<rparr>"
    using E(1) [of c] by (simp add: cleared_loaded action_state)
  show "ActionSubParam c (cleared st b sm) = map_sum id (\<lambda>t. t\<lparr>state := st\<rparr>) (ActionSubParam c (loaded [(- 1, [])] (cleared st b sm)))"
    using E(2) [of c] by (simp add: cleared_loaded action_state)
qed

lemma entry_chars:
  assumes "state s = CsiEntry"
  shows "isNumericParamValue c \<Longrightarrow> ProcessCharacter eng nested c s = Inr (EnterCsiParam (ActionParam c s))"
    and "ProcessCharacter eng nested 0x3B s = Inr (EnterCsiParam (ActionParam 0x3B s))"
    and "ProcessCharacter eng nested 0x3A s = andthen (ActionSubParam 0x3A) (\<lambda>s. Inr (EnterCsiSubParam s)) s"
    and "isIntermediate c \<Longrightarrow> ProcessCharacter eng nested c s = Inr (EnterCsiIntermediate (ActionCollect c s))"
  using char_classes(1,2) [of c] by (simp_all add: plain_char_event delimiters dispatch_event_def EventCsiEntry_def assms)

lemma entry_marker:
  "state s = CsiEntry \<Longrightarrow> isCsiPrivateMarker c \<Longrightarrow> ProcessCharacter eng nested c s = Inr (EnterCsiParam (ActionCollect c s))"
  using char_classes(3) [of c] by (simp add: plain_char_event dispatch_event_def EventCsiEntry_def)

lemma state_ActionParam: "state (ActionParam c s) = state s"
  by (simp add: ActionParam_def push_parameter_def Let_def)

lemma cleared_first:
  assumes st: "st = CsiEntry \<or> st = CsiParam" and c: "param_char c"
  shows "ProcessCharacter eng nested c (cleared st b sm) = ProcessCharacter eng nested c (loaded [(- 1, [])] (cleared st b sm))"
proof -
  let ?l = "loaded [(- 1, [])] (cleared st b sm)"
  have s: "state (cleared st b sm) = st" "state ?l = CsiParam" by (simp_all add: cleared_def ActionClear_def loaded_def param_state_def)
  have a: "ActionParam x ?l\<lparr>state := CsiParam\<rparr> = ActionParam x ?l" for x
    using s(2) state_ActionParam [of x ?l] by simp
  have b: "andthen (ActionSubParam x) (\<lambda>s. Inr (EnterCsiSubParam s)) (cleared st b sm) = andthen (ActionSubParam x) (\<lambda>s. Inr (EnterCsiSubParam s)) ?l" for x
    unfolding andthen_def cleared_actions by (cases "ActionSubParam x ?l") (simp_all add: EnterCsiSubParam_def)
  show ?thesis
    using st c s a b
    by (elim disjE) (auto simp: param_char_def param_chars entry_chars EnterCsiParam_def cleared_actions(1))
qed

lemma feed_cleared:
  assumes st: "st = CsiEntry \<or> st = CsiParam" and ne: "params_text ps \<noteq> []"
    and ok: "\<forall>p \<in> set ps. csi_param_ok p" "length ps \<le> MAX_PARAMETER_COUNT"
  shows "feed eng nested (params_text ps) (cleared st b sm) = Inr (loaded ps (cleared st b sm))"
proof -
  obtain c cs where c: "params_text ps = c # cs" using ne by (cases "params_text ps") auto
  have "ps \<noteq> []" using ne by auto
  then have "feed eng nested (params_text ps) (loaded [(- 1, [])] (cleared st b sm)) = Inr (loaded ps (cleared st b sm))"
    using feed_params [of ps "[]"] ok by simp
  then show ?thesis using cleared_first [OF st params_text_first [OF c], of eng nested b sm] by (simp add: c)
qed

lemma params_text_Nil: "params_text ps = [] \<Longrightarrow> \<forall>p \<in> set ps. csi_param_ok p \<Longrightarrow> ps = [] \<or> ps = [(- 1, [])]"
  by (cases ps rule: params_text.cases)
     (auto simp: param_text_def value_text_def decimal_not_Nil csi_param_ok_def param_ok_def prod_eq_iff split: if_splits)

text \<open>The intermediates and the final character.\<close>

definition in_csi :: "'e sm \<Rightarrow> bool" where
  "in_csi s \<longleftrightarrow> state s \<in> {CsiEntry, CsiParam, CsiSubParam, CsiIntermediate}"

definition collected :: "wstring \<Rightarrow> 'e sm \<Rightarrow> 'e sm" where
  "collected is s = (if is = [] then s else s\<lparr>idBuilder := fold AddIntermediate is (idBuilder s), state := CsiIntermediate\<rparr>)"

lemma final_class:
  assumes "0x40 \<le> f" "f \<le> 0x7E"
  shows "plain_char f" "\<not> isIntermediate f" "\<not> isNumericParamValue f" "\<not> isParameterDelimiter f" "\<not> isSubParameterDelimiter f"
    "\<not> isCsiPrivateMarker f" "\<not> isParameterInvalid f" "\<not> isIntermediateInvalid f"
  using assms unfolding plain_char_def isIntermediate_def isNumericParamValue_def isParameterDelimiter_def isSubParameterDelimiter_def
    isCsiPrivateMarker_def isParameterInvalid_def isIntermediateInvalid_def
  by (uint_arith | auto)+

lemma final_dispatch:
  assumes "0x40 \<le> f" "f \<le> 0x7E" and "in_csi s"
  shows "ProcessCharacter eng nested f s = csi_final eng nested f s"
proof -
  note F = final_class [OF assms(1,2)]
  show ?thesis
    using assms(3) F plain_char_event(2,3) [OF F(1)] unfolding plain_char_event(1) [OF F(1)] in_csi_def
    by (auto simp: dispatch_event_def EventCsiEntry_def EventCsiParam_def EventCsiSubParam_def EventCsiIntermediate_def)
qed

lemma intermediate_step:
  assumes "isIntermediate c" and "in_csi s"
  shows "ProcessCharacter eng nested c s = Inr (collected [c] s)"
proof -
  note C = char_classes(2) [OF assms(1)]
  have p: "plain_char c" using C by simp
  show ?thesis
    using assms C plain_char_event(2,3) [OF p] unfolding plain_char_event(1) [OF p] in_csi_def
    by (auto simp: dispatch_event_def EventCsiEntry_def EventCsiParam_def EventCsiSubParam_def EventCsiIntermediate_def
        collected_def ActionCollect_def EnterCsiIntermediate_def)
qed

lemma feed_intermediates:
  "\<forall>c \<in> set is. isIntermediate c \<Longrightarrow> in_csi s \<Longrightarrow> feed eng nested is s = Inr (collected is s)"
proof (induction "is" arbitrary: s)
  case (Cons c "is")
  have "in_csi (collected [c] s)" by (simp add: in_csi_def collected_def)
  with Cons show ?case by (simp add: intermediate_step) (simp add: collected_def)
qed (simp add: collected_def)

subsection \<open>The sequence as a whole\<close>

text \<open>The private marker, when there is one.\<close>

definition marker_text :: "wchar option \<Rightarrow> wstring" where
  "marker_text pre = (case pre of None \<Rightarrow> [] | Some c \<Rightarrow> [c])"

definition csi_text :: "wchar option \<Rightarrow> csi_param list \<Rightarrow> wstring \<Rightarrow> wchar \<Rightarrow> wstring" where
  "csi_text pre ps is f = ESC # 0x5B # marker_text pre @ params_text ps @ is @ [f]"

definition csi_id :: "wchar option \<Rightarrow> wstring \<Rightarrow> wchar \<Rightarrow> VTID" where
  "csi_id pre is f = Finalize f (fold AddIntermediate (marker_text pre @ is) id_Clear)"

definition csi_ok :: "wchar option \<Rightarrow> csi_param list \<Rightarrow> wstring \<Rightarrow> wchar \<Rightarrow> bool" where
  "csi_ok pre ps is f \<longleftrightarrow> (\<forall>c \<in> set_option pre. isCsiPrivateMarker c) \<and> (\<forall>p \<in> set ps. csi_param_ok p) \<and>
     length ps \<le> MAX_PARAMETER_COUNT \<and> ps \<noteq> [(- 1, [])] \<and> (\<forall>c \<in> set is. isIntermediate c) \<and> 0x40 \<le> f \<and> f \<le> 0x7E"

definition interruptible :: "'e sm \<Rightarrow> bool" where
  "interruptible sm \<longleftrightarrow> ansi sm \<and> state sm \<notin> {OscParam, OscString, DcsPassThrough}"

lemma ESC_enters:
  assumes "interruptible sm"
  shows "ProcessCharacter eng nested ESC sm = Inr (EnterEscape sm)"
proof -
  have "ESC \<noteq> CAN" "ESC \<noteq> SUB" "\<not> isC1ControlCharacter ESC" "isEscape ESC"
    using ESC_not_C1 by (simp_all add: control_defs isEscape_def)
  then show ?thesis using assms by (subst ProcessCharacter.simps) (simp add: interruptible_def andthen_def ActionInterrupt_def)
qed

lemma introducer:
  assumes "interruptible sm"
  shows "feed eng nested [ESC, 0x5B] sm = Inr (cleared CsiEntry id_Clear sm)"
proof -
  have p: "plain_char 0x5B" by (simp add: plain_char_def)
  have "ProcessCharacter eng nested 0x5B (EnterEscape sm) = Inr (EnterCsiEntry (EnterEscape sm))"
    using assms plain_char_event(2,3) [OF p] unfolding plain_char_event(1) [OF p]
    by (simp add: dispatch_event_def EnterEscape_def EventEscape_def isIntermediate_def isCsiIndicator_def interruptible_def ActionClear_def)
  then show ?thesis
    by (simp add: ESC_enters [OF assms] EnterCsiEntry_def EnterEscape_def cleared_def) (simp add: ActionClear_def)
qed

lemma feed_prefix:
  assumes "\<forall>c \<in> set_option pre. isCsiPrivateMarker c"
  shows "\<exists>st. (st = CsiEntry \<or> st = CsiParam) \<and> feed eng nested (marker_text pre) (cleared CsiEntry id_Clear sm) =
    Inr (cleared st (fold AddIntermediate (marker_text pre) id_Clear) sm)"
proof (cases pre)
  case (Some c)
  have s: "state (cleared CsiEntry id_Clear sm) = CsiEntry" by (simp add: cleared_def ActionClear_def)
  from entry_marker [OF this, of c eng nested] Some assms show ?thesis
    by (intro exI [of _ CsiParam]) (simp add: marker_text_def EnterCsiParam_def ActionCollect_def, simp add: cleared_def ActionClear_def)
qed (auto simp: marker_text_def)

lemma feed_body:
  assumes st: "st = CsiEntry \<or> st = CsiParam" and ok: "csi_ok pre ps is f"
  obtains s where "feed eng nested (params_text ps) (cleared st b sm) = Inr s" "in_csi s" "parameters s = map fst ps"
    "subParameters s = concat (map snd ps)" "subParameterRanges s = ranges_of 0 (map (length \<circ> snd) ps)" "idBuilder s = b"
    "engine s = engine sm" "onCsiCompleteCallback s = onCsiCompleteCallback sm" "same_kind s sm"
proof (cases "params_text ps = []")
  case True
  then have "ps = []" using params_text_Nil [OF True] ok by (auto simp: csi_ok_def)
  with st show ?thesis by (intro that [of "cleared st b sm"]) (auto simp: in_csi_def cleared_def ActionClear_def same_kind_def)
next
  case False
  with st ok show ?thesis
    by (intro that [of "loaded ps (cleared st b sm)"] feed_cleared)
       (auto simp: csi_ok_def in_csi_def loaded_def cleared_def ActionClear_def param_state_def same_kind_def)
qed

lemma feed_then: "feed eng nested xs sm = Inr s \<Longrightarrow> feed eng nested (xs @ ys) sm = feed eng nested ys s"
  by (simp add: feed_append)

lemma feed_one: "feed eng nested [c] sm = ProcessCharacter eng nested c sm"
  by (cases "ProcessCharacter eng nested c sm") simp_all

lemma csi_text_split: "csi_text pre ps is f = [ESC, 0x5B] @ marker_text pre @ params_text ps @ is @ [f]"
  by (simp add: csi_text_def)

lemma csi_final_log:
  assumes "\<not> onCsiCompleteCallback s"
  shows "\<exists>t. csi_final char_log nested f s = Inr t \<and> state t = Ground \<and> engine t = engine s @ [CallCsiDispatch (Finalize f (idBuilder s))
      \<lparr>vp_params = parameters s, vp_subParams = subParameters s, vp_subParamRanges = subParameterRanges s\<rparr>]"
  using assms by (simp add: csi_final_def andthen_def thenGround_def ActionCsiDispatch_def SafeExecute_def call_engine_def char_log_def
      EnterGround_def ExecuteCsiCompleteCallback_def)

lemma feed_csi:
  assumes ok: "csi_ok pre ps is f" and sm: "interruptible sm" "\<not> onCsiCompleteCallback sm"
  shows "\<exists>t. feed char_log nested (csi_text pre ps is f) sm = Inr t \<and> state t = Ground \<and>
    engine t = engine sm @ [CallCsiDispatch (csi_id pre is f) (params_of ps)]"
proof -
  let ?b = "fold AddIntermediate (marker_text pre) id_Clear"
  obtain st where st: "st = CsiEntry \<or> st = CsiParam"
    and p: "feed char_log nested (marker_text pre) (cleared CsiEntry id_Clear sm) = Inr (cleared st ?b sm)"
    using feed_prefix [of pre char_log nested sm] ok by (auto simp: csi_ok_def)
  obtain s where s: "feed char_log nested (params_text ps) (cleared st ?b sm) = Inr s" "in_csi s" "parameters s = map fst ps"
    "subParameters s = concat (map snd ps)" "subParameterRanges s = ranges_of 0 (map (length \<circ> snd) ps)" "idBuilder s = ?b"
    "engine s = engine sm" "onCsiCompleteCallback s = onCsiCompleteCallback sm"
    using feed_body [OF st ok] by blast
  define u where "u = collected is s"
  have u: "feed char_log nested is s = Inr u" "in_csi u"
    using feed_intermediates [OF _ s(2)] ok s(2) by (auto simp: csi_ok_def u_def collected_def in_csi_def)
  have "ProcessCharacter char_log nested f u = csi_final char_log nested f u"
    using final_dispatch u(2) ok by (auto simp: csi_ok_def)
  moreover have "feed char_log nested (csi_text pre ps is f) sm = ProcessCharacter char_log nested f u"
    unfolding csi_text_split feed_then [OF introducer [OF sm(1)]] feed_then [OF p] feed_then [OF s(1)] feed_then [OF u(1)]
    by (rule feed_one)
  moreover have "\<not> onCsiCompleteCallback u" using s sm by (simp add: u_def collected_def)
  moreover have "Finalize f (idBuilder u) = csi_id pre is f" using s(6) by (simp add: u_def collected_def csi_id_def)
  moreover have "\<lparr>vp_params = parameters u, vp_subParams = subParameters u, vp_subParamRanges = subParameterRanges u\<rparr> = params_of ps"
    using s by (simp add: u_def collected_def params_of_def)
  moreover have "engine u = engine sm" using s by (simp add: u_def collected_def)
  ultimately show ?thesis using csi_final_log [of u nested f] by simp
qed

subsection \<open>Reading the call back\<close>

lemma ranges_of_nth:
  "i < length cs \<Longrightarrow> ranges_of a cs ! i = (of_nat (a + sum_list (take i cs)), of_nat (a + sum_list (take (Suc i) cs)))"
proof (induction cs arbitrary: a i)
  case (Cons c cs)
  then show ?case by (cases i) (simp_all add: ac_simps)
qed simp

lemma concat_slice:
  "i < length xs \<Longrightarrow> take (length (xs ! i)) (drop (sum_list (map length (take i xs))) (concat xs)) = xs ! i"
proof (induction xs arbitrary: i)
  case (Cons x xs)
  then show ?case by (cases i) simp_all
qed simp

lemma sum_list_bound: "(\<forall>c \<in> set cs. c \<le> k) \<Longrightarrow> sum_list cs \<le> k * length cs" for k :: nat
  by (induction cs) auto

lemma read_params:
  assumes ok: "\<forall>p \<in> set ps. csi_param_ok p" "length ps \<le> MAX_PARAMETER_COUNT" and i: "i < length ps"
  shows "vp_at (params_of ps) i = fst (ps ! i)" "subParamsFor (params_of ps) i = Some (snd (ps ! i))"
proof -
  let ?cs = "map (length \<circ> snd) ps"
  have t: "sum_list (take j ?cs) \<le> 192" for j
  proof -
    have "sum_list (take j ?cs) \<le> 6 * length (take j ?cs)"
      using ok(1) by (intro sum_list_bound) (auto simp: csi_param_ok_def MAX_SUBPARAMETER_COUNT_def dest!: in_set_takeD)
    then show ?thesis using ok(2) by (simp add: MAX_PARAMETER_COUNT_def min_def split: if_splits)
  qed
  have u: "unat (of_nat (sum_list (take j ?cs)) :: byte) = sum_list (take j ?cs)" for j
    using t [of j] by (simp add: unat_of_nat)
  have c: "sum_list (take (Suc i) ?cs) = sum_list (take i ?cs) + length (snd (ps ! i))"
    using i by (simp add: take_Suc_conv_app_nth)
  have l: "sum_list (take (Suc i) ?cs) \<le> length (concat (map snd ps))"
    using sum_list_append [of "take (Suc i) ?cs" "drop (Suc i) ?cs"] by (simp add: length_concat comp_def flip: take_map)
  have s: "take (length (snd (ps ! i))) (drop (sum_list (take i ?cs)) (concat (map snd ps))) = snd (ps ! i)"
    using concat_slice [of i "map snd ps"] i by (simp add: take_map)
  show "vp_at (params_of ps) i = fst (ps ! i)" using i by (simp add: vp_at_def params_of_def)
  show "subParamsFor (params_of ps) i = Some (snd (ps ! i))"
    using i u [of i] u [of "Suc i"] c l s
    by (simp add: subParamsFor_def params_of_def ranges_of_nth Let_def del: map_map take_map of_nat_add)
qed

lemma FromString_step:
  assumes "unat (v :: VTID) < 256 ^ n" "n \<le> 6"
  shows "unat (push_bit 8 v + ucast (c :: byte)) = 256 * unat v + unat c"
proof -
  have "(256::nat) ^ n \<le> 256 ^ 6" using assms(2) by (intro power_increasing) simp_all
  with assms(1) have v: "unat v < 256 ^ 6" by linarith
  have c: "unat c < 256" using unsigned_less [of c] by simp
  have uc: "unat (ucast c :: VTID) = unat c" using c by (simp add: unsigned_ucast_eq take_bit_nat_eq_self)
  have "unat (push_bit 8 v) = 256 * unat v"
    using v by (simp add: push_bit_eq_mult unat_word_ariths)
  then show ?thesis using v c uc by (simp add: unat_word_ariths)
qed

lemma FromString_bound: "length s \<le> 7 \<Longrightarrow> unat (VTID_FromString s) < 256 ^ length s"
proof (induction s)
  case (Cons c s)
  then have b: "unat (VTID_FromString s) < 256 ^ length s" by simp
  have c: "unat c < 256" using unsigned_less [of c] by simp
  have "unat (VTID_FromString (c # s)) = 256 * unat (VTID_FromString s) + unat c"
    using FromString_step [OF b, of c] Cons.prems by simp
  then show ?case using b c by simp
qed simp

lemma VTID_of_FromString:
  assumes "length s \<le> 7"
  shows "VTID_of (VTID_FromString s) = VTID_FromString s"
proof -
  have m: "(0x00FFFFFFFFFFFFFF :: VTID) = mask 56" by (simp add: mask_eq_exp_minus_1)
  have "(256::nat) ^ length s \<le> 256 ^ 7" using assms by (intro power_increasing) simp_all
  then have "unat (VTID_FromString s) < 2 ^ 56" using FromString_bound [OF assms] by simp
  then have "unat (take_bit 56 (VTID_FromString s)) = unat (VTID_FromString s)"
    by (simp only: unsigned_take_bit_eq take_bit_nat_eq_self)
  then show ?thesis unfolding VTID_of_def m take_bit_eq_mask [symmetric] by (simp only: word_unat_eq_iff)
qed

lemma FromString_snoc: "VTID_FromString (s @ [c]) = VTID_FromString s + push_bit (8 * length s) (ucast c)"
  by (induction s) (simp_all add: push_bit_add push_bit_push_bit add.commute)

lemma ucast_low: "(c :: wchar) < 0x100 \<Longrightarrow> (ucast (ucast c :: byte) :: VTID) = ucast c"
  by (simp add: word_less_nat_alt word_unat_eq_iff unsigned_ucast_eq unsigned_take_bit_eq take_bit_nat_eq_self)

lemma collect_FromString:
  "length cs \<le> 6 \<Longrightarrow> \<forall>c \<in> set cs. c < 0x100 \<Longrightarrow>
   fold AddIntermediate cs id_Clear = \<lparr>idAccumulator = VTID_FromString (map ucast cs), idShift = 8 * length cs\<rparr>"
proof (induction cs rule: rev_induct)
  case (snoc c cs)
  then show ?case by (simp add: AddIntermediate_def FromString_snoc ucast_low)
qed (simp add: id_Clear_def)

lemma csi_id_FromString:
  assumes ok: "csi_ok pre ps is f" and l: "length (marker_text pre @ is) \<le> 6"
  shows "csi_id pre is f = VTID_FromString (map ucast (marker_text pre @ is @ [f]))"
proof -
  let ?cs = "marker_text pre @ is"
  have low: "\<forall>c \<in> set (?cs @ [f]). c < 0x100"
  proof -
    have "c < 0x100" if "plain_char c" for c using that unfolding plain_char_def by uint_arith
    moreover have "\<forall>c \<in> set (?cs @ [f]). plain_char c"
      using ok char_classes(2,3) final_class(1) by (auto simp: csi_ok_def marker_text_def split: option.splits)
    ultimately show ?thesis by blast
  qed
  have "fold AddIntermediate ?cs id_Clear = \<lparr>idAccumulator = VTID_FromString (map ucast ?cs), idShift = 8 * length ?cs\<rparr>"
    using l low by (intro collect_FromString) auto
  then have "csi_id pre is f = VTID_of (VTID_FromString (map ucast ?cs) + push_bit (8 * length ?cs) (ucast f))"
    unfolding csi_id_def by (simp only: Finalize_def id_builder.simps)
  also have "VTID_FromString (map ucast ?cs) + push_bit (8 * length ?cs) (ucast f) = VTID_FromString (map ucast ?cs @ [ucast f])"
    unfolding FromString_snoc using low by (simp add: ucast_low)
  also have "VTID_of \<dots> = \<dots>" using l by (intro VTID_of_FromString) simp
  finally show ?thesis by simp
qed

lemma logs:
  assumes "\<not> isEngineForInput sm" and "feed char_log (ProcessString char_log n) (concat ss) sm = Inr t"
  shows "\<exists>u. ProcessStrings char_log (Suc n) ss sm = Inr u \<and> same u t"
proof -
  have "same_res (ProcessStrings char_log (Suc n) ss sm) (Inr t)"
    using char_log.ProcessStrings_feed [OF same_refl assms(1), of n ss] assms(2) by simp
  then show ?thesis by (cases "ProcessStrings char_log (Suc n) ss sm") auto
qed

text \<open>
  C3. A control sequence is read back as it was written. Take a private marker or none, at most 32
  parameters between omitted and 65535 with at most six sub-parameters each, intermediates and a
  final character, and write them down with their delimiters after \<^verbatim>\<open>ESC [\<close>. However the text is cut
  into chunks, and in whatever state outside a string the parser was before, the engine gets exactly
  one call: its parameters and sub-parameters are the ones written, position by position, and its
  identifier is the constant spelled by the marker, the intermediates and the final character, as
  long as there are at most six before the last.
\<close>

theorem csi_roundtrip:
  assumes "csi_ok pre ps is f" and "interruptible sm" and "\<not> onCsiCompleteCallback sm" and "\<not> isEngineForInput sm"
    and "concat ss = csi_text pre ps is f"
  shows "(\<exists>t. ProcessStrings char_log (Suc n) ss sm = Inr t \<and> state t = Ground \<and>
      engine t = engine sm @ [CallCsiDispatch (csi_id pre is f) (params_of ps)]) \<and>
    length (vp_params (params_of ps)) = length ps \<and>
    (\<forall>i < length ps. vp_at (params_of ps) i = fst (ps ! i) \<and> subParamsFor (params_of ps) i = Some (snd (ps ! i))) \<and>
    (length (marker_text pre @ is) \<le> 6 \<longrightarrow> csi_id pre is f = VTID_FromString (map ucast (marker_text pre @ is @ [f])))"
proof (intro conjI allI impI)
  obtain t where "feed char_log (ProcessString char_log n) (concat ss) sm = Inr t" "state t = Ground"
    "engine t = engine sm @ [CallCsiDispatch (csi_id pre is f) (params_of ps)]"
    using feed_csi [OF assms(1-3), of "ProcessString char_log n"] assms(5) by auto
  then show "\<exists>t. ProcessStrings char_log (Suc n) ss sm = Inr t \<and> state t = Ground \<and>
      engine t = engine sm @ [CallCsiDispatch (csi_id pre is f) (params_of ps)]"
    using logs [OF assms(4), of n ss] by (auto simp: same_def)
next
  show "length (vp_params (params_of ps)) = length ps" by (simp add: params_of_def)
next
  have ok: "\<forall>p \<in> set ps. csi_param_ok p" "length ps \<le> MAX_PARAMETER_COUNT" using assms(1) by (simp_all add: csi_ok_def)
  fix i assume "i < length ps"
  from read_params [OF ok this]
  show "vp_at (params_of ps) i = fst (ps ! i)" and "subParamsFor (params_of ps) i = Some (snd (ps ! i))" by simp_all
qed (rule csi_id_FromString [OF assms(1)])

text \<open>\<^verbatim>\<open>ESC [ ? 38:2 ; ; 7 $ p\<close> cut in two.\<close>

theorem csi_roundtrip_witness:
  "(\<exists>t. ProcessStrings char_log (Suc 0) [[ESC, 0x5B, 0x3F, 0x33], [0x38, 0x3A, 0x32, 0x3B, 0x3B, 0x37, 0x24, 0x70]] (init_sm [] False) = Inr t \<and>
      engine t = [CallCsiDispatch (csi_id (Some 0x3F) [0x24] 0x70) (params_of [(38, [2]), (- 1, []), (7, [])])]) \<and>
    csi_id (Some 0x3F) [0x24] 0x70 = VTID_FromString [0x3F, 0x24, 0x70]"
proof -
  have ok: "csi_ok (Some 0x3F) [(38, [2]), (- 1, []), (7, [])] [0x24] 0x70" by code_simp
  have s: "interruptible (init_sm [] False)" "\<not> onCsiCompleteCallback (init_sm [] False)" "\<not> isEngineForInput (init_sm [] False)"
    by (simp_all add: init_sm_def ActionClear_def interruptible_def)
  have c: "concat [[ESC, 0x5B, 0x3F, 0x33], [0x38, 0x3A, 0x32, 0x3B, 0x3B, 0x37, 0x24, 0x70]] = csi_text (Some 0x3F) [(38, [2]), (- 1, []), (7, [])] [0x24] 0x70"
    by code_simp
  have e: "engine (init_sm [] False) = []" by (simp add: init_sm_def ActionClear_def)
  from csi_roundtrip [OF ok s c, of 0] show ?thesis unfolding e by (auto simp: marker_text_def)
qed

subsection \<open>Operating system commands\<close>

lemma osc_char_event:
  assumes "osc_char c"
  shows "ProcessCharacter eng nested c sm = dispatch_event eng nested c sm" and "\<not> isOscTerminator c" and "\<not> isEscape c" and "\<not> isOscInvalid c"
proof -
  have ge: "0x20 \<le> c" and n1: "\<not> isC1ControlCharacter c" using assms by (simp_all add: osc_char_def)
  have "c \<noteq> CAN" "c \<noteq> SUB" and e: "\<not> isEscape c"
    using ge by (auto simp: control_defs isEscape_def) 
  with n1 show "ProcessCharacter eng nested c sm = dispatch_event eng nested c sm" by (subst ProcessCharacter.simps) simp
  show "\<not> isEscape c" by (rule e)
  show "\<not> isOscTerminator c" "\<not> isOscInvalid c"
    using ge unfolding isOscTerminator_def isOscInvalid_def control_defs by uint_arith+
qed

lemma osc_chars:
  "state s = OscString \<Longrightarrow> \<forall>c \<in> set cs. osc_char c \<Longrightarrow> feed eng nested cs s = Inr (s\<lparr>oscString := oscString s @ cs\<rparr>)"
proof (induction cs arbitrary: s)
  case (Cons c cs)
  have "ProcessCharacter eng nested c s = Inr (s\<lparr>oscString := oscString s @ [c]\<rparr>)"
    using Cons.prems by (simp add: osc_char_event dispatch_event_def EventOscString_def ActionOscPut_def)
  with Cons show ?case by simp
qed simp

lemma digit_osc: "isNumericParamValue c \<Longrightarrow> osc_char c"
  unfolding isNumericParamValue_def osc_char_def isC1ControlCharacter_def by uint_arith

lemma osc_digits:
  "state s = OscParam \<Longrightarrow> \<forall>c \<in> set ds. isNumericParamValue c \<Longrightarrow>
   feed eng nested ds s = Inr (s\<lparr>oscParameter := foldl (\<lambda>v c. AccumulateTo c v) (oscParameter s) ds\<rparr>)"
proof (induction ds arbitrary: s)
  case (Cons c ds)
  have "ProcessCharacter eng nested c s = Inr (s\<lparr>oscParameter := AccumulateTo c (oscParameter s)\<rparr>)"
    using Cons.prems by (simp add: digit_osc osc_char_event dispatch_event_def EventOscParam_def ActionOscParam_def)
  with Cons show ?case by simp
qed simp

lemma accumulate_plain:
  "\<forall>c \<in> set ds. isNumericParamValue c \<Longrightarrow> param_ok v \<and> 0 \<le> v \<Longrightarrow> foldl (\<lambda>v c. AccumulateTo c v) v ds = accumulate v ds"
proof (induction ds arbitrary: v)
  case (Cons c ds)
  then have "param_ok (AccumulateTo c v) \<and> 0 \<le> AccumulateTo c v" using AccumulateTo_bounds [of c v] by (simp add: value_or_def)
  with Cons show ?case by (simp add: accumulate_def value_or_def)
qed (simp add: accumulate_def)

lemma osc_number: "n \<le> 65535 \<Longrightarrow> foldl (\<lambda>v c. AccumulateTo c v) 0 (decimal n) = int n"
  by (simp add: accumulate_plain [OF decimal_digits] accumulate_decimal param_ok_def MAX_PARAMETER_VALUE_def)

definition osc_text :: "nat \<Rightarrow> wstring \<Rightarrow> bool \<Rightarrow> wstring" where
  "osc_text n s bel = [ESC, 0x5D] @ decimal n @ [0x3B] @ s @ (if bel then [BEL] else [ESC, 0x5C])"

definition osc_entered :: "'e sm \<Rightarrow> 'e sm" where
  "osc_entered sm = EnterOscParam (EnterEscape sm)"

lemma osc_introducer:
  assumes "interruptible sm"
  shows "feed eng nested [ESC, 0x5D] sm = Inr (osc_entered sm)"
proof -
  have p: "plain_char 0x5D" by (simp add: plain_char_def)
  have "ProcessCharacter eng nested 0x5D (EnterEscape sm) = Inr (EnterOscParam (EnterEscape sm))"
    using assms plain_char_event(2,3) [OF p] unfolding plain_char_event(1) [OF p]
    by (simp add: dispatch_event_def EnterEscape_def EventEscape_def isIntermediate_def isCsiIndicator_def isOscIndicator_def interruptible_def ActionClear_def)
  then show ?thesis by (simp add: ESC_enters [OF assms] osc_entered_def)
qed

lemma osc_terminated:
  assumes "state s = OscString"
  shows "\<exists>t. feed char_log nested (if bel then [BEL] else [ESC, 0x5C]) s = Inr t \<and> state t = Ground \<and>
    engine t = engine s @ [CallOscDispatch (oscParameter s) (oscString s)]"
proof (cases bel)
  case True
  have "ProcessCharacter char_log nested BEL s = thenGround (ActionOscDispatch char_log) s"
    using assms by (subst ProcessCharacter.simps) (simp add: control_defs isC1ControlCharacter_def isEscape_def dispatch_event_def EventOscString_def isOscTerminator_def)
  with True show ?thesis
    by (simp add: thenGround_def andthen_def ActionOscDispatch_def SafeExecute_def call_engine_def char_log_def EnterGround_def)
next
  case False
  have p: "plain_char 0x5C" by (simp add: plain_char_def)
  have "ProcessCharacter char_log nested ESC s = Inr (EnterOscTermination s)"
    using assms by (subst ProcessCharacter.simps) (simp add: control_defs isC1ControlCharacter_def isEscape_def dispatch_event_def EventOscString_def isOscTerminator_def)
  moreover have "ProcessCharacter char_log nested 0x5C (EnterOscTermination s) = thenGround (ActionOscDispatch char_log) (EnterOscTermination s)"
    unfolding plain_char_event(1) [OF p] by (simp add: dispatch_event_def EnterOscTermination_def EventOscTermination_def isStringTerminatorIndicator_def)
  ultimately show ?thesis using False
    by (simp add: thenGround_def andthen_def ActionOscDispatch_def SafeExecute_def call_engine_def char_log_def EnterGround_def EnterOscTermination_def)
qed

lemma feed_osc:
  assumes sm: "interruptible sm" and n: "n \<le> 65535" and s: "\<forall>c \<in> set s. osc_char c"
  shows "\<exists>t. feed char_log nested (osc_text n s bel) sm = Inr t \<and> state t = Ground \<and> engine t = engine sm @ [CallOscDispatch (int n) s]"
proof -
  define a where "a = osc_entered sm"
  have a: "state a = OscParam" "oscParameter a = 0" "oscString a = []" "engine a = engine sm"
    by (simp_all add: a_def osc_entered_def EnterOscParam_def EnterEscape_def ActionClear_def)
  define b where "b = a\<lparr>oscParameter := int n\<rparr>"
  have ab: "feed char_log nested (decimal n) a = Inr b"
    using osc_digits [OF a(1) decimal_digits] osc_number [OF n] a(2) by (simp add: b_def)
  have "osc_char 0x3B" by (simp add: osc_char_def isC1ControlCharacter_def)
  then have bc: "feed char_log nested [0x3B] b = Inr (EnterOscString b)"
    using a(1) by (simp add: feed_one osc_char_event dispatch_event_def EventOscParam_def isNumericParamValue_def isOscDelimiter_def b_def del: feed.simps)
  have cd: "feed char_log nested s (EnterOscString b) = Inr (EnterOscString b\<lparr>oscString := s\<rparr>)"
    using osc_chars [of "EnterOscString b" s] s a(3) by (simp add: EnterOscString_def b_def)
  have "feed char_log nested (osc_text n s bel) sm = feed char_log nested (if bel then [BEL] else [ESC, 0x5C]) (EnterOscString b\<lparr>oscString := s\<rparr>)"
    unfolding osc_text_def feed_then [OF osc_introducer [OF sm]] a_def [symmetric] feed_then [OF ab] feed_then [OF bc] feed_then [OF cd] ..
  moreover have "state (EnterOscString b\<lparr>oscString := s\<rparr>) = OscString" by (simp add: EnterOscString_def)
  ultimately show ?thesis
    using osc_terminated [of "EnterOscString b\<lparr>oscString := s\<rparr>" nested bel] a(4) by (simp add: EnterOscString_def b_def)
qed

text \<open>
  C4. An operating system command is read back as it was written: after \<^verbatim>\<open>ESC ]\<close>, a number up to
  65535, a semicolon and any text without control characters, ended by \<^verbatim>\<open>BEL\<close> or by \<^verbatim>\<open>ESC \\<close>, the engine
  gets one call with exactly that number and that text, wherever the chunks were cut.
\<close>

theorem osc_roundtrip:
  assumes "interruptible sm" and "\<not> isEngineForInput sm" and "n \<le> 65535" and "\<forall>c \<in> set s. osc_char c" and "concat ss = osc_text n s bel"
  shows "\<exists>t. ProcessStrings char_log (Suc k) ss sm = Inr t \<and> state t = Ground \<and> engine t = engine sm @ [CallOscDispatch (int n) s]"
proof -
  obtain t where "feed char_log (ProcessString char_log k) (concat ss) sm = Inr t" "state t = Ground" "engine t = engine sm @ [CallOscDispatch (int n) s]"
    using feed_osc [OF assms(1,3,4), of "ProcessString char_log k" bel] assms(5) by auto
  then show ?thesis using logs [OF assms(2), of k ss] by (auto simp: same_def)
qed

theorem osc_roundtrip_witness:
  "\<exists>t. ProcessStrings char_log (Suc 0) [[ESC, 0x5D, 0x39], [0x3B, 0x61, 0x4E2D, ESC], [0x5C]] (init_sm [] False) = Inr t \<and>
    state t = Ground \<and> engine t = [CallOscDispatch 9 [0x61, 0x4E2D]]"
proof -
  have s: "interruptible (init_sm [] False)" "\<not> isEngineForInput (init_sm [] False)" "engine (init_sm ([] :: vt_call list) False) = []"
    by (simp_all add: init_sm_def ActionClear_def interruptible_def)
  have c: "concat [[ESC, 0x5D, 0x39], [0x3B, 0x61, 0x4E2D, ESC], [0x5C]] = osc_text 9 [0x61, 0x4E2D] False" by code_simp
  have o: "\<forall>c \<in> set [0x61, 0x4E2D]. osc_char c" by (simp add: osc_char_def isC1ControlCharacter_def)
  from osc_roundtrip [OF s(1,2) _ o c, of 0] show ?thesis unfolding s(3) by simp
qed

end
