(* ===== verification/VT_Macro_Engine.thy ===== *)
theory VT_Macro_Engine
  imports VT_Parser_Strings VT_MacroBuffer
begin

text \<open>
  The macro buffer inside the output engine: \<^verbatim>\<open>AdaptDispatch::DefineMacro\<close> and
  \<^verbatim>\<open>AdaptDispatch::InvokeMacro\<close> (\<^verbatim>\<open>adaptDispatch.cpp\<close>) as \<^verbatim>\<open>OutputStateMachineEngine\<close> reaches them, around
  an arbitrary rest of the engine. The combination satisfies the parser's contract with nesting
  bounded by 16, so the parser returns on every input. A hard reset from inside a macro, which
  replaces the buffer while the old one is still being read, is outside this model.
\<close>

subsection \<open>The engine with its macro buffer\<close>

definition DECINVM :: VTID where "DECINVM = VTID_FromString (blit ''*z'')"
definition DECDMAC :: VTID where "DECDMAC = VTID_FromString (blit ''!z'')"

record 'b macro_host =
  rest :: 'b
  macroBuffer :: "macro_buffer option"
  macroHandler :: bool
  pendingMacro :: nat

text \<open>\<^verbatim>\<open>AdaptDispatch::InvokeMacro\<close>.\<close>

definition dispatch_InvokeMacro :: "VTInt \<Rightarrow> 'b macro_host \<Rightarrow> vt_effect list \<times> 'b macro_host" where
  "dispatch_InvokeMacro macroId h =
     (if macroBuffer h \<noteq> None then ([OnCsiComplete], h\<lparr>pendingMacro := nat macroId\<rparr>) else ([], h))"

text \<open>\<^verbatim>\<open>AdaptDispatch::DefineMacro\<close>: the reply says whether a handler is returned.\<close>

definition dispatch_DefineMacro :: "VTInt \<Rightarrow> VTInt \<Rightarrow> VTInt \<Rightarrow> 'b macro_host \<Rightarrow> vt_reply \<times> 'b macro_host" where
  "dispatch_DefineMacro macroId deleteControl encoding h =
     (let buf = (case macroBuffer h of None \<Rightarrow> new_macro_buffer | Some b \<Rightarrow> b)
      in case InitParser (nat macroId) deleteControl encoding buf of
           None \<Rightarrow> (Exn, h\<lparr>macroBuffer := Some buf\<rparr>)
         | Some (ok, b) \<Rightarrow> (Ret ok, h\<lparr>macroBuffer := Some b, macroHandler := ok\<rparr>))"

text \<open>
  The output engine, as far as macros go, around everything else it does (\<open>base\<close>): \<^verbatim>\<open>DECINVM\<close>
  registers the callback, \<^verbatim>\<open>DECDMAC\<close> returns the buffer's handler, the callback invokes the macro.
\<close>

definition macro_engine :: "'b engine \<Rightarrow> 'b macro_host engine" where
  "macro_engine base h v c =
     (case c of
        CallCsiDispatch i ps \<Rightarrow>
          (case base (rest h) v c of
             (r, xs, e) \<Rightarrow>
               if i = DECINVM \<and> \<not> hasSubParams ps
               then (case dispatch_InvokeMacro (value_or (vp_at ps 0) 0) (h\<lparr>rest := e\<rparr>) of (ys, h') \<Rightarrow> (r, xs @ ys, h'))
               else (r, xs, h\<lparr>rest := e\<rparr>))
      | CallDcsDispatch i ps \<Rightarrow>
          (case base (rest h) v c of
             (r, xs, e) \<Rightarrow>
               if i = DECDMAC
               then (case dispatch_DefineMacro (value_or (vp_at ps 0) 0) (value_or (vp_at ps 1) 0) (value_or (vp_at ps 2) 0)
                            (h\<lparr>rest := e\<rparr>) of (r', h') \<Rightarrow> (r', xs, h'))
               else (r, xs, h\<lparr>rest := e, macroHandler := False\<rparr>))
      | CallDcsChar ch \<Rightarrow>
          if macroHandler h then
            (case macroBuffer h of
               None \<Rightarrow> (Ret False, [], h)
             | Some b \<Rightarrow>
                 (case ParseDefinition ch b of
                    None \<Rightarrow> (Exn, [], h)
                  | Some (ok, b') \<Rightarrow> (Ret ok, [], h\<lparr>macroBuffer := Some b'\<rparr>)))
          else (case base (rest h) v c of (r, xs, e) \<Rightarrow> (r, xs, h\<lparr>rest := e\<rparr>))
      | CallCallback \<Rightarrow>
          (case macroBuffer h of
             None \<Rightarrow> (Ret True, [], h)
           | Some b \<Rightarrow>
               (case InvokeMacro_begin (pendingMacro h) b of
                  (None, b') \<Rightarrow> (Ret True, [], h\<lparr>macroBuffer := Some b'\<rparr>)
                | (Some s, b') \<Rightarrow> (Inject s, [], h\<lparr>macroBuffer := Some b'\<rparr>)))
      | CallCallbackDone \<Rightarrow> (Ret True, [], h\<lparr>macroBuffer := map_option InvokeMacro_end (macroBuffer h)\<rparr>)
      | _ \<Rightarrow> (case base (rest h) v c of (r, xs, e) \<Rightarrow> (r, xs, h\<lparr>rest := e\<rparr>)))"

definition new_host :: "'b \<Rightarrow> 'b macro_host" where
  "new_host e = \<lparr>rest = e, macroBuffer = None, macroHandler = False, pendingMacro = 0\<rparr>"

subsection \<open>The buffer is safe in every state\<close>

text \<open>
  A definition that failed may leave a repeat start beyond the emptied macro; a later terminator
  then computes a wrapped, hence hopelessly large, space requirement and fails as well.
\<close>

definition buffer_inv :: "macro_buffer \<Rightarrow> bool" where
  "buffer_inv b \<longleftrightarrow> mb_inv b \<and> unat (repeatStart b) \<le> unat MAX_SPACE"

lemma unat_uminus: "(w :: size_t) \<noteq> 0 \<Longrightarrow> unat (- w) = 2 ^ 64 - unat w"
proof -
  assume "w \<noteq> 0"
  then have "0 < uint w" by (simp add: order_less_le uint_0_iff)
  moreover have "uint w < 2 ^ 64" using uint_lt2p [of w] by simp
  ultimately have "uint (- w) = 2 ^ 64 - uint w" by (simp add: uint_word_ariths zmod_zminus1_eq_if)
  then have "int (unat (- w)) = 18446744073709551616 - int (unat w)" by simp
  moreover have "int (unat w) < 18446744073709551616" using \<open>uint w < 2 ^ 64\<close> by simp
  ultimately have "unat (- w) = 18446744073709551616 - unat w" by linarith
  then show ?thesis by simp
qed

lemma applyPendingRepeat_stale:
  assumes i: "buffer_inv b" and s: "length (active_text b) < unat (repeatStart b)"
  shows "applyPendingRepeat b = (if repeatCount b > 1 then Some (False, b) else Some (True, b\<lparr>repeatPending := False\<rparr>))"
proof (cases "repeatCount b > 1")
  case True
  have m: "mb_inv b" using i by (simp add: buffer_inv_def)
  define k where "k = unat (repeatStart b) - length (active_text b)"
  define n where "n = unat (repeatCount b) - 1"
  have k: "0 < k" "k \<le> 0x40000" using i s by (auto simp: k_def buffer_inv_def MAX_SPACE_def)
  have n: "0 < n" "n \<le> 65534" using True m by (auto simp: n_def word_less_nat_alt mb_inv_def)
  have L: "size_of (active_text b) - repeatStart b = - of_nat k"
    using s by (simp add: k_def size_of_def of_nat_diff)
  have c: "repeatCount b - 1 = of_nat n" using True by (simp add: n_def of_nat_diff word_less_nat_alt)
  have kn: "n * k \<le> 65534 * 0x40000" using n(2) k(2) by (rule mult_le_mono)
  then have u: "unat (of_nat (n * k) :: size_t) = n * k" by (simp add: unat_of_nat del: of_nat_mult)
  have "(of_nat (n * k) :: size_t) \<noteq> 0" using u n k by (metis mult_is_0 neq0_conv unat_0)
  from unat_uminus [OF this] u have "unat (- of_nat (n * k) :: size_t) = 2 ^ 64 - n * k" by simp
  moreover have "of_nat n * (- of_nat k) = (- of_nat (n * k) :: size_t)" by simp
  ultimately have "unat ((repeatCount b - 1) * (size_of (active_text b) - repeatStart b)) = 2 ^ 64 - n * k" by (simp only: L c)
  moreover have "unat (GetSpaceAvailable b) \<le> 0x40000" using space_available [OF m] by (simp add: MAX_SPACE_def)
  ultimately have "(repeatCount b - 1) * (size_of (active_text b) - repeatStart b) > GetSpaceAvailable b"
    using kn by (simp add: word_less_nat_alt)
  with True activeMacro_some [OF m] show ?thesis by (simp add: applyPendingRepeat_def Let_def active_text_def)
qed (use i in \<open>simp add: applyPendingRepeat_def\<close>)

definition keeps_buffer :: "size_t \<Rightarrow> (bool \<times> macro_buffer) option \<Rightarrow> bool" where
  "keeps_buffer d r \<longleftrightarrow> (case r of None \<Rightarrow> False | Some (ok, b) \<Rightarrow> buffer_inv b \<and> invokedDepth b = d)"

lemma keeps_buffer_simps [simp]:
  "keeps_buffer d (Some (ok, b)) \<longleftrightarrow> buffer_inv b \<and> invokedDepth b = d" "\<not> keeps_buffer d None"
  by (simp_all add: keeps_buffer_def)

lemma keeps_buffer_step:
  assumes "keeps_buffer d r" and "\<And>ok b. r = Some (ok, b) \<Longrightarrow> buffer_inv b \<Longrightarrow> invokedDepth b = d \<Longrightarrow> keeps_buffer d (f ok b)"
  shows "keeps_buffer d (case r of None \<Rightarrow> None | Some (ok, b) \<Rightarrow> f ok b)"
  using assms by (cases r) auto

lemma buffer_inv_updates [simp]:
  "buffer_inv (b\<lparr>parseState := q\<rparr>) = buffer_inv b" "buffer_inv (b\<lparr>decodedChar := c\<rparr>) = buffer_inv b"
  "buffer_inv (b\<lparr>repeatPending := p\<rparr>) = buffer_inv b"
  by (simp_all add: buffer_inv_def)

lemma grow_buffer: "buffer_inv b \<Longrightarrow> total_length b + length t \<le> unat MAX_SPACE \<Longrightarrow> buffer_inv (grow t b)"
  by (simp add: buffer_inv_def grow_inv)

lemma append_buffer: "buffer_inv b \<Longrightarrow> keeps_buffer (invokedDepth b) (appendToActiveMacro ch b)"
  using append_spec [of b ch] grow_buffer [of b "[ch]"] by (simp add: buffer_inv_def)

lemma repeat_buffer:
  assumes "buffer_inv b"
  shows "keeps_buffer (invokedDepth b) (applyPendingRepeat b)"
proof (cases "unat (repeatStart b) \<le> length (active_text b)")
  case True
  with assms applyPendingRepeat_spec [OF _ True] repeat_fits [of b] show ?thesis by (simp add: buffer_inv_def)
next
  case False
  with assms applyPendingRepeat_stale [OF assms] show ?thesis by simp
qed

lemma decode_buffer: "buffer_inv (snd (decodeHexDigit ch b)) = buffer_inv b"
  by (simp add: buffer_inv_def decode_simps)

lemma parse_state_buffer:
  assumes i: "buffer_inv b"
  shows "keeps_buffer (invokedDepth b) (parse_state ch b)"
proof -
  have m: "mb_inv b" using i by (simp add: buffer_inv_def)
  obtain hex b1 where h: "decodeHexDigit ch b = (hex, b1)" by (metis surj_pair)
  have i1: "buffer_inv b1" "invokedDepth b1 = invokedDepth b"
    using i decode_buffer [of ch b] decode_simps(7) [of ch b] by (simp_all add: h)
  have c: "unat (min (repeatCount b * 10 + ucast (ch - 0x30)) 65535 :: size_t) \<le> 65535" by (simp add: min_def word_le_nat_alt)
  have two: "keeps_buffer (invokedDepth b) (map_option (\<lambda>(ok, b2). (ok, b2\<lparr>decodedChar := 0, parseState := ExpectingHexDigit\<rparr>)) r)"
    if "keeps_buffer (invokedDepth b) r" for r using that by (cases r) auto
  have a: "buffer_inv (b\<lparr>repeatPending := True, repeatStart := size_of (active_text b), parseState := ExpectingHexDigit\<rparr>)"
    using i m active_size [OF m] active_le_total [OF m] by (simp add: buffer_inv_def mb_inv_def total_length_def)
  have z: "buffer_inv (b\<lparr>repeatCount := n\<rparr>)" if "unat n \<le> 65535" for n using i mb_inv_count [OF m that] by (simp add: buffer_inv_def)
  have z1: "buffer_inv (b1\<lparr>parseState := ExpectingRepeatCount, repeatCount := 0\<rparr>)"
    using i1 mb_inv_count [of b1 0] by (simp add: buffer_inv_def mb_inv_def total_length_def)
  show ?thesis
    using i i1 h two [of "if hex then appendToActiveMacro (decodedChar b1) b1 else Some (False, b1)"] a z [OF c] z1
      append_buffer [OF i] append_buffer [OF i1(1)] repeat_buffer [OF i1(1)] activeMacro_some [OF m]
    by (cases "parseState b") (auto simp: parse_state_def active_text_def)
qed

lemma ParseDefinition_buffer:
  assumes i: "buffer_inv b"
  shows "keeps_buffer (invokedDepth b) (ParseDefinition ch b)"
proof -
  have del: "keeps_buffer d (map_option (Pair False) (deleteActive c))" if "buffer_inv c" "invokedDepth c = d" for c d
    using that deleteMacro_inv [of c "activeMacroId c"]
    by (simp add: deleteActive_some buffer_inv_def mb_inv_def [of c]) (simp add: deleteMacro_def)
  show ?thesis
    unfolding ParseDefinition_def
    using i repeat_buffer [OF i] parse_state_buffer [OF i, of ch] del
    by (auto intro!: keeps_buffer_step)
qed

subsection \<open>The contract\<close>

definition host_inv :: "nat \<Rightarrow> 'b macro_host \<Rightarrow> bool" where
  "host_inv k h \<longleftrightarrow> (case macroBuffer h of None \<Rightarrow> k = 0 | Some b \<Rightarrow> buffer_inv b \<and> unat (invokedDepth b) = k)"

lemma host_inv_rest [simp]:
  "host_inv k (h\<lparr>rest := e\<rparr>) = host_inv k h" "host_inv k (h\<lparr>macroHandler := x\<rparr>) = host_inv k h"
  "host_inv k (h\<lparr>pendingMacro := n\<rparr>) = host_inv k h"
  by (simp_all add: host_inv_def)

lemma new_buffer_inv: "buffer_inv new_macro_buffer"
  using new_macro_buffer_ok by (simp add: buffer_inv_def mb_ok_def) (simp add: new_macro_buffer_def)

lemma InitParser_start: "InitParser n d e b = Some (ok, b') \<Longrightarrow> repeatStart b' = repeatStart b"
proof -
  have "repeatStart (fold deleteMacro is c) = repeatStart c" for "is" c
    by (induction "is" arbitrary: c) (simp_all add: deleteMacro_def)
  then show "InitParser n d e b = Some (ok, b') \<Longrightarrow> ?thesis"
    by (auto simp: InitParser_def Let_def deleteActive_def deleteMacro_def split: if_splits option.splits)
qed

lemma DefineMacro_host:
  assumes h: "host_inv k h" and r: "dispatch_DefineMacro n d e h = (r, h')"
  shows "host_inv k h'"
proof -
  define buf where "buf = (case macroBuffer h of None \<Rightarrow> new_macro_buffer | Some b \<Rightarrow> b)"
  have b: "buffer_inv buf" "unat (invokedDepth buf) = k"
    using h new_buffer_inv by (auto simp: buf_def host_inv_def new_macro_buffer_def split: option.splits)
  have "buffer_inv b'" "invokedDepth b' = invokedDepth buf" if "InitParser (nat n) d e buf = Some (ok, b')" for ok b'
    using InitParser_ok [OF _ that] InitParser_start [OF that] b by (simp_all add: buffer_inv_def)
  with r b show ?thesis
    by (auto simp: dispatch_DefineMacro_def Let_def buf_def [symmetric] host_inv_def split: option.splits prod.splits)
qed

lemma InvokeMacro_host: "host_inv k h \<Longrightarrow> dispatch_InvokeMacro n h = (ys, h') \<Longrightarrow> host_inv k h'"
  by (auto simp: dispatch_InvokeMacro_def split: if_splits)

lemma callback_host:
  assumes "host_inv k h" and "macro_engine base h v CallCallback = (r, xs, h')"
  shows "case r of Ret b \<Rightarrow> host_inv k h' | Exn \<Rightarrow> False | Inject s \<Rightarrow> host_inv (Suc k) h' \<and> k < 16"
proof (cases "macroBuffer h")
  case None
  with assms show ?thesis by (simp add: macro_engine_def) auto
next
  case (Some b)
  obtain s b' where i: "InvokeMacro_begin (pendingMacro h) b = (s, b')" by (metis surj_pair)
  have b: "buffer_inv b" "unat (invokedDepth b) = k" using assms(1) Some by (simp_all add: host_inv_def)
  then have m: "mb_inv b" by (simp add: buffer_inv_def)
  note I = InvokeMacro_begin_inv [OF m i]
  show ?thesis
  proof (cases s)
    case None
    with assms(2) Some i I(2) b show ?thesis by (auto simp: macro_engine_def host_inv_def)
  next
    case s: (Some t)
    with assms(2) Some i have r: "r = Inject t" "h' = h\<lparr>macroBuffer := Some b'\<rparr>" by (simp_all add: macro_engine_def)
    have "buffer_inv b'" using b I(1,8) by (simp add: buffer_inv_def)
    with r I(3) [OF s] b show ?thesis by (simp add: host_inv_def)
  qed
qed

lemma callback_done_host:
  assumes h: "host_inv (Suc k) h" and r: "macro_engine base h v CallCallbackDone = (r, xs, h')"
  shows "host_inv k h'"
proof -
  obtain b where b: "macroBuffer h = Some b" "buffer_inv b" "unat (invokedDepth b) = Suc k"
    using h by (auto simp: host_inv_def split: option.splits)
  then have "invokedDepth b \<noteq> 0" "mb_inv b" by (auto simp: buffer_inv_def)
  from InvokeMacro_end_inv [OF this(2,1)] b r show ?thesis
    by (auto simp: macro_engine_def host_inv_def buffer_inv_def)
qed

lemma handler_host:
  assumes "host_inv k h" and "macro_engine base h v (CallDcsChar ch) = (r, xs, h')"
  shows "host_inv k h'" and "r = Exn \<Longrightarrow> \<exists>e. fst (base e v (CallDcsChar ch)) = Exn"
proof -
  have "keeps_buffer (invokedDepth b) (ParseDefinition ch b)" if "macroBuffer h = Some b" for b
    using assms(1) that ParseDefinition_buffer by (simp add: host_inv_def)
  with assms show "host_inv k h'"
    by (auto simp: macro_engine_def host_inv_def keeps_buffer_def split: if_splits option.splits prod.splits)
  have "ParseDefinition ch b \<noteq> None" if "macroBuffer h = Some b" for b
    using \<open>\<And>b. macroBuffer h = Some b \<Longrightarrow> keeps_buffer (invokedDepth b) (ParseDefinition ch b)\<close> [OF that] keeps_buffer_simps(2) by metis
  then show "r = Exn \<Longrightarrow> \<exists>e. fst (base e v (CallDcsChar ch)) = Exn"
    using assms(2) by (auto simp: macro_engine_def split: if_splits option.splits prod.splits) (metis fst_conv)
qed

lemma macro_engine_keeps:
  assumes h: "host_inv k h" and c: "c \<noteq> CallCallback" "c \<noteq> CallCallbackDone" and r: "macro_engine base h v c = (r, xs, h')"
  shows "host_inv k h'"
proof (cases c)
  case (CallCsiDispatch i ps)
  with h r InvokeMacro_host [of k "h\<lparr>rest := _\<rparr>"] show ?thesis by (auto simp: macro_engine_def split: prod.splits if_splits)
next
  case (CallDcsDispatch i ps)
  with h r DefineMacro_host [of k "h\<lparr>rest := _\<rparr>"] show ?thesis by (auto simp: macro_engine_def split: prod.splits if_splits)
next
  case (CallDcsChar ch)
  with h r handler_host(1) show ?thesis by blast
qed (use h r c in \<open>auto simp: macro_engine_def split: prod.splits\<close>)

text \<open>
  An engine that never refuses to pass text through and whose own string handlers never throw
  meets the parser's contract with no error left and nesting at most 16.
\<close>

lemma macro_engine_contract:
  assumes "\<And>e v s. fst (base e v (CallPassThroughString s)) \<noteq> Ret False" and "\<And>e v ch. fst (base e v (CallDcsChar ch)) \<noteq> Exn"
  shows "parser_engine (macro_engine base) host_inv 16 {}"
proof
  show "host_inv k h \<Longrightarrow> sent c \<Longrightarrow> macro_engine base h v c = (r, xs, h') \<Longrightarrow> host_inv k h'" for k h c v r xs h'
    using macro_engine_keeps by fastforce
  show "host_inv k h \<Longrightarrow> macro_engine base h v CallCallback = (r, xs, h') \<Longrightarrow>
    case r of Ret b \<Rightarrow> host_inv k h' | Exn \<Rightarrow> EngineRaised \<in> {} | Inject s \<Rightarrow> host_inv (Suc k) h' \<and> (k < 16 \<or> NestingTooDeep \<in> {})"
    for k h v r xs h' using callback_host [of k h base v r xs h'] by (simp split: vt_reply.splits)
  show "host_inv (Suc k) h \<Longrightarrow> macro_engine base h v CallCallbackDone = (r, xs, h') \<Longrightarrow> host_inv k h'" for k h v r xs h'
    by (rule callback_done_host)
  show "StackOverflow \<in> {} \<or> fst (macro_engine base h v (CallPassThroughString s)) \<noteq> Ret False" for h v s
    using assms(1) [of "rest h" v s] by (auto simp: macro_engine_def split: prod.splits)
  show "host_inv k h \<Longrightarrow> macro_engine base h v (CallDcsChar ch) = (Exn, xs, h') \<Longrightarrow> EngineRaised \<in> {}" for k h v ch xs h'
    using handler_host(2) [of k h base v ch Exn xs h'] assms(2) by blast
qed

text \<open>
  C19. The parser always returns. With the output engine's macro buffer in the loop (a macro may
  invoke macros, itself included, define none while it runs, and be arbitrary text), any engine
  that never refuses to pass text through and whose other string handlers do not throw, and any
  chunks of input, every \<^verbatim>\<open>ProcessString\<close> ends normally, with macros nested at most 16 deep (17
  levels of \<^verbatim>\<open>ProcessString\<close>), and leaves the parser's invariant in place.
\<close>

theorem parser_with_macros_returns:
  assumes "\<And>e v s. fst (base e v (CallPassThroughString s)) \<noteq> Ret False"
    and "\<And>e v ch. fst (base e v (CallDcsChar ch)) \<noteq> Exn" and "\<forall>s \<in> set ss. s \<noteq> []"
  shows "\<exists>sm. ProcessStrings (macro_engine base) 17 ss (init_sm (new_host e) forInput) = Inr sm \<and> vt_inv sm"
proof -
  note C = macro_engine_contract [of base, OF assms(1,2)]
  have "host_inv 0 (new_host e)" by (simp add: host_inv_def new_host_def)
  from parser_engine.ProcessStrings_ok [OF C parser_engine.init_good [OF C this, of forInput] assms(3), of 17] show ?thesis
    by (cases "ProcessStrings (macro_engine base) 17 ss (init_sm (new_host e) forInput)")
      (simp_all add: parser_engine.ok_result_def [OF C] parser_engine.good_def [OF C])
qed

text \<open>
  A macro that invokes itself: \<^verbatim>\<open>ESC P 0;0;1!z\<close> followed by the hex of \<^verbatim>\<open>ESC [ 0 * z\<close> and \<^verbatim>\<open>ESC \\<close>,
  then \<^verbatim>\<open>ESC [ 0 * z\<close>.
\<close>

definition self_invoking :: wstring where
  "self_invoking = [ESC, 0x50, 0x30, 0x3B, 0x30, 0x3B, 0x31, 0x21, 0x7A] @ wlit ''1B5B302A7A'' @ [ESC, 0x5C, ESC, 0x5B, 0x30, 0x2A, 0x7A]"

theorem parser_with_macros_returns_witness:
  "\<exists>sm. ProcessStrings (macro_engine accepting) 17 [self_invoking] (init_sm (new_host ()) False) = Inr sm \<and> vt_inv sm"
  by (rule parser_with_macros_returns) (simp_all add: accepting_def self_invoking_def)

end
