(* ===== verification/VT_Parser_Recovery.thy ===== *)
theory VT_Parser_Recovery
  imports VT_Parser_Trace VT_Macro_Engine
begin

text \<open>
  How the parser gets out of unfinished sequences (\<open>cancel_resynchronises\<close>), and three places where
  \<^verbatim>\<open>stateMachine.cpp\<close> or \<^verbatim>\<open>DispatchTypes.hpp\<close> do something else than their comments say: controls in
  the parameters of a device control string, sub-parameters of a parameter beyond the limit, and
  identifiers with wide final characters.
\<close>

subsection \<open>Controls inside the parameters of a device control string\<close>

definition c0_control :: "wchar \<Rightarrow> bool" where
  "c0_control c \<longleftrightarrow> isC0Code c \<and> c \<notin> {CAN, SUB, ESC}"

lemma c0_control_class:
  assumes "c0_control c"
  shows "\<not> isC1ControlCharacter c" "\<not> isEscape c" "\<not> isNumericParamValue c" "\<not> isParameterDelimiter c" "\<not> isIntermediate c"
    "\<not> isParameterInvalid c" "\<not> isSubParameterDelimiter c"
proof -
  have "c \<le> 0x1F" "c \<noteq> ESC" using assms unfolding c0_control_def isC0Code_def control_defs by (auto intro: order_trans)
  then show "\<not> isC1ControlCharacter c" "\<not> isEscape c" "\<not> isNumericParamValue c" "\<not> isParameterDelimiter c" "\<not> isIntermediate c"
    "\<not> isParameterInvalid c" "\<not> isSubParameterDelimiter c"
    unfolding isC1ControlCharacter_def isEscape_def isNumericParamValue_def isParameterDelimiter_def isIntermediate_def
      isParameterInvalid_def isSubParameterDelimiter_def isCsiPrivateMarker_def
    by (uint_arith | auto)+
qed

text \<open>
  C29. In the parameter list of a device control string a C0 control is not ignored: after the empty
  branch the code falls through to the next test and takes the control for the final character.
\<close>

theorem dcs_param_control_dispatches:
  assumes "state sm = DcsParam" and "c0_control c"
  shows "ProcessCharacter eng nested c sm = Inr (ActionDcsDispatch eng c sm)"
proof -
  note C = c0_control_class [OF assms(2)]
  have "c \<noteq> CAN" "c \<noteq> SUB" using assms(2) by (simp_all add: c0_control_def)
  with C assms(1) show ?thesis by (subst ProcessCharacter.simps) (simp add: dispatch_event_def EventDcsParam_def)
qed

theorem dcs_param_control_dispatches_witness:
  "\<exists>t. ProcessStrings char_log (Suc 0) [[ESC, 0x50, 0x31]] (init_sm [] False) = Inr t \<and> state t = DcsParam \<and>
    ProcessCharacter char_log (ProcessString char_log 0) 0x0A t = Inr (ActionDcsDispatch char_log 0x0A t) \<and>
    engine (ActionDcsDispatch char_log 0x0A t) = [CallDcsDispatch 0x0A (params_only [1])]"
proof -
  have "case ProcessStrings char_log (Suc 0) [[ESC, 0x50, 0x31]] (init_sm [] False) of Inl x \<Rightarrow> False
      | Inr t \<Rightarrow> state t = DcsParam \<and> engine t = [] \<and> idBuilder t = id_Clear \<and> parameters t = [1]"
    by code_simp
  then obtain t where t: "ProcessStrings char_log (Suc 0) [[ESC, 0x50, 0x31]] (init_sm [] False) = Inr t"
    "state t = DcsParam" "engine t = []" "idBuilder t = id_Clear" "parameters t = [1]"
    by (auto split: sum.splits)
  have "c0_control 0x0A" by code_simp
  from dcs_param_control_dispatches [OF t(2) this] t show ?thesis
    by (intro exI [of _ t]) (simp add: ActionDcsDispatch_def call_engine_def char_log_def
        Finalize_def id_Clear_def VTID_of_def EnterDcsPassThrough_def)
qed

subsection \<open>Cancelling\<close>

interpretation logging: parser_engine char_log "\<lambda>k e. True" 0 "{}"
  by unfold_locales (auto simp: char_log_def)

lemma ProcessStrings_kind: "ProcessStrings eng n ss sm = Inr t \<Longrightarrow> same_kind sm t"
proof (induction ss arbitrary: sm)
  case (Cons s ss)
  then obtain u where u: "ProcessString eng n s sm = Inr u" "ProcessStrings eng n ss u = Inr t" by (auto split: sum.splits)
  then have "same_kind sm u" using ProcessString_kind [of eng n] by (auto simp: keeps_kind_def same_kind_def)
  with Cons.IH [OF u(2)] show ?case by (rule same_kind_trans [rotated])
qed (simp add: same_kind_def)

lemma cancel_step:
  assumes "c = CAN \<or> c = SUB" and "\<not> isEngineForInput sm" and "state sm = DcsPassThrough \<longrightarrow> dcsStringHandler sm"
  shows "\<exists>t. ProcessCharacter char_log nested c sm = Inr t \<and> state t = Ground \<and> last (engine t) = CallExecute c"
  using assms by (subst ProcessCharacter.simps)
    (auto simp: andthen_def thenGround_def ActionInterrupt_def ActionExecute_def SafeExecute_def call_engine_def call_handler_def char_log_def EnterGround_def)

text \<open>
  C5. Whatever an output parser has been given before, half a sequence, an unfinished string or
  garbage, a single \<^verbatim>\<open>CAN\<close> or \<^verbatim>\<open>SUB\<close> brings it back to the ground state, and the engine is told to
  execute it.
\<close>

theorem cancel_resynchronises:
  assumes "c = CAN \<or> c = SUB" and "\<forall>s \<in> set ss. s \<noteq> []"
  shows "\<exists>t. ProcessStrings char_log (Suc n) (ss @ [[c]]) (init_sm [] False) = Inr t \<and> state t = Ground \<and> last (engine t) = CallExecute c"
proof -
  let ?i = "init_sm ([] :: vt_call list) False"
  have out: "\<not> isEngineForInput ?i" by (simp add: init_sm_def ActionClear_def)
  have "logging.ok_result 0 (ProcessStrings char_log (Suc n) ss ?i)"
    by (intro logging.ProcessStrings_ok logging.init_good assms(2)) simp_all
  then obtain sm where sm: "ProcessStrings char_log (Suc n) ss ?i = Inr sm" "vt_inv sm"
    by (auto simp: logging.ok_result_def logging.good_def split: sum.splits)
  obtain u where u: "feed char_log (ProcessString char_log n) (concat ss) ?i = Inr u" "same sm u"
    using char_log.ProcessStrings_feed [OF same_refl out, of n ss] sm(1)
    by (cases "feed char_log (ProcessString char_log n) (concat ss) ?i") auto
  have "isEngineForInput sm = isEngineForInput ?i" using ProcessStrings_kind [OF sm(1)] by (simp add: same_kind_def)
  then have "\<not> isEngineForInput u" "state u = DcsPassThrough \<longrightarrow> dcsStringHandler u"
    using u(2) out sm(2) by (simp_all add: same_def vt_inv_def)
  from cancel_step [OF assms(1) this, of "ProcessString char_log n"] obtain t where
    "ProcessCharacter char_log (ProcessString char_log n) c u = Inr t" "state t = Ground" "last (engine t) = CallExecute c" by blast
  moreover from this have "feed char_log (ProcessString char_log n) (concat (ss @ [[c]])) ?i = Inr t"
    using u(1) by (simp add: feed_append)
  ultimately show ?thesis using logs [OF out, of n "ss @ [[c]]"] by (auto simp: same_def)
qed

theorem cancel_resynchronises_witness:
  "\<exists>t. ProcessStrings char_log (Suc 0) [[0x61, ESC, 0x50, 0x31], [0x71, 0x62], [CAN]] (init_sm [] False) = Inr t \<and> state t = Ground"
  using cancel_resynchronises [of CAN "[[0x61, ESC, 0x50, 0x31], [0x71, 0x62]]" 0] by auto

subsection \<open>Limits\<close>

text \<open>
  C28. Sub-parameters of a parameter beyond the limit are not dropped with it: once the parameter
  limit has overflowed, a colon and the digits after it still extend the sub-parameters of the last
  parameter that was kept.
\<close>

theorem dropped_parameter_keeps_subs:
  assumes "parameterLimitOverflowed sm" and "\<not> subParameterLimitOverflowed sm" and "parameters sm \<noteq> []" and "subParameterRanges sm \<noteq> []"
    and "unat (subParameterCounter sm) < MAX_SUBPARAMETER_COUNT" and "state sm = CsiParam" and "isNumericParamValue d"
  shows "feed eng nested [d, 0x3A, d] sm = Inr (sm\<lparr>state := CsiSubParam, subParameters := subParameters sm @ [AccumulateTo d 0],
    subParameterRanges := bump_last_range (subParameterRanges sm), subParameterCounter := subParameterCounter sm + 1\<rparr>)"
proof -
  let ?t = "sm\<lparr>state := CsiSubParam, subParameters := subParameters sm @ [- 1],
    subParameterRanges := bump_last_range (subParameterRanges sm), subParameterCounter := subParameterCounter sm + 1\<rparr>"
  have 1: "ProcessCharacter eng nested d sm = Inr sm"
    using assms(1,6,7) by (simp add: param_chars(1) ActionParam_def)
  have 2: "ProcessCharacter eng nested 0x3A sm = Inr ?t"
    using assms by (simp add: param_chars(3) andthen_def ActionSubParam_def delimiters Let_def EnterCsiSubParam_def VTParameter_omitted_def)
  have 3: "ProcessCharacter eng nested d ?t = Inr (?t\<lparr>subParameters := subParameters sm @ [AccumulateTo d 0]\<rparr>)"
    using assms(2,3,7) char_classes(1) [OF assms(7)] by (simp add: sub_param_chars(1) ActionSubParam_def value_or_def)
  from 1 2 3 show ?thesis by simp
qed

text \<open>Thirty-two semicolons and one parameter too many, with a sub-parameter of its own.\<close>

theorem dropped_parameter_keeps_subs_witness:
  "\<exists>t u. ProcessStrings char_log (Suc 0) [ESC # 0x5B # replicate 32 0x3B] (init_sm [] False) = Inr t \<and>
    feed char_log (ProcessString char_log 0) [0x37, 0x3A, 0x37] t = Inr u \<and> length (parameters u) = 32 \<and>
    subParamsFor \<lparr>vp_params = parameters u, vp_subParams = subParameters u, vp_subParamRanges = subParameterRanges u\<rparr> 31 = Some [7]"
proof -
  have "case ProcessStrings char_log (Suc 0) [ESC # 0x5B # replicate 32 0x3B] (init_sm [] False) of Inl x \<Rightarrow> False
      | Inr t \<Rightarrow> state t = CsiParam \<and> parameterLimitOverflowed t \<and> \<not> subParameterLimitOverflowed t \<and> parameters t = replicate 32 (- 1) \<and>
          subParameterRanges t = replicate 32 (0, 0) \<and> subParameters t = [] \<and> subParameterCounter t = 0"
    by code_simp
  then obtain t where t: "ProcessStrings char_log (Suc 0) [ESC # 0x5B # replicate 32 0x3B] (init_sm [] False) = Inr t"
    "state t = CsiParam" "parameterLimitOverflowed t" "\<not> subParameterLimitOverflowed t" "parameters t = replicate 32 (- 1)"
    "subParameterRanges t = replicate 32 (0, 0)" "subParameters t = []" "subParameterCounter t = 0"
    by (auto split: sum.splits)
  have n: "isNumericParamValue 0x37" and a: "AccumulateTo 0x37 0 = 7" by code_simp+
  have "parameters t \<noteq> []" "subParameterRanges t \<noteq> []" "unat (subParameterCounter t) < MAX_SUBPARAMETER_COUNT"
    using t by (simp_all add: MAX_SUBPARAMETER_COUNT_def)
  note F = dropped_parameter_keeps_subs [OF t(3,4) this t(2) n, of char_log "ProcessString char_log 0"]
  have b: "bump_last_range (replicate 32 (0, 0)) = replicate 31 (0, 0) @ [(0, 1)]" by code_simp
  show ?thesis
    by (rule exI [of _ t], rule exI, rule conjI [OF t(1)], rule conjI [OF F])
       (simp add: t a b subParamsFor_def nth_append)
qed


end
