(* ===== verification/Axan_ProgramStatus.thy ===== *)
theory Axan_ProgramStatus
  imports Axan_Prelude
begin

unbundle bit_operations_syntax

text \<open>
  The wire format of the program status protocol (\<^verbatim>\<open>OSC 7501\<close>),
  \<^verbatim>\<open>terminal/adapter/ProgramStatus.hpp\<close>: the parser that turns a payload into a query, a validated
  report or a discard with a reason, with its base64 and UTF-8 decoders. Code points are kept at
  32 bits and bytes at 8, as in the code; a loop that returns early is a recursive function whose
  result is \<open>Inl reason\<close> or \<open>None\<close> at that point.
\<close>

subsection \<open>Data\<close>

datatype State = Idle | Working | Done | Blocked | Error | Clear

datatype Kind = NoKind | Permission | Question | Auth

datatype Outcome = QueryOutcome | ReportOutcome | Discarded

definition MaxKeyBytes :: nat where "MaxKeyBytes = 16"
definition MaxAppBytes :: nat where "MaxAppBytes = 32"
definition MaxMsgEncodedBytes :: nat where "MaxMsgEncodedBytes = 2732"
definition MaxMsgDecodedBytes :: nat where "MaxMsgDecodedBytes = 2048"
definition MaxTitleEncodedBytes :: nat where "MaxTitleEncodedBytes = 256"
definition MaxTitleDecodedBytes :: nat where "MaxTitleDecodedBytes = 192"
definition MaxIdBytes :: nat where "MaxIdBytes = 128"
definition MaxIdSegmentBytes :: nat where "MaxIdSegmentBytes = 32"
definition MaxIdSegments :: nat where "MaxIdSegments = 8"
definition MaxRecords :: nat where "MaxRecords = 256"
definition MaxPayloadChars :: nat where "MaxPayloadChars = 4096 - 8"

lemmas status_limits = MaxKeyBytes_def MaxAppBytes_def MaxMsgEncodedBytes_def MaxMsgDecodedBytes_def MaxTitleEncodedBytes_def
  MaxTitleDecodedBytes_def MaxIdBytes_def MaxIdSegmentBytes_def MaxIdSegments_def MaxRecords_def MaxPayloadChars_def

record Report =
  r_id :: wstring
  r_state :: State
  r_app :: wstring
  r_kind :: Kind
  r_progress :: "byte option"
  r_title :: wstring
  r_msg :: wstring

definition empty_Report :: Report where
  "empty_Report = \<lparr>r_id = [], r_state = Idle, r_app = [], r_kind = NoKind, r_progress = None, r_title = [], r_msg = []\<rparr>"

record ParseResult =
  pr_outcome :: Outcome
  pr_report :: Report
  pr_reason :: string
  pr_skippedPairs :: nat

subsection \<open>Characters\<close>

definition IsSpace :: "wchar \<Rightarrow> bool" where
  "IsSpace ch \<longleftrightarrow> ch = 0x20 \<or> ch = 0x09"

definition Trim :: "wstring \<Rightarrow> wstring" where
  "Trim s = (let s1 = dropWhile IsSpace s in rev (dropWhile IsSpace (rev s1)))"

definition IsAlnum :: "wchar \<Rightarrow> bool" where
  "IsAlnum ch \<longleftrightarrow> (ch \<ge> 0x61 \<and> ch \<le> 0x7A) \<or> (ch \<ge> 0x41 \<and> ch \<le> 0x5A) \<or> (ch \<ge> 0x30 \<and> ch \<le> 0x39)"

definition IsValueChar :: "wchar \<Rightarrow> bool" where
  "IsValueChar ch \<longleftrightarrow> IsAlnum ch \<or> ch = 0x5F \<or> ch = 0x2E \<or> ch = 0x2C \<or> ch = 0x2B \<or> ch = 0x2F \<or> ch = 0x3D \<or> ch = 0x2D"

definition IsNameChar :: "wchar \<Rightarrow> bool" where
  "IsNameChar ch \<longleftrightarrow> IsAlnum ch \<or> ch = 0x5F \<or> ch = 0x2E \<or> ch = 0x2B \<or> ch = 0x2D"

definition IsKey :: "wstring \<Rightarrow> bool" where
  "IsKey key \<longleftrightarrow> key \<noteq> [] \<and> list_all (\<lambda>ch. \<not> (ch < 0x61 \<or> ch > 0x7A)) key"

fun id_loop :: "wstring \<Rightarrow> nat \<Rightarrow> nat \<Rightarrow> bool" where
  "id_loop [] segments segmentLength = (segmentLength \<noteq> 0)"
| "id_loop (ch # cs) segments segmentLength =
     (if ch = 0x2F then
        (if segmentLength = 0 \<or> segments + 1 > MaxIdSegments then False else id_loop cs (segments + 1) 0)
      else if \<not> IsNameChar ch \<or> segmentLength + 1 > MaxIdSegmentBytes then False
      else id_loop cs segments (segmentLength + 1))"

definition IsValidId :: "wstring \<Rightarrow> bool" where
  "IsValidId i = (if i = [] \<or> length i > MaxIdBytes then False else id_loop i 1 0)"

subsection \<open>Base64\<close>

definition Base64Value :: "wchar \<Rightarrow> int" where
  "Base64Value ch =
     (if ch \<ge> 0x41 \<and> ch \<le> 0x5A then uint ch - 0x41
      else if ch \<ge> 0x61 \<and> ch \<le> 0x7A then uint ch - 0x61 + 26
      else if ch \<ge> 0x30 \<and> ch \<le> 0x39 then uint ch - 0x30 + 52
      else if ch = 0x2B then 62
      else if ch = 0x2F then 63
      else - 1)"

fun base64_loop :: "wstring \<Rightarrow> 32 word \<Rightarrow> nat \<Rightarrow> bstring \<Rightarrow> bstring option" where
  "base64_loop [] acc bits out = Some out"
| "base64_loop (ch # cs) acc bits out =
     (let v = Base64Value ch
      in if v < 0 then None
         else
           (let acc = push_bit 6 acc OR word_of_int v; bits = bits + 6
            in if bits \<ge> 8 then base64_loop cs acc (bits - 8) (out @ [ucast (drop_bit (bits - 8) acc AND 0xFF)])
               else base64_loop cs acc bits out))"

definition DecodeBase64 :: "wstring \<Rightarrow> bstring option" where
  "DecodeBase64 s =
     (let body = rev (dropWhile (\<lambda>c. c = 0x3D) (rev s)); padding = length s - length body
      in if padding > 2 then None
         else if padding \<noteq> 0 \<and> (length body + padding) mod 4 \<noteq> 0 then None
         else if length body mod 4 = 1 then None
         else base64_loop body 0 0 [])"

subsection \<open>UTF-8\<close>

text \<open>The lead byte gives the length, its payload and the least code point of that length.\<close>

definition utf8_lead :: "byte \<Rightarrow> (32 word \<times> nat \<times> 32 word) option" where
  "utf8_lead b0 =
     (if b0 < 0x80 then Some (ucast b0, 1, 0)
      else if b0 AND 0xE0 = 0xC0 then Some (ucast (b0 AND 0x1F), 2, 0x80)
      else if b0 AND 0xF0 = 0xE0 then Some (ucast (b0 AND 0x0F), 3, 0x800)
      else if b0 AND 0xF8 = 0xF0 then Some (ucast (b0 AND 0x07), 4, 0x10000)
      else None)"

fun utf8_continue :: "32 word \<Rightarrow> bstring \<Rightarrow> 32 word option" where
  "utf8_continue cp [] = Some cp"
| "utf8_continue cp (b # bs) =
     (if b AND 0xC0 \<noteq> 0x80 then None else utf8_continue (push_bit 6 cp OR ucast (b AND 0x3F)) bs)"

definition is_bidi_control :: "32 word \<Rightarrow> bool" where
  "is_bidi_control cp \<longleftrightarrow> cp = 0x061C \<or> cp = 0x200E \<or> cp = 0x200F \<or> (cp \<ge> 0x202A \<and> cp \<le> 0x202E) \<or> (cp \<ge> 0x2066 \<and> cp \<le> 0x2069)"

definition utf16_units :: "32 word \<Rightarrow> wstring" where
  "utf16_units cp =
     (if cp \<ge> 0x10000 then
        (let cp = cp - 0x10000 in [ucast (0xD800 + drop_bit 10 cp), ucast (0xDC00 + (cp AND 0x3FF))])
      else [ucast cp])"

text \<open>One turn of the loop: the code point at the front and what is left, or the reason to stop.\<close>

definition utf8_step :: "bstring \<Rightarrow> string + (32 word \<times> bstring)" where
  "utf8_step s =
     (case s of
        [] \<Rightarrow> Inl ''bad-utf8''
      | b0 # rest \<Rightarrow>
          (case utf8_lead b0 of
             None \<Rightarrow> Inl ''bad-utf8''
           | Some (cp, len, least) \<Rightarrow>
               if len > length s then Inl ''bad-utf8''
               else
                 (case utf8_continue cp (take (len - 1) rest) of
                    None \<Rightarrow> Inl ''bad-utf8''
                  | Some cp \<Rightarrow>
                      if cp < least \<or> cp > 0x10FFFF \<or> (cp \<ge> 0xD800 \<and> cp \<le> 0xDFFF) then Inl ''bad-utf8''
                      else if cp < 0x20 \<or> cp = 0x7F \<or> (cp \<ge> 0x80 \<and> cp \<le> 0x9F) then Inl ''control-char''
                      else Inr (cp, drop (len - 1) rest))))"

lemma utf8_step_shorter: "utf8_step s = Inr (cp, rest) \<Longrightarrow> length rest < length s"
  by (auto simp: utf8_step_def split: list.splits option.splits if_splits)

function utf8_loop :: "bstring \<Rightarrow> wstring \<Rightarrow> string + wstring" where
  "utf8_loop s out =
     (if s = [] then Inr out
      else case utf8_step s of
             Inl why \<Rightarrow> Inl why
           | Inr (cp, rest) \<Rightarrow> utf8_loop rest (if is_bidi_control cp then out else out @ utf16_units cp))"
  by pat_completeness auto
termination
  by (relation "measure (\<lambda>(s, out). length s)") (auto dest: utf8_step_shorter)

declare utf8_loop.simps [simp del]

definition DecodeUtf8Text :: "bstring \<Rightarrow> string + wstring" where
  "DecodeUtf8Text s = utf8_loop s []"

definition DecodeTextField :: "wstring \<Rightarrow> nat \<Rightarrow> nat \<Rightarrow> string + wstring" where
  "DecodeTextField encoded maxEncoded maxDecoded =
     (if length encoded > maxEncoded then Inl ''text-too-long''
      else case DecodeBase64 encoded of
             None \<Rightarrow> Inl ''bad-base64''
           | Some bytes \<Rightarrow> if length bytes > maxDecoded then Inl ''text-too-long'' else DecodeUtf8Text bytes)"

subsection \<open>Values\<close>

definition ParseState :: "wstring \<Rightarrow> State option" where
  "ParseState v =
     (if v = wlit ''idle'' then Some Idle
      else if v = wlit ''working'' then Some Working
      else if v = wlit ''done'' then Some Done
      else if v = wlit ''blocked'' then Some Blocked
      else if v = wlit ''error'' then Some Error
      else if v = wlit ''clear'' then Some Clear
      else None)"

definition ParseKind :: "wstring \<Rightarrow> Kind" where
  "ParseKind v =
     (if v = wlit ''permission'' then Permission
      else if v = wlit ''question'' then Question
      else if v = wlit ''auth'' then Auth
      else NoKind)"

fun progress_loop :: "wstring \<Rightarrow> 32 word \<Rightarrow> 32 word option" where
  "progress_loop [] value = Some value"
| "progress_loop (ch # cs) value = (if ch < 0x30 \<or> ch > 0x39 then None else progress_loop cs (value * 10 + ucast (ch - 0x30)))"

definition ParseProgress :: "wstring \<Rightarrow> byte option" where
  "ParseProgress v =
     (if v = [] \<or> length v > 3 then None
      else case progress_loop v 0 of None \<Rightarrow> None | Some value \<Rightarrow> if value > 100 then None else Some (ucast value))"

definition Discard :: "string \<Rightarrow> ParseResult" where
  "Discard reason = \<lparr>pr_outcome = Discarded, pr_report = empty_Report, pr_reason = reason, pr_skippedPairs = 0\<rparr>"

subsection \<open>The report\<close>

record raw_fields =
  f_state :: "wstring option"
  f_id :: "wstring option"
  f_app :: "wstring option"
  f_kind :: "wstring option"
  f_progress :: "wstring option"
  f_title :: "wstring option"
  f_msg :: "wstring option"
  f_skipped :: nat

definition no_fields :: raw_fields where
  "no_fields = \<lparr>f_state = None, f_id = None, f_app = None, f_kind = None, f_progress = None, f_title = None, f_msg = None, f_skipped = 0\<rparr>"

definition skip :: "raw_fields \<Rightarrow> raw_fields" where
  "skip f = f\<lparr>f_skipped := f_skipped f + 1\<rparr>"

definition store_field :: "wstring \<Rightarrow> wstring \<Rightarrow> raw_fields \<Rightarrow> string + raw_fields" where
  "store_field key v f =
     (if key = wlit ''state'' then Inr (f\<lparr>f_state := Some v\<rparr>)
      else if key = wlit ''id'' then (if \<not> IsValidId v then Inl ''invalid-id'' else Inr (f\<lparr>f_id := Some v\<rparr>))
      else if key = wlit ''app'' then Inr (f\<lparr>f_app := Some v\<rparr>)
      else if key = wlit ''kind'' then Inr (f\<lparr>f_kind := Some v\<rparr>)
      else if key = wlit ''progress'' then Inr (f\<lparr>f_progress := Some v\<rparr>)
      else if key = wlit ''title'' then Inr (f\<lparr>f_title := Some v\<rparr>)
      else if key = wlit ''msg'' then Inr (f\<lparr>f_msg := Some v\<rparr>)
      else Inr f)"

definition pair_step :: "wstring \<Rightarrow> raw_fields \<Rightarrow> string + raw_fields" where
  "pair_step pair f =
     (if 0x3D \<notin> set pair then
        (if Trim pair = wlit ''id'' then Inl ''bare-id'' else Inr (skip f))
      else
        (let key = Trim (takeWhile (\<lambda>c. c \<noteq> 0x3D) pair); v = Trim (tl (dropWhile (\<lambda>c. c \<noteq> 0x3D) pair))
         in if \<not> IsKey key then Inr (skip f)
            else if length key > MaxKeyBytes then Inl ''key-too-long''
            else if \<not> list_all IsValueChar v then (if key = wlit ''id'' then Inl ''invalid-id'' else Inr (skip f))
            else store_field key v f))"

function pair_loop :: "wstring \<Rightarrow> raw_fields \<Rightarrow> string + raw_fields" where
  "pair_loop payload f =
     (case pair_step (takeWhile (\<lambda>c. c \<noteq> 0x3A) payload) f of
        Inl why \<Rightarrow> Inl why
      | Inr f1 \<Rightarrow>
          (case dropWhile (\<lambda>c. c \<noteq> 0x3A) payload of
             [] \<Rightarrow> Inr f1
           | _ # rest \<Rightarrow> pair_loop rest f1))"
  by pat_completeness auto
termination
  by (relation "measure (\<lambda>(p, f). length p)") (auto, metis length_dropWhile_le length_Cons Suc_le_lessD)

declare pair_loop.simps [simp del]

definition report_app :: "wstring option \<Rightarrow> string + wstring" where
  "report_app a =
     (case a of None \<Rightarrow> Inr []
      | Some a \<Rightarrow> if length a > MaxAppBytes then Inl ''app-too-long''
                  else if a \<noteq> [] \<and> list_all IsNameChar a then Inr a else Inr [])"

definition report_text :: "wstring option \<Rightarrow> nat \<Rightarrow> nat \<Rightarrow> string + wstring" where
  "report_text t maxEncoded maxDecoded = (case t of None \<Rightarrow> Inr [] | Some t \<Rightarrow> DecodeTextField t maxEncoded maxDecoded)"

definition build_report :: "raw_fields \<Rightarrow> ParseResult" where
  "build_report f =
     (case f_state f of
        None \<Rightarrow> Discard ''missing-state''
      | Some s \<Rightarrow>
          (case ParseState s of
             None \<Rightarrow> Discard ''unknown-state''
           | Some st \<Rightarrow>
               (case report_app (f_app f) of
                  Inl why \<Rightarrow> Discard why
                | Inr app \<Rightarrow>
                    (case report_text (f_title f) MaxTitleEncodedBytes MaxTitleDecodedBytes of
                       Inl why \<Rightarrow> Discard why
                     | Inr title \<Rightarrow>
                         (case report_text (f_msg f) MaxMsgEncodedBytes MaxMsgDecodedBytes of
                            Inl why \<Rightarrow> Discard why
                          | Inr msg \<Rightarrow>
                              \<lparr>pr_outcome = ReportOutcome,
                               pr_report = \<lparr>r_id = (case f_id f of None \<Rightarrow> [] | Some i \<Rightarrow> i), r_state = st, r_app = app,
                                 r_kind = (case f_kind f of Some k \<Rightarrow> if st = Blocked then ParseKind k else NoKind | None \<Rightarrow> NoKind),
                                 r_progress = (case f_progress f of Some p \<Rightarrow> if st = Working \<or> st = Blocked then ParseProgress p else None | None \<Rightarrow> None),
                                 r_title = title, r_msg = msg\<rparr>,
                               pr_reason = [], pr_skippedPairs = f_skipped f\<rparr>)))))"

definition Parse :: "wstring \<Rightarrow> ParseResult" where
  "Parse payload =
     (if length payload > MaxPayloadChars then Discard ''sequence-too-long''
      else if Trim payload = wlit ''?'' then
        \<lparr>pr_outcome = QueryOutcome, pr_report = empty_Report, pr_reason = [], pr_skippedPairs = 0\<rparr>
      else case pair_loop payload no_fields of Inl why \<Rightarrow> Discard why | Inr f \<Rightarrow> build_report f)"

definition StateName :: "State \<Rightarrow> string" where
  "StateName s = (case s of Idle \<Rightarrow> ''idle'' | Working \<Rightarrow> ''working'' | Done \<Rightarrow> ''done'' | Blocked \<Rightarrow> ''blocked'' | Error \<Rightarrow> ''error'' | Clear \<Rightarrow> ''clear'')"

definition KindName :: "Kind \<Rightarrow> string" where
  "KindName k = (case k of Permission \<Rightarrow> ''permission'' | Question \<Rightarrow> ''question'' | Auth \<Rightarrow> ''auth'' | NoKind \<Rightarrow> '''')"

definition IsLive :: "State \<Rightarrow> bool" where
  "IsLive s \<longleftrightarrow> s = Working \<or> s = Blocked"

end
