(* ===== verification/Axan_StatusText.thy ===== *)
theory Axan_StatusText
  imports Axan_ProgramStatus
begin

text \<open>
  The text fields of a status report: an encoder for base64 and one for UTF-8, and the proof that
  the decoders of \<^verbatim>\<open>ProgramStatus.hpp\<close> undo them, padded or not.
\<close>

subsection \<open>Writing base64\<close>

text \<open>The four six-bit groups of three bytes.\<close>

definition sextet1 :: "byte \<Rightarrow> 32 word" where "sextet1 a = drop_bit 2 (ucast a)"
definition sextet2 :: "byte \<Rightarrow> byte \<Rightarrow> 32 word" where "sextet2 a b = push_bit 4 (ucast a AND 3) OR drop_bit 4 (ucast b)"
definition sextet3 :: "byte \<Rightarrow> byte \<Rightarrow> 32 word" where "sextet3 b c = push_bit 2 (ucast b AND 15) OR drop_bit 6 (ucast c)"
definition sextet4 :: "byte \<Rightarrow> 32 word" where "sextet4 c = ucast c AND 63"

lemmas sextets = sextet1_def sextet2_def sextet3_def sextet4_def
lemma mask_numerals: "(3 :: 32 word) = mask 2" "(15 :: 32 word) = mask 4" "(63 :: 32 word) = mask 6" "(0xFF :: 32 word) = mask 8"
  by (simp_all add: mask_eq_exp_minus_1)

lemma sextet_bounds: "sextet1 a < 64" "sextet2 a b < 64" "sextet3 b c < 64" "sextet4 c < 64"
proof -
  have small: "v < 64" if "\<And>n. 6 \<le> n \<Longrightarrow> \<not> bit v n" for v :: "32 word"
    using unat_less_bits [of 6 v] that by (simp add: word_less_nat_alt)
  show "sextet1 a < 64" "sextet2 a b < 64" "sextet3 b c < 64" "sextet4 c < 64"
    by (rule small; auto simp: sextets mask_numerals bit_simps dest: bit_imp_le_length)+
qed

lemmas sextet_bits = sextets mask_numerals bit_simps byte_bits

definition shift_in :: "32 word \<Rightarrow> 32 word \<Rightarrow> 32 word" where
  "shift_in acc v = push_bit 6 acc OR v"

lemma base64_bytes:
  "ucast (drop_bit 4 (shift_in (shift_in acc (sextet1 a)) (sextet2 a b)) AND 0xFF) = a"
  "ucast (drop_bit 2 (shift_in (shift_in acc (sextet2 a b)) (sextet3 b c)) AND 0xFF) = b"
  "ucast (shift_in (shift_in acc (sextet3 b c)) (sextet4 c) AND 0xFF) = c"
  by (rule byte_eqI, elim insertE emptyE; simp add: sextet_bits shift_in_def)+

definition b64char :: "32 word \<Rightarrow> wchar" where
  "b64char v = (if v < 26 then 0x41 + ucast v else if v < 52 then 0x61 + ucast (v - 26) else if v < 62 then 0x30 + ucast (v - 52)
     else if v = 62 then 0x2B else 0x2F)"

fun base64_body :: "bstring \<Rightarrow> wstring" where
  "base64_body [] = []"
| "base64_body [a] = map b64char [sextet1 a, sextet2 a 0]"
| "base64_body [a, b] = map b64char [sextet1 a, sextet2 a b, sextet3 b 0]"
| "base64_body (a # b # c # s) = map b64char [sextet1 a, sextet2 a b, sextet3 b c, sextet4 c] @ base64_body s"

definition encode_base64 :: "bool \<Rightarrow> bstring \<Rightarrow> wstring" where
  "encode_base64 pad s = base64_body s @ (if pad then replicate ((3 - length s mod 3) mod 3) 0x3D else [])"

lemma b64char_facts:
  assumes "v < 64"
  shows "Base64Value (b64char v) = uint v" and "b64char v \<noteq> 0x3D" and "IsValueChar (b64char v)"
proof -
  have "\<forall>n \<in> set [0..<64]. Base64Value (b64char (of_nat n)) = int n \<and> b64char (of_nat n) \<noteq> 0x3D \<and> IsValueChar (b64char (of_nat n))" by code_simp
  moreover have "unat v \<in> set [0..<64]" using assms by (simp add: word_less_nat_alt)
  ultimately have "Base64Value (b64char (of_nat (unat v))) = int (unat v) \<and> b64char (of_nat (unat v)) \<noteq> 0x3D \<and> IsValueChar (b64char (of_nat (unat v)))" by blast
  then show "Base64Value (b64char v) = uint v" and "b64char v \<noteq> 0x3D" and "IsValueChar (b64char v)" by simp_all
qed

lemma base64_loop_char:
  assumes "v < 64"
  shows "base64_loop (b64char v # cs) acc bits out =
    (if bits \<ge> 2 then base64_loop cs (shift_in acc v) (bits - 2) (out @ [ucast (drop_bit (bits - 2) (shift_in acc v) AND 0xFF)])
     else base64_loop cs (shift_in acc v) (bits + 6) out)"
proof -
  have "bits + 6 - 8 = bits - 2" by simp
  then show ?thesis using b64char_facts(1) [OF assms] by (simp add: Let_def shift_in_def)
qed

lemma base64_loop_body: "base64_loop (base64_body s) acc 0 out = Some (out @ s)"
proof (induction s arbitrary: acc out rule: base64_body.induct)
  case (4 a b c s)
  then show ?case by (simp add: base64_loop_char sextet_bounds base64_bytes base64_bytes(3) del: base64_loop.simps)
qed (simp_all add: base64_loop_char sextet_bounds base64_bytes del: base64_loop.simps(2))

lemma base64_body_length: "length (base64_body s) = (length s * 4 + 2) div 3"
  by (induction s rule: base64_body.induct) simp_all

lemma base64_body_chars: "c \<in> set (base64_body s) \<Longrightarrow> c \<noteq> 0x3D \<and> IsValueChar c"
  by (induction s rule: base64_body.induct) (auto simp: b64char_facts sextet_bounds)

definition padding_for :: "bool \<Rightarrow> nat \<Rightarrow> nat" where
  "padding_for pad n = (if pad then (3 - n mod 3) mod 3 else 0)"

lemma third_split:
  fixes n :: nat
  obtains q where "n = 3 * q" "n mod 3 = 0" "(n * 4 + 2) div 3 = 4 * q"
  | q where "n = 3 * q + 1" "n mod 3 = 1" "(n * 4 + 2) div 3 = 4 * q + 2"
  | q where "n = 3 * q + 2" "n mod 3 = 2" "(n * 4 + 2) div 3 = 4 * q + 3"
proof -
  obtain q r where n: "n = r + 3 * q" "r < 3" by (metis mod_mult_div_eq mod_less_divisor zero_less_numeral)
  have d: "((r + 3 * q) * 4 + 2) div 3 = (r * 4 + 2) div 3 + 4 * q" using div_mult_self2 [of 3 "r * 4 + 2" "4 * q"] by (simp add: algebra_simps)
  from n(2) consider "r = 0" | "r = 1" | "r = 2" by linarith
  then show ?thesis
  proof cases
    case 1 with n d show ?thesis by (intro that(1) [of q]) simp_all
  next
    case 2 with n d show ?thesis by (intro that(2) [of q]) simp_all
  next
    case 3 with n d show ?thesis by (intro that(3) [of q]) (simp, simp only:, presburger, simp)
  qed
qed

lemma four: "(4 * q + 2) mod 4 = (2 :: nat)" "(4 * q + 3) mod 4 = (3 :: nat)"
  by presburger+

lemma padding_fits:
  "padding_for pad n \<le> 2" "padding_for pad n = 0 \<or> ((n * 4 + 2) div 3 + padding_for pad n) mod 4 = 0" "(n * 4 + 2) div 3 mod 4 \<noteq> 1"
proof -
  have *: "((3 - n mod 3) mod 3 \<le> 2 \<and> ((n * 4 + 2) div 3 + (3 - n mod 3) mod 3) mod 4 = 0) \<and> (n * 4 + 2) div 3 mod 4 \<noteq> 1"
  proof (cases n rule: third_split)
    case (1 q) then show ?thesis by simp
  next
    case (2 q) then show ?thesis using four(1) [of q] by (simp only: 2(2,3)) simp
  next
    case (3 q) then show ?thesis using four(2) [of q] by (simp only: 3(2,3)) simp
  qed
  show "padding_for pad n \<le> 2" "padding_for pad n = 0 \<or> ((n * 4 + 2) div 3 + padding_for pad n) mod 4 = 0" "(n * 4 + 2) div 3 mod 4 \<noteq> 1"
    using * by (cases pad; simp add: padding_for_def)+
qed

lemma base64_roundtrip: "DecodeBase64 (encode_base64 pad s) = Some s"
proof -
  let ?p = "padding_for pad (length s)"
  have e: "encode_base64 pad s = base64_body s @ replicate ?p 0x3D" by (simp add: encode_base64_def padding_for_def)
  have "dropWhile (\<lambda>c. c = 0x3D) (rev (base64_body s)) = rev (base64_body s)"
    using base64_body_chars [of "last (base64_body s)" s] last_in_set [of "base64_body s"]
    by (cases "base64_body s = []") (simp_all add: dropWhile_eq_self_iff hd_rev)
  then have d: "rev (dropWhile (\<lambda>c. c = 0x3D) (rev (encode_base64 pad s))) = base64_body s"
    unfolding e by (simp add: dropWhile_append)
  have l: "length (encode_base64 pad s) - length (base64_body s) = ?p" by (simp add: e)
  show ?thesis unfolding DecodeBase64_def Let_def d l
    unfolding base64_body_length
    using padding_fits(1) [of pad "length s"] padding_fits(2) [of pad "length s"] padding_fits(3) [of "length s"] base64_loop_body [of s 0 "[]"]
    by (cases "?p = 0") simp_all
qed

subsection \<open>Writing UTF-8\<close>

definition text_cp :: "32 word \<Rightarrow> bool" where
  "text_cp cp \<longleftrightarrow> 0x20 \<le> cp \<and> cp \<noteq> 0x7F \<and> \<not> (cp \<ge> 0x80 \<and> cp \<le> 0x9F) \<and> \<not> (cp \<ge> 0xD800 \<and> cp \<le> 0xDFFF) \<and> cp \<le> 0x10FFFF"

definition trailer :: "32 word \<Rightarrow> byte" where
  "trailer v = 0x80 OR ucast (take_bit 6 v)"

definition encode_utf8 :: "32 word \<Rightarrow> bstring" where
  "encode_utf8 cp =
     (if cp < 0x80 then [ucast cp]
      else if cp < 0x800 then [0xC0 OR ucast (drop_bit 6 cp), trailer cp]
      else if cp < 0x10000 then [0xE0 OR ucast (drop_bit 12 cp), trailer (drop_bit 6 cp), trailer cp]
      else [0xF0 OR ucast (drop_bit 18 cp), trailer (drop_bit 12 cp), trailer (drop_bit 6 cp), trailer cp])"

lemma byte_masks: "(0x3F :: byte) = mask 6" "(0x1F :: byte) = mask 5" "(0x0F :: byte) = mask 4" "(0x07 :: byte) = mask 3"
  by (simp_all add: mask_eq_exp_minus_1)

lemmas utf8_bits = byte_masks trailer_def bit_simps

lemma trailer_ok: "trailer v AND 0xC0 = 0x80" 
  by (rule byte_eqI, elim insertE emptyE; simp add: utf8_bits)

lemma payload:
  assumes "K AND mask k = 0" "k \<le> 8"
  shows "(ucast ((K OR ucast (w :: 32 word) :: byte) AND mask k) :: 32 word) = take_bit k w"
proof -
  have "(K OR ucast w) AND mask k = take_bit k (ucast w)"
    using assms(1) by (simp add: bit.conj_disj_distrib2 take_bit_eq_mask)
  also have "(ucast (take_bit k (ucast w :: byte)) :: 32 word) = take_bit k w"
    using assms(2) by (intro bit_word_eqI) (auto simp: bit_simps)
  finally show ?thesis .
qed

lemma payloads:
  "(ucast (trailer w AND 0x3F) :: 32 word) = take_bit 6 w"
  "(ucast ((0xC0 OR ucast w :: byte) AND 0x1F) :: 32 word) = take_bit 5 w"
  "(ucast ((0xE0 OR ucast w :: byte) AND 0x0F) :: 32 word) = take_bit 4 w"
  "(ucast ((0xF0 OR ucast w :: byte) AND 0x07) :: 32 word) = take_bit 3 w"
proof -
  have z: "(0x80 :: byte) AND mask 6 = 0" "(0xC0 :: byte) AND mask 5 = 0" "(0xE0 :: byte) AND mask 4 = 0" "(0xF0 :: byte) AND mask 3 = 0"
    by (simp_all add: mask_eq_exp_minus_1)
  show "(ucast (trailer w AND 0x3F) :: 32 word) = take_bit 6 w"
    using payload [OF z(1), of "take_bit 6 w"] unfolding trailer_def byte_masks by (simp add: take_bit_take_bit)
  show "(ucast ((0xC0 OR ucast w :: byte) AND 0x1F) :: 32 word) = take_bit 5 w" using payload [OF z(2), of w] unfolding byte_masks by simp
  show "(ucast ((0xE0 OR ucast w :: byte) AND 0x0F) :: 32 word) = take_bit 4 w" using payload [OF z(3), of w] unfolding byte_masks by simp
  show "(ucast ((0xF0 OR ucast w :: byte) AND 0x07) :: 32 word) = take_bit 3 w" using payload [OF z(4), of w] unfolding byte_masks by simp
qed

lemma bits_join: "push_bit 6 (take_bit k (drop_bit 6 w)) OR take_bit 6 w = take_bit (k + 6) w" for w :: "32 word"
  by (rule bit_word_eqI) (auto simp: bit_simps not_le)

lemma lead_bytes:
  fixes cp :: "32 word"
  shows "unat cp < 2 ^ 11 \<Longrightarrow> (0xC0 OR ucast (drop_bit 6 cp) :: byte) AND 0xE0 = 0xC0"
    and "unat cp < 2 ^ 16 \<Longrightarrow> (0xE0 OR ucast (drop_bit 12 cp) :: byte) AND 0xF0 = 0xE0"
    and "unat cp < 2 ^ 21 \<Longrightarrow> (0xF0 OR ucast (drop_bit 18 cp) :: byte) AND 0xF8 = 0xF0"
  by (rule byte_eqI, drule bits_of_less, rule order_refl, elim insertE emptyE; simp add: utf8_bits)+

lemma encode_continue:
  "utf8_continue (take_bit k (drop_bit 6 cp)) [trailer cp] = Some (take_bit (k + 6) cp)"
  "utf8_continue (take_bit k (drop_bit 12 cp)) [trailer (drop_bit 6 cp), trailer cp] = Some (take_bit (k + 12) cp)"
  "utf8_continue (take_bit k (drop_bit 18 cp)) [trailer (drop_bit 12 cp), trailer (drop_bit 6 cp), trailer cp] = Some (take_bit (k + 18) cp)"
  using bits_join [of k cp] bits_join [of k "drop_bit 6 cp"] bits_join [of "k + 6" cp] bits_join [of k "drop_bit 12 cp"]
    bits_join [of "k + 6" "drop_bit 6 cp"] bits_join [of "k + 12" cp]
  by (simp_all add: trailer_ok payloads drop_bit_drop_bit add.commute)

lemma take_bit_small: "unat cp < 2 ^ k \<Longrightarrow> take_bit k cp = cp" for cp :: "32 word"
  by (rule bit_word_eqI) (metis bit_take_bit_iff bits_of_less not_le)


lemma lead_high:
  fixes x :: byte
  shows "bit x 7 \<Longrightarrow> \<not> x < 0x80" "bit x 5 \<Longrightarrow> x AND 0xE0 \<noteq> 0xC0" "bit x 4 \<Longrightarrow> x AND 0xF0 \<noteq> 0xE0"
proof -
  show "bit x 7 \<Longrightarrow> \<not> x < 0x80" using bits_of_less [of x 7 7] by (auto simp: word_less_nat_alt)
  show "bit x 5 \<Longrightarrow> x AND 0xE0 \<noteq> 0xC0"
  proof
    assume "bit x 5" "x AND 0xE0 = 0xC0"
    then have "bit (x AND 0xE0) 5 = bit (0xC0 :: byte) 5" by simp
    with \<open>bit x 5\<close> show False by (simp add: bit_simps)
  qed
  show "bit x 4 \<Longrightarrow> x AND 0xF0 \<noteq> 0xE0"
  proof
    assume "bit x 4" "x AND 0xF0 = 0xE0"
    then have "bit (x AND 0xF0) 4 = bit (0xE0 :: byte) 4" by simp
    with \<open>bit x 4\<close> show False by (simp add: bit_simps)
  qed
qed

lemma ascii_byte:
  fixes cp :: "32 word"
  assumes "cp < 0x80"
  shows "(ucast cp :: byte) < 0x80" "(ucast (ucast cp :: byte) :: 32 word) = cp"
proof -
  have u: "unat cp < 0x80" using assms by (simp add: word_less_nat_alt)
  then have "unat (ucast cp :: byte) = unat cp" by (simp add: unsigned_ucast_eq take_bit_nat_eq_self)
  then show "(ucast cp :: byte) < 0x80" "(ucast (ucast cp :: byte) :: 32 word) = cp"
    using u by (simp_all add: word_less_nat_alt word_unat_eq_iff unsigned_ucast_eq unsigned_take_bit_eq take_bit_nat_eq_self)
qed

lemma utf8_step_bytes:
  assumes "utf8_lead b0 = Some (c, Suc (length bs), least)" and "utf8_continue c bs = Some cp" and "least \<le> cp" and "text_cp cp"
  shows "utf8_step (b0 # bs @ s) = Inr (cp, s)"
  using assms by (auto simp: utf8_step_def text_cp_def)

lemma encode_utf8_step:
  assumes "text_cp cp"
  shows "utf8_step (encode_utf8 cp @ s) = Inr (cp, s)"
proof -
  have lim: "cp \<le> 0x10FFFF" using assms by (simp add: text_cp_def)
  consider "cp < 0x80" | "0x80 \<le> cp" "cp < 0x800" | "0x800 \<le> cp" "cp < 0x10000" | "0x10000 \<le> cp" by fastforce
  then show ?thesis
  proof cases
    case 1
    then have "utf8_lead (ucast cp) = Some (cp, Suc (length []), 0)" using ascii_byte [OF 1] by (simp add: utf8_lead_def)
    from utf8_step_bytes [OF this _ _ assms] 1 show ?thesis by (simp add: encode_utf8_def)
  next
    case 2
    then have u: "unat cp < 2 ^ 11" by (simp add: word_less_nat_alt)
    from 2 have e: "\<not> cp < 0x80" by (simp add: not_less)
    have "\<not> (0xC0 OR ucast (drop_bit 6 cp) :: byte) < 0x80" by (rule lead_high) (simp add: bit_simps)
    then have "utf8_lead (0xC0 OR ucast (drop_bit 6 cp)) = Some (take_bit 5 (drop_bit 6 cp), Suc (length [trailer cp]), 0x80)"
      using lead_bytes(1) [OF u] by (simp add: utf8_lead_def payloads)
    from utf8_step_bytes [OF this _ 2(1) assms] encode_continue(1) [of 5 cp] take_bit_small [OF u] 2 e show ?thesis
      by (simp add: encode_utf8_def)
  next
    case 3
    then have u: "unat cp < 2 ^ 16" by (simp add: word_less_nat_alt)
    from 3(1) have e: "\<not> cp < 0x80" "\<not> cp < 0x800" by uint_arith+
    have "\<not> (0xE0 OR ucast (drop_bit 12 cp) :: byte) < 0x80" "(0xE0 OR ucast (drop_bit 12 cp) :: byte) AND 0xE0 \<noteq> 0xC0"
      by (rule lead_high; simp add: bit_simps)+
    then have "utf8_lead (0xE0 OR ucast (drop_bit 12 cp)) = Some (take_bit 4 (drop_bit 12 cp), Suc (length [trailer (drop_bit 6 cp), trailer cp]), 0x800)"
      using lead_bytes(2) [OF u] by (simp add: utf8_lead_def payloads)
    from utf8_step_bytes [OF this _ 3(1) assms] encode_continue(2) [of 4 cp] take_bit_small [OF u] 3 e show ?thesis
      by (simp add: encode_utf8_def)
  next
    case 4
    have u: "unat cp < 2 ^ 21" using lim by (simp add: word_le_nat_alt)
    from 4 have e: "\<not> cp < 0x80" "\<not> cp < 0x800" "\<not> cp < 0x10000" by uint_arith+
    have "\<not> (0xF0 OR ucast (drop_bit 18 cp) :: byte) < 0x80" "(0xF0 OR ucast (drop_bit 18 cp) :: byte) AND 0xE0 \<noteq> 0xC0"
       "(0xF0 OR ucast (drop_bit 18 cp) :: byte) AND 0xF0 \<noteq> 0xE0" by (rule lead_high; simp add: bit_simps)+
    then have "utf8_lead (0xF0 OR ucast (drop_bit 18 cp)) =
        Some (take_bit 3 (drop_bit 18 cp), Suc (length [trailer (drop_bit 12 cp), trailer (drop_bit 6 cp), trailer cp]), 0x10000)"
      using lead_bytes(3) [OF u] by (simp add: utf8_lead_def payloads)
    from utf8_step_bytes [OF this _ 4 assms] encode_continue(3) [of 3 cp] take_bit_small [OF u] e show ?thesis
      by (simp add: encode_utf8_def)
  qed
qed

lemma utf8_roundtrip_loop:
  "\<forall>cp \<in> set cps. text_cp cp \<and> \<not> is_bidi_control cp \<Longrightarrow>
   utf8_loop (concat (map encode_utf8 cps)) out = Inr (out @ concat (map utf16_units cps))"
proof (induction cps arbitrary: out)
  case Nil
  show ?case by (simp add: utf8_loop.simps)
next
  case (Cons cp cps)
  have "encode_utf8 cp \<noteq> []" by (simp add: encode_utf8_def)
  with Cons encode_utf8_step [of cp] show ?case by (subst utf8_loop.simps) simp
qed

lemma utf8_roundtrip:
  "\<forall>cp \<in> set cps. text_cp cp \<and> \<not> is_bidi_control cp \<Longrightarrow>
   DecodeUtf8Text (concat (map encode_utf8 cps)) = Inr (concat (map utf16_units cps))"
  by (simp add: DecodeUtf8Text_def utf8_roundtrip_loop)

end
