(* ===== verification/Axan_StatusReports.thy ===== *)
theory Axan_StatusReports
  imports Axan_StatusText
begin

text \<open>
  What \<^verbatim>\<open>ProgramStatus::Parse\<close> guarantees: accepted reports are well formed, an id is never lost on the
  way to the root record, ids are exactly the words of their grammar, and every well-formed report
  can be written down so that it is read back unchanged.
\<close>

subsection \<open>Well-formed reports\<close>

definition text_ok :: "nat \<Rightarrow> wstring \<Rightarrow> bool" where
  "text_ok n s \<longleftrightarrow> length s \<le> n \<and> (\<exists>cps. s = concat (map utf16_units cps) \<and> (\<forall>cp \<in> set cps. text_cp cp \<and> \<not> is_bidi_control cp))"

definition report_ok :: "Report \<Rightarrow> bool" where
  "report_ok r \<longleftrightarrow> (r_id r = [] \<or> IsValidId (r_id r)) \<and> length (r_app r) \<le> MaxAppBytes \<and> list_all IsNameChar (r_app r) \<and>
     (r_kind r \<noteq> NoKind \<longrightarrow> r_state r = Blocked) \<and> (\<forall>p \<in> set_option (r_progress r). p \<le> 100 \<and> IsLive (r_state r)) \<and>
     text_ok MaxTitleDecodedBytes (r_title r) \<and> text_ok MaxMsgDecodedBytes (r_msg r)"

lemma utf8_lead_len: "utf8_lead b = Some (cp, len, least) \<Longrightarrow> 0 < len \<and> (len = 1 \<longrightarrow> cp < 0x80)"
proof -
  assume a: "utf8_lead b = Some (cp, len, least)"
  have "(ucast b :: 32 word) < 0x80" if "b < 0x80"
    using that by (simp add: word_less_nat_alt unsigned_ucast_eq take_bit_nat_eq_self)
  with a show ?thesis by (auto simp: utf8_lead_def split: if_splits)
qed

lemma utf8_step_sound:
  assumes "utf8_step s = Inr (cp, rest)"
  shows "text_cp cp" "length (utf16_units cp) + length rest \<le> length s"
proof -
  from assms obtain b0 t c len least where s: "s = b0 # t" and l: "utf8_lead b0 = Some (c, len, least)" and n: "len \<le> length s"
    and c: "utf8_continue c (take (len - 1) t) = Some cp" and cp: "text_cp cp" and r: "rest = drop (len - 1) t"
    by (auto simp: utf8_step_def text_cp_def not_less split: list.splits option.splits if_splits)
  show "text_cp cp" by (rule cp)
  note L = utf8_lead_len [OF l]
  have "length (utf16_units cp) \<le> len"
  proof (cases "len = 1")
    case True
    then have "cp < 0x80" using L c by simp
    then have "\<not> cp \<ge> 0x10000" by (simp add: not_le) (erule less_trans, simp)
    with True show ?thesis by (simp add: utf16_units_def)
  next
    case False
    then show ?thesis using L by (simp add: utf16_units_def Let_def)
  qed
  then show "length (utf16_units cp) + length rest \<le> length s" using L n r s by simp
qed

lemma utf8_loop_sound:
  "utf8_loop s out = Inr t \<Longrightarrow> \<exists>cps. t = out @ concat (map utf16_units cps) \<and> (\<forall>cp \<in> set cps. text_cp cp \<and> \<not> is_bidi_control cp) \<and>
     length t \<le> length out + length s"
proof (induction s out rule: utf8_loop.induct)
  case (1 s out)
  show ?case
  proof (cases "s = []")
    case True
    with "1.prems" show ?thesis by (intro exI [of _ "[]"]) (simp add: utf8_loop.simps)
  next
    case False
    with "1.prems" obtain cp rest where st: "utf8_step s = Inr (cp, rest)"
      and l: "utf8_loop rest (if is_bidi_control cp then out else out @ utf16_units cp) = Inr t"
      by (subst (asm) utf8_loop.simps) (auto split: sum.splits)
    from "1.IH" [OF False st refl l] obtain cps where
      cps: "t = (if is_bidi_control cp then out else out @ utf16_units cp) @ concat (map utf16_units cps)"
        "\<forall>cp \<in> set cps. text_cp cp \<and> \<not> is_bidi_control cp"
        "length t \<le> length (if is_bidi_control cp then out else out @ utf16_units cp) + length rest" by blast
    from cps utf8_step_sound [OF st] show ?thesis
      by (intro exI [of _ "if is_bidi_control cp then cps else cp # cps"]) (auto split: if_splits)
  qed
qed

lemma report_text_sound: "report_text t m n = Inr s \<Longrightarrow> text_ok n s"
proof (cases t)
  case None
  moreover assume "report_text t m n = Inr s"
  ultimately show ?thesis by (simp add: report_text_def text_ok_def exI [of _ "[]"])
next
  case (Some e)
  moreover assume "report_text t m n = Inr s"
  ultimately obtain bytes where "length bytes \<le> n" "utf8_loop bytes [] = Inr s"
    by (auto simp: report_text_def DecodeTextField_def DecodeUtf8Text_def not_less split: option.splits if_splits)
  with utf8_loop_sound [of bytes "[]" s] show ?thesis by (auto simp: text_ok_def intro: order_trans)
qed

lemma pair_step_id:
  assumes "pair_step pair f = Inr g" and "\<forall>i \<in> set_option (f_id f). IsValidId i"
  shows "\<forall>i \<in> set_option (f_id g). IsValidId i"
  using assms by (auto simp: pair_step_def store_field_def skip_def Let_def split: if_splits)

lemma pair_loop_id:
  "pair_loop p f = Inr g \<Longrightarrow> \<forall>i \<in> set_option (f_id f). IsValidId i \<Longrightarrow> \<forall>i \<in> set_option (f_id g). IsValidId i"
proof (induction p f rule: pair_loop.induct)
  case (1 p f)
  from "1.prems"(1) obtain h where h: "pair_step (takeWhile (\<lambda>c. c \<noteq> 0x3A) p) f = Inr h" by (subst (asm) pair_loop.simps) (auto split: sum.splits)
  note v = pair_step_id [OF h "1.prems"(2)]
  show ?case
  proof (cases "dropWhile (\<lambda>c. c \<noteq> 0x3A) p")
    case Nil
    with "1.prems"(1) h v show ?thesis by (subst (asm) pair_loop.simps) simp
  next
    case (Cons x rest)
    with "1.prems"(1) h have "pair_loop rest h = Inr g" by (subst (asm) pair_loop.simps) simp
    from "1.IH" [OF h Cons this v] show ?thesis .
  qed
qed

lemma progress_bound:
  assumes "ParseProgress v = Some p"
  shows "p \<le> 100"
proof -
  obtain w :: "32 word" where w: "w \<le> 100" "p = ucast w" using assms by (auto simp: ParseProgress_def not_less split: if_splits option.splits)
  then have "unat w \<le> 100" by (simp add: word_le_nat_alt)
  then have "unat (ucast w :: byte) = unat w" by (simp add: unsigned_ucast_eq take_bit_nat_eq_self)
  with \<open>unat w \<le> 100\<close> w(2) show ?thesis by (simp add: word_le_nat_alt)
qed

lemma build_report_sound:
  assumes "pr_outcome (build_report f) = ReportOutcome" and "\<forall>i \<in> set_option (f_id f). IsValidId i"
  shows "report_ok (pr_report (build_report f)) \<and> r_id (pr_report (build_report f)) = (case f_id f of None \<Rightarrow> [] | Some i \<Rightarrow> i)"
proof -
  have D: "pr_outcome (Discard why) \<noteq> ReportOutcome" for why by (simp add: Discard_def)
  from assms(1) obtain s st app title msg where s: "f_state f = Some s" "ParseState s = Some st" "report_app (f_app f) = Inr app"
    "report_text (f_title f) MaxTitleEncodedBytes MaxTitleDecodedBytes = Inr title" "report_text (f_msg f) MaxMsgEncodedBytes MaxMsgDecodedBytes = Inr msg"
    unfolding build_report_def using D by (auto split: option.splits sum.splits)
  have app: "length app \<le> MaxAppBytes" "list_all IsNameChar app"
    using s(3) by (auto simp: report_app_def not_less split: option.splits if_splits)
  show ?thesis
    using assms(2) app report_text_sound [OF s(4)] report_text_sound [OF s(5)]
    by (auto simp: build_report_def s report_ok_def IsLive_def progress_bound split: option.splits if_splits)
qed

lemma accepted_report_ok:
  assumes "pr_outcome (Parse payload) = ReportOutcome"
  shows "report_ok (pr_report (Parse payload))"
proof -
  from assms obtain f where f: "pair_loop payload no_fields = Inr f" "Parse payload = build_report f"
    by (auto simp: Parse_def Discard_def split: if_splits sum.splits)
  have "\<forall>i \<in> set_option (f_id f). IsValidId i" using pair_loop_id [OF f(1)] by (simp add: no_fields_def)
  with build_report_sound [of f] assms f(2) show ?thesis by simp
qed

text \<open>
  C9. Every report the parser accepts is well formed, whatever bytes a program sends: its id is
  empty or a valid id, its application name is short and made of name characters, a kind comes
  only with \<^verbatim>\<open>blocked\<close>, a progress only with a live state and at most 100, and its title and message
  are proper UTF-16 within their limits without control or bidirectional formatting characters.
\<close>

theorem Parse_report_ok:
  assumes "pr_outcome (Parse payload) = ReportOutcome"
  shows "report_ok (pr_report (Parse payload))"
  using assms by (rule accepted_report_ok)

theorem Parse_report_ok_witness:
  "pr_outcome (Parse (wlit ''state=blocked:id=build/1:kind=auth:progress=7:title=aGk='')) = ReportOutcome \<and>
   report_ok (pr_report (Parse (wlit ''state=blocked:id=build/1:kind=auth:progress=7:title=aGk='')))"
proof -
  have o: "pr_outcome (Parse (wlit ''state=blocked:id=build/1:kind=auth:progress=7:title=aGk='')) = ReportOutcome" by code_simp
  from Parse_report_ok [OF o] o show ?thesis by blast
qed

subsection \<open>Ids\<close>

text \<open>The pairs of a payload, cut at its colons; what a pair calls its id.\<close>

function payload_pairs :: "wstring \<Rightarrow> wstring list" where
  "payload_pairs p = takeWhile (\<lambda>c. c \<noteq> 0x3A) p # (case dropWhile (\<lambda>c. c \<noteq> 0x3A) p of [] \<Rightarrow> [] | _ # rest \<Rightarrow> payload_pairs rest)"
  by pat_completeness auto
termination
  by (relation "measure length") (auto, metis length_dropWhile_le length_Cons Suc_le_lessD)

declare payload_pairs.simps [simp del]

definition pair_key :: "wstring \<Rightarrow> wstring" where
  "pair_key pair = Trim (takeWhile (\<lambda>c. c \<noteq> 0x3D) pair)"

definition pair_value :: "wstring \<Rightarrow> wstring" where
  "pair_value pair = Trim (tl (dropWhile (\<lambda>c. c \<noteq> 0x3D) pair))"

definition id_pairs :: "wstring list \<Rightarrow> wstring list" where
  "id_pairs ps = filter (\<lambda>p. pair_key p = wlit ''id'') ps"

lemma id_key: "IsKey (wlit ''id'')" "\<not> length (wlit ''id'') > MaxKeyBytes" "wlit ''id'' \<noteq> wlit ''state''" "\<not> IsValidId []"
  by code_simp+

lemma pair_step_ids:
  assumes "pair_step pair f = Inr g"
  shows "if pair_key pair = wlit ''id'' then IsValidId (pair_value pair) \<and> f_id g = Some (pair_value pair) else f_id g = f_id f"
proof (cases "0x3D \<in> set pair")
  case True
  with assms show ?thesis
    by (auto simp: pair_step_def pair_key_def pair_value_def store_field_def skip_def Let_def id_key id_key(3) [symmetric] simp del: wlit_simps split: if_splits)
next
  case False
  then have "pair_key pair = Trim pair" unfolding pair_key_def by (subst takeWhile_eq_all_conv [THEN iffD2]) auto
  with assms False show ?thesis by (auto simp: pair_step_def skip_def simp del: wlit_simps split: if_splits)
qed

lemma pair_loop_ids:
  "pair_loop p f = Inr g \<Longrightarrow> (\<forall>q \<in> set (id_pairs (payload_pairs p)). IsValidId (pair_value q)) \<and>
     f_id g = (if id_pairs (payload_pairs p) = [] then f_id f else Some (pair_value (last (id_pairs (payload_pairs p)))))"
proof (induction p f rule: pair_loop.induct)
  case (1 p f)
  let ?w = "takeWhile (\<lambda>c. c \<noteq> 0x3A) p"
  from "1.prems" obtain h where h: "pair_step ?w f = Inr h" by (subst (asm) pair_loop.simps) (auto split: sum.splits)
  note S = pair_step_ids [OF h]
  show ?case
  proof (cases "dropWhile (\<lambda>c. c \<noteq> 0x3A) p")
    case Nil
    with "1.prems" h have "g = h" by (subst (asm) pair_loop.simps) simp
    moreover have "payload_pairs p = [?w]" by (subst payload_pairs.simps, subst Nil) simp
    ultimately show ?thesis using S by (auto simp: id_pairs_def split: if_splits)
  next
    case (Cons x rest)
    with "1.prems" h have "pair_loop rest h = Inr g" by (subst (asm) pair_loop.simps) simp
    note IH = "1.IH" [OF h Cons this]
    have "payload_pairs p = ?w # payload_pairs rest" using Cons by (subst payload_pairs.simps) simp
    with IH S show ?thesis by (auto simp: id_pairs_def simp del: wlit_simps split: if_splits)
  qed
qed

text \<open>
  C18. A report never reaches the root record by mistake. When a payload is accepted, every pair
  that names an id, with or without a value, carries a valid one; the report is addressed to the
  last of them, and to the root only when no pair names an id at all. (A clear addressed to the
  root removes every record.)
\<close>

theorem Parse_id_never_lost:
  assumes "pr_outcome (Parse payload) = ReportOutcome"
  shows "(\<forall>q \<in> set (id_pairs (payload_pairs payload)). IsValidId (pair_value q)) \<and>
    r_id (pr_report (Parse payload)) =
      (if id_pairs (payload_pairs payload) = [] then [] else pair_value (last (id_pairs (payload_pairs payload)))) \<and>
    (r_id (pr_report (Parse payload)) = [] \<longleftrightarrow> id_pairs (payload_pairs payload) = [])"
proof -
  from assms obtain f where f: "pair_loop payload no_fields = Inr f" "Parse payload = build_report f"
    by (auto simp: Parse_def Discard_def split: if_splits sum.splits)
  have "\<forall>i \<in> set_option (f_id f). IsValidId i" using pair_loop_id [OF f(1)] by (simp add: no_fields_def)
  with build_report_sound [of f] assms f(2) have r: "r_id (pr_report (Parse payload)) = (case f_id f of None \<Rightarrow> [] | Some i \<Rightarrow> i)" by simp
  note L = pair_loop_ids [OF f(1)]
  have "pair_value (last (id_pairs (payload_pairs payload))) \<noteq> []" if "id_pairs (payload_pairs payload) \<noteq> []"
    using L last_in_set [OF that] id_key(4) by auto
  with L r show ?thesis by (auto simp: no_fields_def)
qed

theorem Parse_id_never_lost_witness:
  "pr_outcome (Parse (wlit ''state=clear:id=a:id= b/c '')) = ReportOutcome \<and>
   r_id (pr_report (Parse (wlit ''state=clear:id=a:id= b/c ''))) = wlit ''b/c'' \<and>
   pr_outcome (Parse (wlit ''state=clear:id=a:id'')) = Discarded"
proof -
  have o: "pr_outcome (Parse (wlit ''state=clear:id=a:id= b/c '')) = ReportOutcome" by code_simp
  have p: "id_pairs (payload_pairs (wlit ''state=clear:id=a:id= b/c '')) = [wlit ''id=a'', wlit ''id= b/c '']" by code_simp
  have v: "pair_value (wlit ''id= b/c '') = wlit ''b/c''" by code_simp
  have d: "pr_outcome (Parse (wlit ''state=clear:id=a:id'')) = Discarded" by code_simp
  from Parse_id_never_lost [OF o] show ?thesis unfolding p using o v d by simp
qed

subsection \<open>Writing a report\<close>

definition pair_text :: "wstring \<times> wstring \<Rightarrow> wstring" where
  "pair_text p = fst p @ 0x3D # snd p"

fun join_pairs :: "(wstring \<times> wstring) list \<Rightarrow> wstring" where
  "join_pairs [] = []"
| "join_pairs [p] = pair_text p"
| "join_pairs (p # q # ps) = pair_text p @ 0x3A # join_pairs (q # ps)"

definition pair_ok :: "wstring \<times> wstring \<Rightarrow> bool" where
  "pair_ok p \<longleftrightarrow> IsKey (fst p) \<and> length (fst p) \<le> MaxKeyBytes \<and> list_all IsValueChar (snd p)"

fun store_all :: "(wstring \<times> wstring) list \<Rightarrow> raw_fields \<Rightarrow> string + raw_fields" where
  "store_all [] f = Inr f"
| "store_all (p # ps) f = (case store_field (fst p) (snd p) f of Inl why \<Rightarrow> Inl why | Inr g \<Rightarrow> store_all ps g)"

lemma key_char: "\<not> (c < 0x61 \<or> c > 0x7A) \<Longrightarrow> c \<noteq> 0x3D \<and> c \<noteq> 0x3A \<and> \<not> IsSpace c" for c :: wchar
  by (auto simp: IsSpace_def)

lemma value_char: "IsValueChar c \<Longrightarrow> c \<noteq> 0x3A \<and> \<not> IsSpace c"
  by (auto simp: IsSpace_def IsValueChar_def IsAlnum_def)

lemma Trim_id: "\<forall>c \<in> set s. \<not> IsSpace c \<Longrightarrow> Trim s = s"
  by (simp add: Trim_def dropWhile_eq_self_iff) (metis dropWhile_eq_self_iff hd_in_set rev_rev_ident set_rev)

lemma pair_ok_chars:
  assumes "pair_ok p"
  shows "\<forall>c \<in> set (fst p). c \<noteq> 0x3D \<and> c \<noteq> 0x3A \<and> \<not> IsSpace c" "\<forall>c \<in> set (snd p). c \<noteq> 0x3A \<and> \<not> IsSpace c"
  using assms key_char value_char by (auto simp: pair_ok_def IsKey_def list_all_iff)

lemma pair_step_text:
  assumes "pair_ok p"
  shows "pair_step (pair_text p) f = store_field (fst p) (snd p) f"
proof -
  note C = pair_ok_chars [OF assms]
  have "takeWhile (\<lambda>c. c \<noteq> 0x3D) (pair_text p) = fst p" "dropWhile (\<lambda>c. c \<noteq> 0x3D) (pair_text p) = 0x3D # snd p"
    using C(1) by (auto simp: pair_text_def takeWhile_tail dropWhile_append3)
  moreover have "Trim (fst p) = fst p" "Trim (snd p) = snd p" using C by (auto intro: Trim_id)
  ultimately show ?thesis using assms by (simp add: pair_step_def pair_ok_def pair_text_def Let_def)
qed

lemma pair_text_colon: "pair_ok p \<Longrightarrow> c \<in> set (pair_text p) \<Longrightarrow> c \<noteq> 0x3A"
  using pair_ok_chars [of p] by (auto simp: pair_text_def)

lemma pair_loop_join: "ps \<noteq> [] \<Longrightarrow> \<forall>p \<in> set ps. pair_ok p \<Longrightarrow> pair_loop (join_pairs ps) f = store_all ps f"
proof (induction ps arbitrary: f rule: join_pairs.induct)
  case (2 p)
  have e: "takeWhile (\<lambda>c. c \<noteq> 0x3A) (pair_text p) = pair_text p" "dropWhile (\<lambda>c. c \<noteq> 0x3A) (pair_text p) = []"
    using pair_text_colon [of p] 2 by auto
  have "pair_loop (pair_text p) f = (case pair_step (pair_text p) f of Inl why \<Rightarrow> Inl why | Inr g \<Rightarrow> Inr g)"
    by (subst pair_loop.simps) (simp only: e list.case)
  then show ?case using 2 by (simp add: pair_step_text split: sum.splits)
next
  case (3 p q ps)
  have "takeWhile (\<lambda>c. c \<noteq> 0x3A) (pair_text p @ 0x3A # join_pairs (q # ps)) = pair_text p"
    "dropWhile (\<lambda>c. c \<noteq> 0x3A) (pair_text p @ 0x3A # join_pairs (q # ps)) = 0x3A # join_pairs (q # ps)"
    using pair_text_colon [of p] 3 by (auto simp: takeWhile_tail dropWhile_append3)
  then show ?case using 3 by (subst pair_loop.simps) (simp add: pair_step_text split: sum.splits)
qed simp

text \<open>A report as a program writes it; absent values are left out.\<close>

definition opt_pair :: "string \<Rightarrow> wstring \<Rightarrow> (wstring \<times> wstring) list" where
  "opt_pair k v = (if v = [] then [] else [(wlit k, v)])"

definition text_bytes :: "32 word list \<Rightarrow> bstring" where
  "text_bytes cps = concat (map encode_utf8 cps)"

definition report_pairs :: "bool \<Rightarrow> Report \<Rightarrow> 32 word list \<Rightarrow> 32 word list \<Rightarrow> (wstring \<times> wstring) list" where
  "report_pairs pad r title msg =
     (wlit ''state'', wlit (StateName (r_state r))) # opt_pair ''id'' (r_id r) @ opt_pair ''app'' (r_app r) @
     opt_pair ''kind'' (wlit (KindName (r_kind r))) @
     opt_pair ''progress'' (case r_progress r of None \<Rightarrow> [] | Some p \<Rightarrow> decimal (unat p)) @
     opt_pair ''title'' (encode_base64 pad (text_bytes title)) @ opt_pair ''msg'' (encode_base64 pad (text_bytes msg))"

definition report_wire :: "bool \<Rightarrow> Report \<Rightarrow> 32 word list \<Rightarrow> 32 word list \<Rightarrow> wstring" where
  "report_wire pad r title msg = join_pairs (report_pairs pad r title msg)"

text \<open>Title and message as code points, within the limits on their UTF-8 form.\<close>

definition writes_text :: "32 word list \<Rightarrow> nat \<Rightarrow> wstring \<Rightarrow> bool" where
  "writes_text cps n s \<longleftrightarrow> s = concat (map utf16_units cps) \<and> length (text_bytes cps) \<le> n \<and> (\<forall>cp \<in> set cps. text_cp cp \<and> \<not> is_bidi_control cp)"

definition opt_value :: "wstring \<Rightarrow> wstring option" where
  "opt_value v = (if v = [] then None else Some v)"

lemma store_all_append: "store_all (ps @ qs) f = (case store_all ps f of Inl why \<Rightarrow> Inl why | Inr g \<Rightarrow> store_all qs g)"
  by (induction ps arbitrary: f) (simp_all split: sum.splits)

lemma store_opt:
  "IsValidId i \<or> i = [] \<Longrightarrow> store_all (opt_pair ''id'' i @ ps) f = store_all ps (if i = [] then f else f\<lparr>f_id := Some i\<rparr>)"
  "store_all (opt_pair ''app'' v @ ps) f = store_all ps (if v = [] then f else f\<lparr>f_app := Some v\<rparr>)"
  "store_all (opt_pair ''kind'' v @ ps) f = store_all ps (if v = [] then f else f\<lparr>f_kind := Some v\<rparr>)"
  "store_all (opt_pair ''progress'' v @ ps) f = store_all ps (if v = [] then f else f\<lparr>f_progress := Some v\<rparr>)"
  "store_all (opt_pair ''title'' v @ ps) f = store_all ps (if v = [] then f else f\<lparr>f_title := Some v\<rparr>)"
  "store_all (opt_pair ''msg'' v) f = Inr (if v = [] then f else f\<lparr>f_msg := Some v\<rparr>)"
  by (auto simp: opt_pair_def store_field_def)

lemma store_report:
  assumes "report_ok r"
  shows "store_all (report_pairs pad r title msg) no_fields = Inr \<lparr>f_state = Some (wlit (StateName (r_state r))), f_id = opt_value (r_id r),
    f_app = opt_value (r_app r), f_kind = opt_value (wlit (KindName (r_kind r))),
    f_progress = opt_value (case r_progress r of None \<Rightarrow> [] | Some p \<Rightarrow> decimal (unat p)),
    f_title = opt_value (encode_base64 pad (text_bytes title)), f_msg = opt_value (encode_base64 pad (text_bytes msg)), f_skipped = 0\<rparr>"
proof -
  have i: "IsValidId (r_id r) \<or> r_id r = []" using assms by (auto simp: report_ok_def)
  have s: "store_field (wlit ''state'') v f = Inr (f\<lparr>f_state := Some v\<rparr>)" for v f by (simp add: store_field_def)
  show ?thesis
    unfolding report_pairs_def by (simp only: store_all.simps fst_conv snd_conv s sum.case store_opt(1) [OF i] store_opt(2-6))
      (simp add: opt_value_def no_fields_def)
qed

lemma progress_roundtrip: "p \<le> 100 \<Longrightarrow> ParseProgress (decimal (unat p)) = Some p" for p :: byte
proof -
  assume "p \<le> 100"
  then have "unat p \<in> set [0..<101]" by (simp add: word_le_nat_alt)
  moreover have "\<forall>n \<in> set [0..<101]. ParseProgress (decimal n) = Some (of_nat n)" by code_simp
  ultimately have "ParseProgress (decimal (unat p)) = Some (of_nat (unat p))" by blast
  then show ?thesis by simp
qed

lemma encoded_length: "length (encode_base64 pad s) \<le> (length s + 2) div 3 * 4"
proof -
  have l: "length (encode_base64 pad s) \<le> (length s * 4 + 2) div 3 + (3 - length s mod 3) mod 3"
    by (simp add: encode_base64_def base64_body_length)
  show ?thesis
  proof (cases "length s" rule: third_split)
    case (1 q) then show ?thesis using l by simp
  next
    case (2 q)
    then have "(length s + 2) div 3 = q + 1" by simp
    with 2 l show ?thesis by (simp only: 2(2,3)) simp
  next
    case (3 q)
    then have "(length s + 2) div 3 = q + 1" by (intro div_nat_eqI) simp_all
    with 3 l show ?thesis by (simp only: 3(2,3)) simp
  qed
qed

lemma text_field_roundtrip:
  assumes w: "writes_text cps n s" and n: "(n + 2) div 3 * 4 \<le> m"
  shows "report_text (opt_value (encode_base64 pad (text_bytes cps))) m n = Inr s"
proof (cases "encode_base64 pad (text_bytes cps) = []")
  case True
  then have "text_bytes cps = []" using base64_roundtrip [of pad "text_bytes cps"] by (simp add: DecodeBase64_def)
  then have "cps = []" by (cases cps) (auto simp: text_bytes_def encode_utf8_def split: if_splits)
  with w True show ?thesis by (simp add: report_text_def opt_value_def writes_text_def)
next
  case False
  have "length (text_bytes cps) \<le> n" using w by (simp add: writes_text_def)
  then have "length (encode_base64 pad (text_bytes cps)) \<le> m"
    using encoded_length [of pad "text_bytes cps"] n by (meson add_le_mono1 div_le_mono mult_le_mono1 order_trans)
  with False w show ?thesis using utf8_roundtrip [of cps]
    by (auto simp: report_text_def opt_value_def DecodeTextField_def base64_roundtrip writes_text_def text_bytes_def)
qed

lemma key_names:
  "pair_ok (wlit ''state'', wlit (StateName st))" "pair_ok (wlit ''kind'', wlit (KindName k))"
  "\<forall>k \<in> set [''id'', ''app'', ''progress'', ''title'', ''msg'']. IsKey (wlit k) \<and> length (wlit k) \<le> MaxKeyBytes"
proof -
  have "list_all (\<lambda>st. pair_ok (wlit ''state'', wlit (StateName st))) [Idle, Working, Done, Blocked, Error, Clear]" by code_simp
  then show "pair_ok (wlit ''state'', wlit (StateName st))" by (cases st) simp_all
  have "list_all (\<lambda>k. pair_ok (wlit ''kind'', wlit (KindName k))) [NoKind, Permission, Question, Auth]" by code_simp
  then show "pair_ok (wlit ''kind'', wlit (KindName k))" by (cases k) simp_all
  show "\<forall>k \<in> set [''id'', ''app'', ''progress'', ''title'', ''msg'']. IsKey (wlit k) \<and> length (wlit k) \<le> MaxKeyBytes" by code_simp
qed

lemma name_value_char: "IsNameChar c \<Longrightarrow> IsValueChar c"
  by (auto simp: IsNameChar_def IsValueChar_def)

lemma id_loop_chars: "id_loop i a b \<Longrightarrow> list_all IsValueChar i"
proof (induction i a b rule: id_loop.induct)
  case (2 ch cs a b)
  have "IsValueChar 0x2F" by (simp add: IsValueChar_def)
  with 2 show ?case using name_value_char [of ch] by (auto split: if_splits)
qed simp

lemma encoded_chars: "list_all IsValueChar (encode_base64 pad s)"
  using base64_body_chars [of _ s] by (auto simp: encode_base64_def list_all_iff IsValueChar_def)

lemma progress_text: "p \<le> 100 \<Longrightarrow> list_all IsValueChar (decimal (unat p)) \<and> length (decimal (unat p)) \<le> 3" for p :: byte
proof -
  assume "p \<le> 100"
  then have "unat p \<in> set [0..<101]" by (simp add: word_le_nat_alt)
  moreover have "\<forall>n \<in> set [0..<101]. list_all IsValueChar (decimal n) \<and> length (decimal n) \<le> 3" by code_simp
  ultimately show ?thesis by blast
qed

lemma report_pairs_ok:
  assumes "report_ok r"
  shows "\<forall>p \<in> set (report_pairs pad r title msg). pair_ok p"
proof -
  have opt: "\<forall>p \<in> set (opt_pair k v). pair_ok p" if "k \<in> set [''id'', ''app'', ''progress'', ''title'', ''msg'']" "list_all IsValueChar v" for k v
    using key_names(3) that by (auto simp: opt_pair_def pair_ok_def simp del: wlit_simps)
  have "list_all IsValueChar (r_id r)" using assms id_loop_chars by (auto simp: report_ok_def IsValidId_def split: if_splits)
  moreover have "list_all IsValueChar (r_app r)" using assms name_value_char by (auto simp: report_ok_def list_all_iff)
  moreover have "list_all IsValueChar (case r_progress r of None \<Rightarrow> [] | Some p \<Rightarrow> decimal (unat p))"
    using assms progress_text by (auto simp: report_ok_def split: option.splits)
  moreover have "\<forall>p \<in> set (opt_pair ''kind'' (wlit (KindName (r_kind r)))). pair_ok p" using key_names(2) by (simp add: opt_pair_def del: wlit_simps)
  ultimately show ?thesis
    using key_names(1) [of "r_state r"] opt [of "''id''"] opt [of "''app''"] opt [of "''progress''"] opt [of "''title''"] opt [of "''msg''"]
      encoded_chars [of pad "text_bytes title"] encoded_chars [of pad "text_bytes msg"]
    unfolding report_pairs_def by (simp add: ball_Un del: wlit_simps)
qed

lemma join_length: "length (join_pairs ps) \<le> sum_list (map (\<lambda>p. length (fst p) + length (snd p) + 2) ps)"
  by (induction ps rule: join_pairs.induct) (simp_all add: pair_text_def)

lemma report_wire_fits:
  assumes r: "report_ok r" and t: "writes_text title MaxTitleDecodedBytes (r_title r)" and m: "writes_text msg MaxMsgDecodedBytes (r_msg r)"
  shows "length (report_wire pad r title msg) \<le> MaxPayloadChars"
proof -
  let ?w = "\<lambda>p :: wstring \<times> wstring. length (fst p) + length (snd p) + 2"
  have opt: "sum_list (map ?w (opt_pair k v)) \<le> length k + length v + 2" for k v by (simp add: opt_pair_def wlit_def)
  have "length (r_id r) \<le> 128" using r by (auto simp: report_ok_def IsValidId_def status_limits split: if_splits)
  moreover have "length (r_app r) \<le> 32" using r by (simp add: report_ok_def status_limits)
  moreover have "length (wlit (KindName (r_kind r))) \<le> 10" "length (wlit (StateName (r_state r))) \<le> 7"
    by (cases "r_kind r"; simp add: KindName_def wlit_def) (cases "r_state r"; simp add: StateName_def wlit_def)
  moreover have "length (case r_progress r of None \<Rightarrow> [] | Some p \<Rightarrow> decimal (unat p)) \<le> 3"
    using r progress_text by (auto simp: report_ok_def split: option.splits)
  moreover have "length (encode_base64 pad (text_bytes title)) \<le> 260" "length (encode_base64 pad (text_bytes msg)) \<le> 2740"
    using t m encoded_length [of pad "text_bytes title"] encoded_length [of pad "text_bytes msg"]
    by (auto simp: writes_text_def status_limits)
  ultimately have "sum_list (map ?w (report_pairs pad r title msg)) \<le> 3400"
    using opt [of "''id''" "r_id r"] opt [of "''app''" "r_app r"] opt [of "''kind''" "wlit (KindName (r_kind r))"]
      opt [of "''progress''" "case r_progress r of None \<Rightarrow> [] | Some p \<Rightarrow> decimal (unat p)"]
      opt [of "''title''" "encode_base64 pad (text_bytes title)"] opt [of "''msg''" "encode_base64 pad (text_bytes msg)"]
    by (simp add: report_pairs_def)
  with join_length [of "report_pairs pad r title msg"] show ?thesis by (simp add: report_wire_def status_limits)
qed

lemma dropWhile_keeps_last: "\<not> P z \<Longrightarrow> z \<in> set (dropWhile P (xs @ [z]))"
  by (induction xs) simp_all

lemma decimal_nonempty: "decimal n \<noteq> []"
  by (subst decimal.simps) simp

lemma build_written:
  assumes r: "report_ok r" and t: "writes_text title MaxTitleDecodedBytes (r_title r)" and m: "writes_text msg MaxMsgDecodedBytes (r_msg r)"
  shows "build_report \<lparr>f_state = Some (wlit (StateName (r_state r))), f_id = opt_value (r_id r),
    f_app = opt_value (r_app r), f_kind = opt_value (wlit (KindName (r_kind r))),
    f_progress = opt_value (case r_progress r of None \<Rightarrow> [] | Some p \<Rightarrow> decimal (unat p)),
    f_title = opt_value (encode_base64 pad (text_bytes title)), f_msg = opt_value (encode_base64 pad (text_bytes msg)), f_skipped = 0\<rparr> =
    \<lparr>pr_outcome = ReportOutcome, pr_report = r, pr_reason = [], pr_skippedPairs = 0\<rparr>"
proof -
  have st: "ParseState (wlit (StateName (r_state r))) = Some (r_state r)"
    by (cases "r_state r") (simp_all add: StateName_def ParseState_def)
  have app: "report_app (opt_value (r_app r)) = Inr (r_app r)"
    using r by (auto simp: report_app_def opt_value_def report_ok_def)
  have ti: "report_text (opt_value (encode_base64 pad (text_bytes title))) MaxTitleEncodedBytes MaxTitleDecodedBytes = Inr (r_title r)"
    by (rule text_field_roundtrip [OF t]) (simp add: status_limits)
  have ms: "report_text (opt_value (encode_base64 pad (text_bytes msg))) MaxMsgEncodedBytes MaxMsgDecodedBytes = Inr (r_msg r)"
    by (rule text_field_roundtrip [OF m]) (simp add: status_limits)
  have i: "(case opt_value (r_id r) of None \<Rightarrow> [] | Some i \<Rightarrow> i) = r_id r" by (simp add: opt_value_def)
  have k: "(case opt_value (wlit (KindName (r_kind r))) of Some k \<Rightarrow> if r_state r = Blocked then ParseKind k else NoKind | None \<Rightarrow> NoKind) = r_kind r"
    using r by (cases "r_kind r") (simp_all add: KindName_def ParseKind_def opt_value_def report_ok_def)
  have p: "(case opt_value (case r_progress r of None \<Rightarrow> [] | Some p \<Rightarrow> decimal (unat p)) of
      Some p \<Rightarrow> if r_state r = Working \<or> r_state r = Blocked then ParseProgress p else None | None \<Rightarrow> None) = r_progress r"
    using r by (cases "r_progress r") (auto simp: opt_value_def report_ok_def IsLive_def progress_roundtrip decimal_nonempty)
  show ?thesis unfolding build_report_def raw_fields.simps option.case st app ti ms sum.case i k p by simp
qed

text \<open>
  C8. What a program writes is what the terminal reads. Every well-formed report, written as the
  protocol's pairs with its title and message in UTF-8 and base64 (padded or not), fits the payload
  limit and is parsed back to exactly that report, with no pair skipped.
\<close>

theorem report_roundtrip:
  assumes "report_ok r" and "writes_text title MaxTitleDecodedBytes (r_title r)" and "writes_text msg MaxMsgDecodedBytes (r_msg r)"
  shows "Parse (report_wire pad r title msg) = \<lparr>pr_outcome = ReportOutcome, pr_report = r, pr_reason = [], pr_skippedPairs = 0\<rparr>"
proof -
  let ?ps = "report_pairs pad r title msg"
  have "?ps \<noteq> []" by (simp add: report_pairs_def)
  then have l: "pair_loop (report_wire pad r title msg) no_fields = store_all ?ps no_fields"
    unfolding report_wire_def by (rule pair_loop_join) (rule report_pairs_ok [OF assms(1)])
  obtain s where "report_wire pad r title msg = 0x73 # 0x74 # s"
    by (cases "tl ?ps") (auto simp: report_wire_def report_pairs_def pair_text_def)
  then have "0x73 \<in> set (Trim (report_wire pad r title msg))"
    using dropWhile_keeps_last [of IsSpace "0x73" "rev s @ [0x74]"] by (simp add: Trim_def IsSpace_def)
  then have "Trim (report_wire pad r title msg) \<noteq> wlit ''?''" by auto
  then show ?thesis
    using report_wire_fits [OF assms, of pad] build_written [OF assms, of pad]
    by (simp add: Parse_def l store_report [OF assms(1)])
qed

lemma units_shorter: "length (concat (map utf16_units cps)) \<le> length (text_bytes cps)"
proof (induction cps)
  case (Cons cp cps)
  have "0x10000 \<le> cp \<Longrightarrow> \<not> cp < 0x80" by uint_arith
  then have "length (utf16_units cp) \<le> length (encode_utf8 cp)" by (simp add: utf16_units_def encode_utf8_def Let_def)
  with Cons show ?case by (simp add: text_bytes_def)
qed simp

lemma writes_text_ok: "writes_text cps n s \<Longrightarrow> text_ok n s"
  unfolding writes_text_def text_ok_def using units_shorter [of cps] by (metis order_trans)

text \<open>A question with an emoji in its title.\<close>

definition sample_report :: Report where
  "sample_report = \<lparr>r_id = wlit ''agent/1'', r_state = Blocked, r_app = wlit ''bot'', r_kind = Question, r_progress = Some 42,
     r_title = [0x68, 0xD83D, 0xDE00], r_msg = []\<rparr>"

theorem report_roundtrip_witness:
  "Parse (report_wire True sample_report [0x68, 0x1F600] []) =
     \<lparr>pr_outcome = ReportOutcome, pr_report = sample_report, pr_reason = [], pr_skippedPairs = 0\<rparr> \<and>
   report_wire True sample_report [0x68, 0x1F600] [] = wlit ''state=blocked:id=agent/1:app=bot:kind=question:progress=42:title=aPCfmIA=''"
proof
  have t: "writes_text [0x68, 0x1F600] MaxTitleDecodedBytes (r_title sample_report)" "writes_text [] MaxMsgDecodedBytes (r_msg sample_report)"
    by code_simp+
  have "text_ok MaxTitleDecodedBytes (r_title sample_report)" "text_ok MaxMsgDecodedBytes (r_msg sample_report)"
    using t by (auto intro: writes_text_ok)
  moreover have "IsValidId (r_id sample_report)" "length (r_app sample_report) \<le> MaxAppBytes" "list_all IsNameChar (r_app sample_report)"
    by code_simp+
  ultimately have "report_ok sample_report" by (simp add: report_ok_def sample_report_def IsLive_def)
  from report_roundtrip [OF this t] show "Parse (report_wire True sample_report [0x68, 0x1F600] []) =
     \<lparr>pr_outcome = ReportOutcome, pr_report = sample_report, pr_reason = [], pr_skippedPairs = 0\<rparr>" .
qed code_simp

subsection \<open>The grammar of ids\<close>

fun join_slash :: "wstring list \<Rightarrow> wstring" where
  "join_slash [] = []"
| "join_slash [s] = s"
| "join_slash (s # t # ss) = s @ 0x2F # join_slash (t # ss)"

definition segment_ok :: "wstring \<Rightarrow> bool" where
  "segment_ok s \<longleftrightarrow> s \<noteq> [] \<and> length s \<le> 32 \<and> list_all IsNameChar s"

lemma slash_not_name: "\<not> IsNameChar 0x2F"
  by code_simp

text \<open>\<open>k\<close> characters of the current segment have been seen, in the \<open>n\<close>-th segment.\<close>

definition id_rest :: "wstring \<Rightarrow> nat \<Rightarrow> nat \<Rightarrow> wstring \<Rightarrow> wstring list \<Rightarrow> bool" where
  "id_rest cs n k s ss \<longleftrightarrow> cs = join_slash (s # ss) \<and> list_all IsNameChar s \<and> 0 < k + length s \<and> k + length s \<le> 32 \<and>
     n + length ss \<le> 8 \<and> list_all segment_ok ss"

lemma join_slash_Cons: "join_slash (s # ss) = s @ (if ss = [] then [] else 0x2F # join_slash ss)"
  by (cases ss) simp_all

lemma id_loop_complete: "id_rest cs n k s ss \<Longrightarrow> id_loop cs n k"
proof (induction cs n k arbitrary: s ss rule: id_loop.induct)
  case (1 n k)
  then show ?case by (auto simp: id_rest_def join_slash_Cons split: if_splits)
next
  case (2 ch cs n k)
  show ?case
  proof (cases s)
    case Nil
    with "2.prems" obtain t tt where ss: "ss = t # tt" and j: "ch = 0x2F" "cs = join_slash (t # tt)"
      by (cases ss) (auto simp: id_rest_def join_slash_Cons)
    have "id_rest cs (n + 1) 0 t tt" using "2.prems" ss j Nil by (auto simp: id_rest_def segment_ok_def)
    with "2.IH"(1) j "2.prems" Nil ss show ?thesis by (auto simp: id_rest_def MaxIdSegments_def)
  next
    case (Cons c s')
    with "2.prems" have c: "ch = c" "IsNameChar c" "cs = join_slash (s' # ss)" by (auto simp: id_rest_def join_slash_Cons)
    then have ns: "ch \<noteq> 0x2F" using slash_not_name by auto
    have k: "\<not> (\<not> IsNameChar ch \<or> k + 1 > MaxIdSegmentBytes)" using "2.prems" c Cons by (auto simp: id_rest_def MaxIdSegmentBytes_def)
    have "id_rest cs n (k + 1) s' ss" using "2.prems" c Cons by (auto simp: id_rest_def)
    from "2.IH"(2) [OF ns k this] ns k show ?thesis by simp
  qed
qed

lemma id_loop_sound: "id_loop cs n k \<Longrightarrow> n \<le> 8 \<Longrightarrow> k \<le> 32 \<Longrightarrow> \<exists>s ss. id_rest cs n k s ss"
proof (induction cs n k rule: id_loop.induct)
  case (1 n k)
  then show ?case by (intro exI [of _ "[]"]) (simp add: id_rest_def)
next
  case (2 ch cs n k)
  show ?case
  proof (cases "ch = 0x2F")
    case True
    with "2.prems" have k: "k \<noteq> 0" "n + 1 \<le> 8" "id_loop cs (n + 1) 0" by (auto simp: MaxIdSegments_def split: if_splits)
    with "2.IH"(1) [OF True] obtain s ss where r: "id_rest cs (n + 1) 0 s ss" by (auto simp: MaxIdSegments_def)
    then have "id_rest (ch # cs) n k [] (s # ss)"
      using True k "2.prems" by (auto simp: id_rest_def segment_ok_def join_slash_Cons)
    then show ?thesis by blast
  next
    case False
    with "2.prems" have k: "IsNameChar ch" "k + 1 \<le> 32" "id_loop cs n (k + 1)" by (auto simp: MaxIdSegmentBytes_def split: if_splits)
    with "2.IH"(2) [OF False] "2.prems" obtain s ss where r: "id_rest cs n (k + 1) s ss" by (auto simp: MaxIdSegmentBytes_def)
    then have "id_rest (ch # cs) n k (ch # s) ss" using k by (auto simp: id_rest_def join_slash_Cons)
    then show ?thesis by blast
  qed
qed

text \<open>
  The id check accepts exactly the ids of the protocol's grammar: one to eight segments joined
  by slashes, each of one to 32 name characters, at most 128 characters in all.
\<close>

lemma IsValidId_grammar:
  "IsValidId i \<longleftrightarrow> (\<exists>segments. i = join_slash segments \<and> segments \<noteq> [] \<and> length segments \<le> 8 \<and> list_all segment_ok segments \<and> length i \<le> 128)"
proof
  assume v: "IsValidId i"
  then obtain s ss where "id_rest i 1 0 s ss" using id_loop_sound [of i 1 0] by (auto simp: IsValidId_def split: if_splits)
  with v show "\<exists>segments. i = join_slash segments \<and> segments \<noteq> [] \<and> length segments \<le> 8 \<and> list_all segment_ok segments \<and> length i \<le> 128"
    by (intro exI [of _ "s # ss"]) (auto simp: id_rest_def segment_ok_def IsValidId_def MaxIdBytes_def split: if_splits)
next
  assume "\<exists>segments. i = join_slash segments \<and> segments \<noteq> [] \<and> length segments \<le> 8 \<and> list_all segment_ok segments \<and> length i \<le> 128"
  then obtain s ss where s: "i = join_slash (s # ss)" "length ss < 8" "list_all segment_ok (s # ss)" "length i \<le> 128" by (metis length_Cons neq_Nil_conv Suc_le_lessD)
  then have "id_rest i 1 0 s ss" by (auto simp: id_rest_def segment_ok_def)
  moreover have "i \<noteq> []" using s by (auto simp: segment_ok_def join_slash_Cons)
  ultimately show "IsValidId i" using s(4) id_loop_complete by (auto simp: IsValidId_def MaxIdBytes_def)
qed

end
