(* ===== verification/Axan_StatusStore.thy ===== *)
theory Axan_StatusStore
  imports Axan_StatusReports
begin

text \<open>
  The record store of the program status protocol, \<^verbatim>\<open>cascadia/TerminalCore/TerminalProgramStatus.cpp\<close>,
  and the dispatch of \<^verbatim>\<open>OSC 7501\<close> and \<^verbatim>\<open>OSC 133\<close> marks to it. The \<^verbatim>\<open>std::map\<close> is the list of its
  entries in key order, since the code iterates over it; the revision counter is a 64-bit word; a
  call of one of the two change callbacks is an event in \<open>events\<close>. Logging is left out.
\<close>

subsection \<open>Data\<close>

record ProgramStatusRecord =
  sr_id :: wstring
  sr_state :: State
  sr_app :: wstring
  sr_effectiveApp :: wstring
  sr_kind :: Kind
  sr_progress :: "byte option"
  sr_title :: wstring
  sr_msg :: wstring
  sr_revision :: "64 word"

type_synonym records = "(wstring \<times> ProgramStatusRecord) list"

datatype status_event = StatusChanged | ShellChanged | OscReply wstring

record status_term =
  programStatusRecords :: records
  programStatusRevision :: "64 word"
  programStatusEnabled :: bool
  shellCommandRunning :: bool
  events :: "status_event list"

definition new_status_term :: status_term where
  "new_status_term = \<lparr>programStatusRecords = [], programStatusRevision = 0, programStatusEnabled = True,
     shellCommandRunning = False, events = []\<rparr>"

subsection \<open>The ordered map\<close>

definition map_find :: "wstring \<Rightarrow> records \<Rightarrow> ProgramStatusRecord option" where
  "map_find k m = map_of m k"

text \<open>\<^verbatim>\<open>map[k] = v\<close>: replaces the value, or inserts the key in its place.\<close>

fun map_put :: "wstring \<Rightarrow> ProgramStatusRecord \<Rightarrow> records \<Rightarrow> records" where
  "map_put k v [] = [(k, v)]"
| "map_put k v ((j, w) # m) = (if k < j then (k, v) # (j, w) # m else if k = j then (k, v) # m else (j, w) # map_put k v m)"

definition map_erase :: "wstring \<Rightarrow> records \<Rightarrow> records" where
  "map_erase k m = filter (\<lambda>p. fst p \<noteq> k) m"

subsection \<open>Operations\<close>

definition IsInSubtree :: "wstring \<Rightarrow> wstring \<Rightarrow> bool" where
  "IsInSubtree key i \<longleftrightarrow> length key \<ge> length i \<and> take (length i) key = i \<and> (length key = length i \<or> key ! length i = 0x2F)"

definition programStatusNotify :: "status_term \<Rightarrow> status_term" where
  "programStatusNotify t = t\<lparr>events := events t @ [StatusChanged]\<rparr>"

definition SetProgramStatusEnabled :: "bool \<Rightarrow> status_term \<Rightarrow> status_term" where
  "SetProgramStatusEnabled enabled t =
     (if programStatusEnabled t = enabled then t
      else
        (let t1 = t\<lparr>programStatusEnabled := enabled\<rparr>
         in if \<not> enabled \<and> programStatusRecords t1 \<noteq> [] then programStatusNotify (t1\<lparr>programStatusRecords := []\<rparr>) else t1))"

definition ProgramStatusQuery :: "status_term \<Rightarrow> bool" where
  "ProgramStatusQuery t = programStatusEnabled t"

text \<open>The scan of \<^verbatim>\<open>clear\<close>, from \<^verbatim>\<open>lower_bound(id)\<close> on.\<close>

fun clear_scan :: "wstring \<Rightarrow> records \<Rightarrow> records" where
  "clear_scan i [] = []"
| "clear_scan i ((k, r) # m) =
     (if IsInSubtree k i then clear_scan i m
      else if length k \<ge> length i \<and> take (length i) k = i then (k, r) # clear_scan i m
      else (k, r) # m)"

definition clear_subtree :: "wstring \<Rightarrow> records \<Rightarrow> records" where
  "clear_subtree i m = takeWhile (\<lambda>p. fst p < i) m @ clear_scan i (dropWhile (\<lambda>p. fst p < i) m)"

fun oldest_scan :: "records \<Rightarrow> wstring \<times> ProgramStatusRecord \<Rightarrow> wstring \<times> ProgramStatusRecord" where
  "oldest_scan [] oldest = oldest"
| "oldest_scan (p # m) oldest = oldest_scan m (if sr_revision (snd p) < sr_revision (snd oldest) then p else oldest)"

definition evict :: "wstring \<Rightarrow> records \<Rightarrow> records" where
  "evict i m =
     (if map_find i m = None \<and> length m \<ge> MaxRecords
      then map_erase (fst (oldest_scan m (hd m))) m else m)"

definition record_of :: "Report \<Rightarrow> 64 word \<Rightarrow> ProgramStatusRecord" where
  "record_of r n = \<lparr>sr_id = r_id r, sr_state = r_state r, sr_app = r_app r, sr_effectiveApp = [], sr_kind = r_kind r,
     sr_progress = r_progress r, sr_title = r_title r, sr_msg = r_msg r, sr_revision = n\<rparr>"

definition ProgramStatusReport :: "ParseResult \<Rightarrow> status_term \<Rightarrow> status_term" where
  "ProgramStatusReport result t =
     (if \<not> programStatusEnabled t then t
      else if pr_outcome result \<noteq> ReportOutcome then t
      else
        (let report = pr_report result
         in if r_state report = Clear then
              programStatusNotify (t\<lparr>programStatusRecords :=
                (if r_id report = [] then [] else clear_subtree (r_id report) (programStatusRecords t))\<rparr>)
            else
              (let m = evict (r_id report) (programStatusRecords t); revision = programStatusRevision t + 1
               in programStatusNotify (t\<lparr>programStatusRecords := map_put (r_id report) (record_of report revision) m,
                    programStatusRevision := revision\<rparr>))))"

definition programStatusDropLive :: "status_term \<Rightarrow> bool \<times> status_term" where
  "programStatusDropLive t =
     (let m = filter (\<lambda>p. \<not> IsLive (sr_state (snd p))) (programStatusRecords t)
      in (length m \<noteq> length (programStatusRecords t), t\<lparr>programStatusRecords := m\<rparr>))"

definition ProgramStatusDropLive :: "status_term \<Rightarrow> status_term" where
  "ProgramStatusDropLive t = (case programStatusDropLive t of (removed, t1) \<Rightarrow> if removed then programStatusNotify t1 else t1)"

definition ProgramStatusPromptStarted :: "status_term \<Rightarrow> status_term" where
  "ProgramStatusPromptStarted t = (case programStatusDropLive t of (removed, t1) \<Rightarrow> if removed then programStatusNotify t1 else t1)"

definition shellNotify :: "status_term \<Rightarrow> status_term" where
  "shellNotify t = t\<lparr>events := events t @ [ShellChanged]\<rparr>"

definition ShellCommandMark :: "wchar \<Rightarrow> status_term \<Rightarrow> status_term" where
  "ShellCommandMark mark t =
     (let running = (mark = 0x43)
      in if running = shellCommandRunning t then t else shellNotify (t\<lparr>shellCommandRunning := running\<rparr>))"

definition ShellCommandEnded :: "status_term \<Rightarrow> status_term" where
  "ShellCommandEnded t = (if \<not> shellCommandRunning t then t else shellNotify (t\<lparr>shellCommandRunning := False\<rparr>))"

definition ProgramStatusReset :: "status_term \<Rightarrow> status_term" where
  "ProgramStatusReset t =
     (let t1 = ShellCommandEnded t
      in if programStatusRecords t1 = [] then t1 else programStatusNotify (t1\<lparr>programStatusRecords := []\<rparr>))"

text \<open>The nearest ancestor with an application; \<open>rfind\<close> of the last slash.\<close>

definition parent_id :: "wstring \<Rightarrow> wstring" where
  "parent_id i = (if 0x2F \<in> set i then rev (tl (dropWhile (\<lambda>c. c \<noteq> 0x2F) (rev i))) else [])"

lemma parent_id_shorter: "i \<noteq> [] \<Longrightarrow> length (parent_id i) < length i"
  unfolding parent_id_def using length_dropWhile_le [of "\<lambda>c. c \<noteq> 0x2F" "rev i"]
  by (auto simp: less_Suc_eq_le intro: le_less_trans) (cases i; simp)+

function ancestor_app :: "records \<Rightarrow> wstring \<Rightarrow> wstring" where
  "ancestor_app m i =
     (if i = [] then []
      else case map_find (parent_id i) m of
             Some r \<Rightarrow> if sr_app r \<noteq> [] then sr_app r else ancestor_app m (parent_id i)
           | None \<Rightarrow> ancestor_app m (parent_id i))"
  by pat_completeness auto
termination
  by (relation "measure (\<lambda>(m, i). length i)") (auto dest: parent_id_shorter)

declare ancestor_app.simps [simp del]

definition GetProgramStatusRecords :: "status_term \<Rightarrow> ProgramStatusRecord list" where
  "GetProgramStatusRecords t =
     map (\<lambda>(i, r). r\<lparr>sr_effectiveApp :=
        (if sr_app r \<noteq> [] then sr_app r
         else case ancestor_app (programStatusRecords t) i of [] \<Rightarrow> sr_effectiveApp r | a \<Rightarrow> a)\<rparr>) (programStatusRecords t)"

subsection \<open>Dispatch\<close>

definition QueryReply :: wstring where
  "QueryReply = wlit ''7501;?:states=idle,working,done,blocked,error:kinds=permission,question,auth''"

text \<open>\<^verbatim>\<open>AdaptDispatch::DoProgramStatusAction\<close>; the reply is an event.\<close>

definition DoProgramStatusAction :: "wstring \<Rightarrow> status_term \<Rightarrow> status_term" where
  "DoProgramStatusAction s t =
     (let result = Parse s
      in if pr_outcome result = QueryOutcome then
           (if ProgramStatusQuery t then t\<lparr>events := events t @ [OscReply QueryReply]\<rparr> else t)
         else ProgramStatusReport result t)"

text \<open>The part of \<^verbatim>\<open>AdaptDispatch::DoFinalTermAction\<close> that reaches the store.\<close>

definition DoFinalTermAction_status :: "wstring \<Rightarrow> status_term \<Rightarrow> status_term" where
  "DoFinalTermAction_status s t =
     (let t1 = (if s \<noteq> [] \<and> hd s = 0x41 \<and> (length s = 1 \<or> s ! 1 = 0x3B) then ProgramStatusPromptStarted t else t)
      in if s \<noteq> [] \<and> (length s = 1 \<or> s ! 1 = 0x3B) \<and> (hd s = 0x41 \<or> hd s = 0x43 \<or> hd s = 0x44) then ShellCommandMark (hd s) t1 else t1)"

end
