(* ===== verification/Axan_StatusContract.thy ===== *)
theory Axan_StatusContract
  imports Axan_StatusStore
begin

text \<open>
  The record store against the protocol's contract: the store's map, read in the order of its
  revisions, is a list of the last reports with the oldest first (\<open>view\<close>), and every operation does
  to that list what the contract says. The locale \<open>recency_store\<close> states what a consumer may rely on.
\<close>

subsection \<open>Subtrees are contiguous\<close>

lemma less_after_prefix: "i \<le> k \<Longrightarrow> \<not> prefix i k \<Longrightarrow> i @ x < k" for i k :: wstring
proof (induction i arbitrary: k)
  case (Cons a i)
  then show ?case by (cases k) auto
qed simp

lemma prefix_le: "prefix i k \<Longrightarrow> i \<le> k" for i k :: wstring
proof (induction i arbitrary: k)
  case (Cons a i)
  then show ?case by (cases k) auto
qed simp

lemma IsInSubtree_prefix: "IsInSubtree k i \<longleftrightarrow> k = i \<or> prefix (i @ [0x2F]) k"
proof
  assume s: "IsInSubtree k i"
  then have "k = i @ drop (length i) k" unfolding IsInSubtree_def by (metis append_take_drop_id)
  with s show "k = i \<or> prefix (i @ [0x2F]) k"
    by (cases "drop (length i) k") (auto simp: IsInSubtree_def prefix_def Cons_nth_drop_Suc nth_via_drop)
next
  assume "k = i \<or> prefix (i @ [0x2F]) k"
  then show "IsInSubtree k i" by (auto simp: IsInSubtree_def prefix_def nth_append)
qed

definition by_key :: "records \<Rightarrow> bool" where
  "by_key m \<longleftrightarrow> sorted_wrt (<) (map fst m)"

lemma prefix_take: "prefix i k \<longleftrightarrow> length k \<ge> length i \<and> take (length i) k = i"
  by (auto simp: prefix_def) (metis append_take_drop_id)

lemma clear_scan_filter:
  "by_key m \<Longrightarrow> \<forall>p \<in> set m. i \<le> fst p \<Longrightarrow> clear_scan i m = filter (\<lambda>p. \<not> IsInSubtree (fst p) i) m"
proof (induction i m rule: clear_scan.induct)
  case (2 i k r m)
  have s: "by_key m" "\<forall>p \<in> set m. k < fst p" using 2(3) by (auto simp: by_key_def)
  show ?case
  proof (cases "prefix i k")
    case True
    then have "length k \<ge> length i \<and> take (length i) k = i" using prefix_take by blast
    with 2 s show ?thesis by simp
  next
    case False
    then have "i @ x < k" for x using less_after_prefix 2(4) by simp
    then have n: "fst p \<noteq> i @ x" if "p \<in> set m" for p x using s(2) that by (metis less_asym)
    have "\<not> IsInSubtree (fst p) i" if "p \<in> set m" for p
      using n [OF that, of "[]"] n [OF that, of "0x2F # _"] unfolding IsInSubtree_prefix by (auto simp: prefix_def)
    moreover have "\<not> IsInSubtree k i" using False by (auto simp: IsInSubtree_def prefix_take)
    ultimately show ?thesis using False by (auto simp: prefix_take)
  qed
qed simp

lemma clear_subtree_filter:
  assumes "by_key m"
  shows "clear_subtree i m = filter (\<lambda>p. \<not> IsInSubtree (fst p) i) m"
proof -
  let ?a = "takeWhile (\<lambda>p. fst p < i) m" and ?b = "dropWhile (\<lambda>p. fst p < i) m"
  have ab: "by_key ?a" "by_key ?b" using assms unfolding by_key_def
    by (metis map_append sorted_wrt_append takeWhile_dropWhile_id)+
  have "i \<le> fst p" if p: "p \<in> set ?b" for p
  proof -
    obtain q b where Cons: "?b = q # b" using p by (cases ?b) auto
    then have "i \<le> fst q" by (metis dropWhile_eq_Cons_conv leI)
    moreover have "fst q \<le> fst p" using ab(2) p unfolding Cons by (auto simp: by_key_def less_imp_le)
    ultimately show ?thesis by simp
  qed
  then have b: "clear_scan i ?b = filter (\<lambda>p. \<not> IsInSubtree (fst p) i) ?b" using clear_scan_filter [OF ab(2)] by blast
  have "\<not> IsInSubtree (fst p) i" if "p \<in> set ?a" for p
  proof
    assume "IsInSubtree (fst p) i"
    then have "i \<le> fst p" unfolding IsInSubtree_prefix by (metis append_prefixD order_refl prefix_le)
    with that show False by (auto dest: set_takeWhileD)
  qed
  then have a: "filter (\<lambda>p. \<not> IsInSubtree (fst p) i) ?a = ?a" by simp
  have "filter (\<lambda>p. \<not> IsInSubtree (fst p) i) m = filter (\<lambda>p. \<not> IsInSubtree (fst p) i) ?a @ filter (\<lambda>p. \<not> IsInSubtree (fst p) i) ?b"
    by (metis filter_append takeWhile_dropWhile_id)
  then show ?thesis using a b by (simp add: clear_subtree_def)
qed

subsection \<open>The ordered map\<close>

lemma by_key_distinct: "by_key m \<Longrightarrow> distinct (map fst m)"
  unfolding by_key_def by (simp add: strict_sorted_iff)

lemma by_key_filter: "by_key m \<Longrightarrow> by_key (filter P m)"
  by (induction m) (auto simp: by_key_def)

lemma map_put_keys: "fst ` set (map_put k v m) = insert k (fst ` set m)"
  by (induction k v m rule: map_put.induct) auto

lemma map_put_by_key: "by_key m \<Longrightarrow> by_key (map_put k v m)"
proof (induction k v m rule: map_put.induct)
  case (2 k v j w m)
  then show ?case using map_put_keys [of k v m] by (force simp: by_key_def dest: order.strict_trans)
qed (simp add: by_key_def)

lemma map_put_mset: "by_key m \<Longrightarrow> mset (map_put k v m) = add_mset (k, v) (mset (map_erase k m))"
proof (induction k v m rule: map_put.induct)
  case (2 k v j w m)
  have s: "by_key m" "\<forall>p \<in> set m. j < fst p" using 2(2) by (auto simp: by_key_def)
  have e: "map_erase k m = m" if "k \<le> j" using s that by (auto simp: map_erase_def intro!: filter_True)
  have c: "map_erase k ((j, w) # m) = (if j = k then map_erase k m else (j, w) # map_erase k m)" by (simp add: map_erase_def)
  consider "k < j" | "k = j" | "j < k" by fastforce
  then show ?case
  proof cases
    case 3
    with 2(1) s(1) show ?thesis by (auto simp: c)
  qed (use e c in auto)
qed (simp add: map_erase_def)

lemma oldest_scan_least:
  "oldest_scan m p \<in> insert p (set m) \<and> (\<forall>q \<in> insert p (set m). sr_revision (snd (oldest_scan m p)) \<le> sr_revision (snd q))"
proof (induction m arbitrary: p)
  case (Cons q m)
  show ?case using Cons [of "if sr_revision (snd q) < sr_revision (snd p) then q else p"] by (auto split: if_splits intro: order_trans)
qed simp

subsection \<open>The invariant\<close>

definition report_part :: "ProgramStatusRecord \<Rightarrow> Report" where
  "report_part r = \<lparr>r_id = sr_id r, r_state = sr_state r, r_app = sr_app r, r_kind = sr_kind r, r_progress = sr_progress r,
     r_title = sr_title r, r_msg = sr_msg r\<rparr>"

definition record_ok :: "64 word \<Rightarrow> wstring \<times> ProgramStatusRecord \<Rightarrow> bool" where
  "record_ok n p \<longleftrightarrow> fst p = sr_id (snd p) \<and> sr_revision (snd p) \<le> n \<and> sr_state (snd p) \<noteq> Clear \<and> sr_effectiveApp (snd p) = [] \<and>
     report_ok (report_part (snd p))"

definition records_inv :: "64 word \<Rightarrow> records \<Rightarrow> bool" where
  "records_inv n m \<longleftrightarrow> by_key m \<and> length m \<le> MaxRecords \<and> inj_on (sr_revision \<circ> snd) (set m) \<and> (\<forall>p \<in> set m. record_ok n p)"

text \<open>\<open>store_inv k\<close>: at least \<open>k\<close> more reports before the revision counter wraps.\<close>

definition store_inv :: "nat \<Rightarrow> status_term \<Rightarrow> bool" where
  "store_inv k t \<longleftrightarrow> records_inv (programStatusRevision t) (programStatusRecords t) \<and> unat (programStatusRevision t) + k < 2 ^ 64"

lemma records_inv_filter: "records_inv n m \<Longrightarrow> records_inv n (filter P m)"
  unfolding records_inv_def
  by (auto intro: by_key_filter order_trans [OF length_filter_le] inj_on_subset)

lemma records_inv_Nil [simp]: "records_inv n []"
  by (simp add: records_inv_def by_key_def)

subsection \<open>Oldest first\<close>

definition by_age :: "records \<Rightarrow> records" where
  "by_age m = sort_key (sr_revision \<circ> snd) m"

definition entries :: "records \<Rightarrow> (wstring \<times> Report) list" where
  "entries m = map (\<lambda>p. (fst p, report_part (snd p))) (by_age m)"

lemma by_age_filter: "by_age (filter P m) = filter P (by_age m)"
  by (simp add: by_age_def filter_sort)

lemma set_by_age [simp]: "set (by_age m) = set m" "length (by_age m) = length m"
  by (simp_all add: by_age_def)

lemma by_age_hd:
  assumes m: "records_inv n m" and "m \<noteq> []"
  shows "by_age m = oldest_scan m (hd m) # tl (by_age m)"
proof -
  obtain x xs where x: "by_age m = x # xs" using assms(2) set_by_age(2) [of m] by (cases "by_age m") auto
  have "sorted (map (sr_revision \<circ> snd) (x # xs))" unfolding x [symmetric] by_age_def by simp
  then have "\<forall>q \<in> set m. sr_revision (snd x) \<le> sr_revision (snd q)" using x set_by_age(1) [of m] by auto
  moreover have "x \<in> set m" using x set_by_age(1) [of m] by auto
  moreover have "oldest_scan m (hd m) \<in> set m" "\<forall>q \<in> set m. sr_revision (snd (oldest_scan m (hd m))) \<le> sr_revision (snd q)"
    using oldest_scan_least [of m "hd m"] assms(2) by auto
  moreover from calculation have "(sr_revision \<circ> snd) (oldest_scan m (hd m)) = (sr_revision \<circ> snd) x" by (auto intro: order_antisym)
  ultimately have "oldest_scan m (hd m) = x" using m unfolding records_inv_def by (metis inj_onD)
  then show ?thesis by (simp add: x)
qed

lemma evict_by_age:
  assumes m: "records_inv n m"
  shows "by_age (evict i m) = (if map_find i m = None \<and> length m \<ge> MaxRecords then tl (by_age m) else by_age m)"
proof (cases "map_find i m = None \<and> length m \<ge> MaxRecords")
  case True
  then have "m \<noteq> []" by (auto simp: MaxRecords_def)
  note h = by_age_hd [OF m this]
  let ?o = "oldest_scan m (hd m)"
  have "distinct (map fst (by_age m))"
    using by_key_distinct m by (auto simp: records_inv_def distinct_map by_age_def intro: distinct_sort)
  then have "fst ?o \<notin> fst ` set (tl (by_age m))" using h by (metis distinct.simps(2) list.simps(9) list.set_map)
  then have "filter (\<lambda>p. fst p \<noteq> fst ?o) (tl (by_age m)) = tl (by_age m)" by (intro filter_True) (metis imageI)
  then have "filter (\<lambda>p. fst p \<noteq> fst ?o) (by_age m) = tl (by_age m)" by (subst h) simp
  then show ?thesis using True by (simp add: evict_def map_erase_def by_age_filter)
next
  case False
  then show ?thesis unfolding evict_def by (simp only: if_False)
qed

lemma evict_inv:
  assumes "records_inv n m"
  shows "records_inv n (evict i m)" "map_find i (evict i m) = None \<Longrightarrow> length (evict i m) < MaxRecords"
proof -
  show "records_inv n (evict i m)" using assms by (auto simp: evict_def map_erase_def intro: records_inv_filter)
  have l: "length (evict i m) = (if map_find i m = None \<and> length m \<ge> MaxRecords then length m - 1 else length m)"
    using arg_cong [OF evict_by_age [OF assms, of i], of length] by (simp split: if_splits)
  assume "map_find i (evict i m) = None"
  then have "map_find i m = None" by (auto simp: evict_def split: if_splits)
  with l assms show "length (evict i m) < MaxRecords" by (auto simp: records_inv_def MaxRecords_def)
qed

lemma fresh_revision:
  assumes "records_inv n m" and "unat n + 1 < 2 ^ 64" and "p \<in> set m"
  shows "sr_revision (snd p) < n + 1"
proof -
  have "sr_revision (snd p) \<le> n" using assms by (auto simp: records_inv_def record_ok_def)
  then show ?thesis using assms(2) by (simp add: word_le_nat_alt word_less_nat_alt unat_word_ariths)
qed

lemma map_put_set: "by_key m \<Longrightarrow> set (map_put k v m) = insert (k, v) (set (map_erase k m))"
  using arg_cong [OF map_put_mset, of m set_mset k v] by simp

lemma map_put_revisions:
  assumes m: "records_inv n m" and n: "unat n + 1 < 2 ^ 64" and v: "sr_revision v = n + 1"
  shows "inj_on (sr_revision \<circ> snd) (set (map_put k v m))"
proof -
  have e: "set (map_erase k m) \<subseteq> set m" by (auto simp: map_erase_def)
  have "inj_on (sr_revision \<circ> snd) (set (map_erase k m))" using m e by (auto simp: records_inv_def intro: inj_on_subset)
  moreover have "n + 1 \<noteq> sr_revision (snd p)" if "p \<in> set m" for p using fresh_revision [OF m n that] by auto
  ultimately show ?thesis using m e v by (auto simp: map_put_set records_inv_def)
qed

lemma map_put_by_age:
  assumes m: "records_inv n m" and n: "unat n + 1 < 2 ^ 64" and v: "sr_revision v = n + 1"
  shows "by_age (map_put k v m) = filter (\<lambda>p. fst p \<noteq> k) (by_age m) @ [(k, v)]"
  unfolding by_age_def
proof (rule sort_key_inj_key_eq)
  have k: "by_key m" using m by (simp add: records_inv_def)
  show "mset (map_put k v m) = mset (filter (\<lambda>p. fst p \<noteq> k) (sort_key (sr_revision \<circ> snd) m) @ [(k, v)])"
    by (simp add: map_put_mset [OF k] map_erase_def filter_sort)
  show "inj_on (sr_revision \<circ> snd) (set (map_put k v m))" by (rule map_put_revisions [OF assms])
  show "sorted (map (sr_revision \<circ> snd) (filter (\<lambda>p. fst p \<noteq> k) (sort_key (sr_revision \<circ> snd) m) @ [(k, v)]))"
    using fresh_revision [OF m n] v by (auto simp: filter_sort sorted_append less_imp_le)
qed

lemma map_put_inv:
  assumes m: "records_inv n m" and r: "report_ok r" "r_state r \<noteq> Clear" and n: "unat n + 1 < 2 ^ 64"
    and l: "map_find (r_id r) m = None \<Longrightarrow> length m < MaxRecords"
  shows "records_inv (n + 1) (map_put (r_id r) (record_of r (n + 1)) m)"
proof -
  let ?v = "record_of r (n + 1)"
  have k: "by_key m" using m by (simp add: records_inv_def)
  have "report_part ?v = r" by (simp add: report_part_def record_of_def)
  then have v: "record_ok (n + 1) (r_id r, ?v)" using r by (simp add: record_ok_def record_of_def)
  have ok: "record_ok (n + 1) p" if "p \<in> set m" for p
    using m that fresh_revision [OF m n that] by (auto simp: records_inv_def record_ok_def)
  have "length (map_put (r_id r) ?v m) = Suc (length (map_erase (r_id r) m))"
    using arg_cong [OF map_put_mset [OF k], of size] by simp
  also have "\<dots> \<le> MaxRecords"
  proof (cases "map_find (r_id r) m")
    case None
    with l have "length m < MaxRecords" by simp
    then show ?thesis unfolding map_erase_def by (simp add: Suc_le_eq le_less_trans [OF length_filter_le])
  next
    case (Some w)
    then have "(r_id r, w) \<in> set m" by (simp add: map_find_def map_of_SomeD)
    then have "length (map_erase (r_id r) m) < length m" unfolding map_erase_def by (intro length_filter_less) auto
    with m show ?thesis by (simp add: records_inv_def)
  qed
  finally have "length (map_put (r_id r) ?v m) \<le> MaxRecords" .
  moreover have "sr_revision ?v = n + 1" by (simp add: record_of_def)
  ultimately show ?thesis
    using map_put_by_key [OF k] map_put_revisions [OF m n] v ok by (auto simp: records_inv_def map_put_set [OF k] map_erase_def)
qed

subsection \<open>The protocol's contract\<close>

text \<open>
  The store as the protocol describes it: the reports in the order they were made, the oldest
  first. A report replaces the one with its id; a new id beyond the capacity drops the oldest.
\<close>

definition lru_put :: "nat \<Rightarrow> 'k \<Rightarrow> 'v \<Rightarrow> ('k \<times> 'v) list \<Rightarrow> ('k \<times> 'v) list" where
  "lru_put cap k v l = filter (\<lambda>p. fst p \<noteq> k) (if k \<notin> fst ` set l \<and> length l \<ge> cap then tl l else l) @ [(k, v)]"

lemma entries_filter: "entries (filter (\<lambda>p. Q (fst p) (report_part (snd p))) m) = filter (\<lambda>p. Q (fst p) (snd p)) (entries m)"
  by (simp add: entries_def by_age_filter filter_map comp_def)

lemma map_find_None: "map_find i m = None \<longleftrightarrow> i \<notin> fst ` set m"
  by (simp add: map_find_def map_of_eq_None_iff)

lemma entries_report:
  assumes m: "records_inv n m" and n: "unat n + 1 < 2 ^ 64"
  shows "entries (map_put (r_id r) (record_of r (n + 1)) (evict (r_id r) m)) = lru_put MaxRecords (r_id r) r (entries m)"
proof -
  have "report_part (record_of r (n + 1)) = r" "sr_revision (record_of r (n + 1)) = n + 1" by (simp_all add: report_part_def record_of_def)
  then have "entries (map_put (r_id r) (record_of r (n + 1)) (evict (r_id r) m)) =
      map (\<lambda>p. (fst p, report_part (snd p))) (filter (\<lambda>p. fst p \<noteq> r_id r) (by_age (evict (r_id r) m))) @ [(r_id r, r)]"
    unfolding entries_def by (simp add: map_put_by_age [OF evict_inv(1) [OF m] n])
  also have "map (\<lambda>p. (fst p, report_part (snd p))) (filter (\<lambda>p. fst p \<noteq> r_id r) (by_age (evict (r_id r) m))) =
      filter (\<lambda>p. fst p \<noteq> r_id r) (map (\<lambda>p. (fst p, report_part (snd p))) (by_age (evict (r_id r) m)))"
    by (simp add: filter_map comp_def)
  also have "map (\<lambda>p. (fst p, report_part (snd p))) (by_age (evict (r_id r) m)) =
      (if r_id r \<notin> fst ` set (entries m) \<and> length (entries m) \<ge> MaxRecords then tl (entries m) else entries m)"
    by (simp add: evict_by_age [OF m] entries_def map_find_None image_image map_tl)
  finally show ?thesis by (simp add: lru_put_def)
qed

subsection \<open>Operations against the contract\<close>

lemma store_inv_mono: "store_inv k t \<Longrightarrow> j \<le> k \<Longrightarrow> store_inv j t"
  by (simp add: store_inv_def)

lemma store_inv_filter:
  "store_inv k t \<Longrightarrow> programStatusRecords u = filter P (programStatusRecords t) \<Longrightarrow> programStatusRevision u = programStatusRevision t \<Longrightarrow> store_inv k u"
  by (simp add: store_inv_def records_inv_filter)

definition view :: "status_term \<Rightarrow> (wstring \<times> Report) list" where
  "view t = entries (programStatusRecords t)"

definition live_report :: "wstring \<times> Report \<Rightarrow> bool" where
  "live_report p \<longleftrightarrow> IsLive (r_state (snd p))"

lemma view_live: "entries (filter (\<lambda>p. \<not> IsLive (sr_state (snd p))) m) = filter (\<lambda>p. \<not> live_report p) (entries m)"
  using entries_filter [of "\<lambda>k r. \<not> IsLive (r_state r)" m] by (simp add: live_report_def report_part_def)

lemma view_clear: "by_key m \<Longrightarrow> entries (clear_subtree i m) = filter (\<lambda>p. \<not> IsInSubtree (fst p) i) (entries m)"
  using entries_filter [of "\<lambda>k r. \<not> IsInSubtree k i" m] by (simp add: clear_subtree_filter)

lemma entries_Nil [simp]: "entries [] = []"
  by (simp add: entries_def by_age_def)

text \<open>What a validated report does to the entries.\<close>

definition spec_report :: "Report \<Rightarrow> (wstring \<times> Report) list \<Rightarrow> (wstring \<times> Report) list" where
  "spec_report r l =
     (if r_state r = Clear then (if r_id r = [] then [] else filter (\<lambda>p. \<not> IsInSubtree (fst p) (r_id r)) l)
      else lru_put MaxRecords (r_id r) r l)"

lemma report_step:
  assumes t: "store_inv (Suc k) t" "programStatusEnabled t" and p: "pr_outcome p = ReportOutcome" "report_ok (pr_report p)"
  shows "store_inv k (ProgramStatusReport p t)" "view (ProgramStatusReport p t) = spec_report (pr_report p) (view t)"
    "programStatusEnabled (ProgramStatusReport p t)" "shellCommandRunning (ProgramStatusReport p t) = shellCommandRunning t"
proof -
  let ?r = "pr_report p" and ?m = "programStatusRecords t" and ?n = "programStatusRevision t"
  have m: "records_inv ?n ?m" and n: "unat ?n + 1 < 2 ^ 64" and n': "unat ?n + Suc k < 2 ^ 64" using t(1) by (simp_all add: store_inv_def)
  have k: "by_key ?m" using m by (simp add: records_inv_def)
  have u: "unat (?n + 1) = unat ?n + 1" using n by (simp add: unat_word_ariths)
  show "store_inv k (ProgramStatusReport p t)"
  proof (cases "r_state ?r = Clear")
    case True
    then show ?thesis using t p m n' records_inv_filter [OF m]
      by (simp add: ProgramStatusReport_def store_inv_def programStatusNotify_def clear_subtree_filter [OF k] Let_def)
  next
    case False
    note I = map_put_inv [OF evict_inv(1) [OF m] p(2) False n evict_inv(2) [OF m]]
    show ?thesis using t p False I n' u by (simp add: ProgramStatusReport_def store_inv_def programStatusNotify_def Let_def)
  qed
  show "view (ProgramStatusReport p t) = spec_report ?r (view t)"
    using t p entries_report [OF m n, of ?r] view_clear [OF k]
    by (simp add: ProgramStatusReport_def view_def spec_report_def programStatusNotify_def Let_def)
  show "programStatusEnabled (ProgramStatusReport p t)" "shellCommandRunning (ProgramStatusReport p t) = shellCommandRunning t"
    using t p by (simp_all add: ProgramStatusReport_def programStatusNotify_def Let_def)
qed

lemma length_filter_full: "length (filter P xs) = length xs \<longleftrightarrow> filter P xs = xs"
  by (metis filter_id_conv length_filter_less less_irrefl)

lemma drop_live_step:
  assumes "store_inv k t"
  shows "store_inv k (ProgramStatusDropLive t)" "view (ProgramStatusDropLive t) = filter (\<lambda>p. \<not> live_report p) (view t)"
    "programStatusEnabled (ProgramStatusDropLive t) = programStatusEnabled t" "shellCommandRunning (ProgramStatusDropLive t) = shellCommandRunning t"
    "ProgramStatusPromptStarted t = ProgramStatusDropLive t"
  using assms records_inv_filter
  by (auto simp: ProgramStatusDropLive_def ProgramStatusPromptStarted_def programStatusDropLive_def programStatusNotify_def Let_def store_inv_def
      view_def view_live)

subsection \<open>Histories\<close>

text \<open>
  What reaches the store: operating system commands 7501 and 133, the end of the connection, a
  hard reset, and the switch that turns the feature on and off.
\<close>

datatype status_op = Osc7501 wstring | Osc133 wstring | ConnectionClosed | HardReset | SetEnabled bool

fun status_step :: "status_op \<Rightarrow> status_term \<Rightarrow> status_term" where
  "status_step (Osc7501 s) t = DoProgramStatusAction s t"
| "status_step (Osc133 s) t = DoFinalTermAction_status s t"
| "status_step ConnectionClosed t = ProgramStatusDropLive t"
| "status_step HardReset t = ProgramStatusReset t"
| "status_step (SetEnabled b) t = SetProgramStatusEnabled b t"

record status_spec =
  spec_entries :: "(wstring \<times> Report) list"
  spec_enabled :: bool
  spec_running :: bool

definition is_mark :: "wchar \<Rightarrow> wstring \<Rightarrow> bool" where
  "is_mark c s \<longleftrightarrow> s = [c] \<or> (\<exists>rest. s = c # 0x3B # rest)"

lemma is_mark_code [code]: "is_mark c s = (case s of [] \<Rightarrow> False | [d] \<Rightarrow> d = c | d # e # _ \<Rightarrow> d = c \<and> e = 0x3B)"
  by (auto simp: is_mark_def split: list.splits)

fun spec_step :: "status_op \<Rightarrow> status_spec \<Rightarrow> status_spec" where
  "spec_step (Osc7501 s) a =
     (if spec_enabled a \<and> pr_outcome (Parse s) = ReportOutcome
      then a\<lparr>spec_entries := spec_report (pr_report (Parse s)) (spec_entries a)\<rparr> else a)"
| "spec_step (Osc133 s) a =
     (if is_mark 0x41 s then a\<lparr>spec_entries := filter (\<lambda>p. \<not> live_report p) (spec_entries a), spec_running := False\<rparr>
      else if is_mark 0x43 s then a\<lparr>spec_running := True\<rparr>
      else if is_mark 0x44 s then a\<lparr>spec_running := False\<rparr> else a)"
| "spec_step ConnectionClosed a = a\<lparr>spec_entries := filter (\<lambda>p. \<not> live_report p) (spec_entries a)\<rparr>"
| "spec_step HardReset a = a\<lparr>spec_entries := [], spec_running := False\<rparr>"
| "spec_step (SetEnabled b) a = (if b then a\<lparr>spec_enabled := True\<rparr> else a\<lparr>spec_entries := (if spec_enabled a then [] else spec_entries a), spec_enabled := False\<rparr>)"

definition abs_store :: "status_term \<Rightarrow> status_spec" where
  "abs_store t = \<lparr>spec_entries = view t, spec_enabled = programStatusEnabled t, spec_running = shellCommandRunning t\<rparr>"

lemma store_inv_cong:
  "programStatusRecords u = programStatusRecords t \<Longrightarrow> programStatusRevision u = programStatusRevision t \<Longrightarrow> store_inv k u = store_inv k t"
  by (simp add: store_inv_def)

lemma mark_shape: "(s \<noteq> [] \<and> hd s = c \<and> (length s = 1 \<or> s ! 1 = 0x3B)) \<longleftrightarrow> is_mark c s"
proof (cases s)
  case (Cons d s')
  then show ?thesis by (cases s') (auto simp: is_mark_def)
qed (simp add: is_mark_def)

lemma DoFinalTermAction_marks:
  "DoFinalTermAction_status s t =
     (if is_mark 0x41 s then ShellCommandMark 0x41 (ProgramStatusPromptStarted t)
      else if is_mark 0x43 s then ShellCommandMark 0x43 t
      else if is_mark 0x44 s then ShellCommandMark 0x44 t else t)"
  unfolding mark_shape [symmetric] DoFinalTermAction_status_def by (auto simp: Let_def)

lemma mark_step:
  "programStatusRecords (ShellCommandMark c t) = programStatusRecords t" "programStatusRevision (ShellCommandMark c t) = programStatusRevision t"
  "programStatusEnabled (ShellCommandMark c t) = programStatusEnabled t" "shellCommandRunning (ShellCommandMark c t) = (c = 0x43)"
  by (auto simp: ShellCommandMark_def shellNotify_def Let_def)

lemma abs_marks:
  "store_inv k (ShellCommandMark c t) = store_inv k t"
  "abs_store (ShellCommandMark c t) = abs_store t\<lparr>spec_running := (c = 0x43)\<rparr>"
  using mark_step [of c t] by (simp_all add: store_inv_def abs_store_def view_def)

lemma abs_drop_live:
  "store_inv k t \<Longrightarrow> abs_store (ProgramStatusDropLive t) = abs_store t\<lparr>spec_entries := filter (\<lambda>p. \<not> live_report p) (spec_entries (abs_store t))\<rparr>"
  using drop_live_step [of k t] by (simp add: abs_store_def)

lemma step_refines:
  assumes "store_inv (Suc k) t"
  shows "store_inv k (status_step x t) \<and> abs_store (status_step x t) = spec_step x (abs_store t)"
proof -
  have I: "store_inv k t" using assms by (rule store_inv_mono) simp
  show ?thesis
  proof (cases x)
    case (Osc7501 s)
    show ?thesis
    proof (cases "programStatusEnabled t \<and> pr_outcome (Parse s) = ReportOutcome")
      case True
      then have "report_ok (pr_report (Parse s))" by (simp add: accepted_report_ok)
      from report_step [OF assms _ _ this] True Osc7501 show ?thesis by (simp add: DoProgramStatusAction_def Let_def abs_store_def)
    next
      case False
      then have "programStatusRecords (DoProgramStatusAction s t) = programStatusRecords t \<and> programStatusRevision (DoProgramStatusAction s t) = programStatusRevision t \<and>
          programStatusEnabled (DoProgramStatusAction s t) = programStatusEnabled t \<and> shellCommandRunning (DoProgramStatusAction s t) = shellCommandRunning t"
        by (auto simp: DoProgramStatusAction_def ProgramStatusReport_def Let_def)
      with Osc7501 I False show ?thesis by (auto simp: abs_store_def view_def store_inv_def)
    qed
  next
    case (Osc133 s)
    note D = drop_live_step [OF I]
    show ?thesis unfolding Osc133 using I D(1,5) abs_drop_live [OF I] by (simp add: DoFinalTermAction_marks abs_marks)
  next
    case ConnectionClosed
    then show ?thesis using drop_live_step [OF I] by (simp add: abs_store_def)
  next
    case HardReset
    then show ?thesis using I
      by (auto simp: abs_store_def view_def ProgramStatusReset_def ShellCommandEnded_def shellNotify_def programStatusNotify_def store_inv_def Let_def)
  next
    case (SetEnabled b)
    then show ?thesis using I
      by (auto simp: abs_store_def view_def SetProgramStatusEnabled_def programStatusNotify_def store_inv_def Let_def)
  qed
qed

lemma new_store_inv: "store_inv (2 ^ 64 - 1) new_status_term"
  by (simp add: store_inv_def new_status_term_def)

lemma history_refines:
  "store_inv (length ops + k) t \<Longrightarrow>
   store_inv k (fold status_step ops t) \<and> abs_store (fold status_step ops t) = fold spec_step ops (abs_store t)"
proof (induction ops arbitrary: t)
  case (Cons x ops)
  then have "store_inv (Suc (length ops + k)) t" by simp
  note S = step_refines [OF this, of x]
  from Cons.IH [of "status_step x t"] S show ?case by simp
qed simp

text \<open>
  C6. The store implements the protocol's contract. After any history of reports, prompt and
  command marks, closed connections, resets and switches (fewer than the 64-bit revision counter
  can count), the ordered map, read oldest revision first, is exactly what the contract says: each
  id's last report, in the order of reporting, at most 256 of them with the oldest dropped, without
  those a clear of their id or of an ancestor, a prompt or a reset removed; the feature switch and
  the running flag agree as well.
\<close>

theorem store_refines_protocol:
  assumes "length ops < 2 ^ 64"
  shows "abs_store (fold status_step ops new_status_term) =
    fold spec_step ops \<lparr>spec_entries = [], spec_enabled = True, spec_running = False\<rparr>"
proof -
  have "store_inv (length ops + 0) new_status_term" using new_store_inv by (rule store_inv_mono) (use assms in simp)
  from history_refines [OF this] show ?thesis by (simp add: abs_store_def view_def new_status_term_def)
qed

text \<open>Two ids, a clear of one's subtree, and a prompt.\<close>

theorem store_refines_protocol_witness:
  "let ops = [Osc7501 (wlit ''state=working:id=a/b''), Osc7501 (wlit ''state=done:id=a-b''), Osc7501 (wlit ''state=idle:id=a''),
       Osc7501 (wlit ''state=clear:id=a''), Osc7501 (wlit ''state=blocked''), Osc133 (wlit ''A'')]
   in abs_store (fold status_step ops new_status_term) = fold spec_step ops \<lparr>spec_entries = [], spec_enabled = True, spec_running = False\<rparr> \<and>
      map fst (spec_entries (abs_store (fold status_step ops new_status_term))) = [wlit ''a-b'']"
proof -
  define ops where "ops = [Osc7501 (wlit ''state=working:id=a/b''), Osc7501 (wlit ''state=done:id=a-b''), Osc7501 (wlit ''state=idle:id=a''),
       Osc7501 (wlit ''state=clear:id=a''), Osc7501 (wlit ''state=blocked''), Osc133 (wlit ''A'')]"
  have "length ops < 2 ^ 64" by (simp add: ops_def)
  note R = store_refines_protocol [OF this]
  have "map fst (spec_entries (fold spec_step ops \<lparr>spec_entries = [], spec_enabled = True, spec_running = False\<rparr>)) = [wlit ''a-b'']"
    unfolding ops_def by code_simp
  with R show ?thesis unfolding Let_def ops_def [symmetric] by simp
qed

subsection \<open>Retention\<close>

text \<open>
  The interface a consumer of the store relies on: the entries with the oldest first, and reports
  that are entered in that order up to a capacity. \<open>inv n\<close> allows for \<open>n\<close> more reports.
\<close>

locale recency_store =
  fixes inv :: "nat \<Rightarrow> 's \<Rightarrow> bool" and entries_of :: "'s \<Rightarrow> ('k \<times> 'v) list" and enter :: "'v \<Rightarrow> 's \<Rightarrow> 's"
    and key :: "'v \<Rightarrow> 'k" and ok :: "'v \<Rightarrow> bool" and cap :: nat
  assumes cap_positive: "0 < cap"
    and keys_distinct: "inv n s \<Longrightarrow> distinct (map fst (entries_of s))"
    and inv_enter: "inv (Suc n) s \<Longrightarrow> ok v \<Longrightarrow> inv n (enter v s)"
    and entries_enter: "inv (Suc n) s \<Longrightarrow> ok v \<Longrightarrow> entries_of (enter v s) = lru_put cap (key v) v (entries_of s)"
begin

definition recent :: "'k \<Rightarrow> 'v \<Rightarrow> 'k set \<Rightarrow> 's \<Rightarrow> bool" where
  "recent k v R s \<longleftrightarrow> (\<exists>xs ys. entries_of s = xs @ (k, v) # ys \<and> fst ` set ys \<subseteq> R)"

lemma entered_recent: "inv (Suc n) s \<Longrightarrow> ok v \<Longrightarrow> recent (key v) v {} (enter v s)"
  by (auto simp: recent_def entries_enter lru_put_def)

lemma recent_enter:
  assumes s: "inv (Suc n) s" and r: "recent k v R s" and w: "ok w" "key w \<noteq> k" and c: "finite R" "card (insert (key w) R) < cap"
  shows "recent k v (insert (key w) R) (enter w s)"
proof -
  let ?j = "key w"
  obtain xs ys where l: "entries_of s = xs @ (k, v) # ys" and ys: "fst ` set ys \<subseteq> R" using r by (auto simp: recent_def)
  have d: "distinct (map fst (entries_of s))" using s by (rule keys_distinct)
  have *: "\<exists>zs. (if ?j \<notin> fst ` set (entries_of s) \<and> length (entries_of s) \<ge> cap then tl (entries_of s) else entries_of s) = zs @ (k, v) # ys"
  proof (cases "?j \<notin> fst ` set (entries_of s) \<and> length (entries_of s) \<ge> cap \<and> xs = []")
    case True
    then have j: "?j \<notin> fst ` set ys" and len: "cap \<le> Suc (length ys)" by (auto simp: l)
    have "card (insert ?j (fst ` set ys)) = Suc (length ys)"
      using d j by (simp add: l distinct_card [symmetric] distinct_map card_image)
    moreover have "card (insert ?j (fst ` set ys)) \<le> card (insert ?j R)" using ys c(1) by (intro card_mono) auto
    ultimately show ?thesis using len c(2) by simp
  next
    case False
    then show ?thesis by (cases xs) (auto simp: l)
  qed
  then obtain zs where z: "(if ?j \<notin> fst ` set (entries_of s) \<and> length (entries_of s) \<ge> cap then tl (entries_of s) else entries_of s) = zs @ (k, v) # ys" by blast
  have "entries_of (enter w s) = filter (\<lambda>p. fst p \<noteq> ?j) zs @ (k, v) # filter (\<lambda>p. fst p \<noteq> ?j) ys @ [(?j, w)]"
    unfolding entries_enter [OF s w(1)] lru_put_def z using w(2) by simp
  moreover have "fst ` set (filter (\<lambda>p. fst p \<noteq> ?j) ys @ [(?j, w)]) \<subseteq> insert ?j R" using ys by auto
  ultimately show ?thesis unfolding recent_def by blast
qed

lemma retained:
  "inv (length ws) s \<Longrightarrow> recent k v R s \<Longrightarrow> \<forall>w \<in> set ws. ok w \<and> key w \<noteq> k \<Longrightarrow> finite R \<Longrightarrow> card (R \<union> key ` set ws) < cap \<Longrightarrow>
   (k, v) \<in> set (entries_of (fold enter ws s))"
proof (induction ws arbitrary: s R)
  case Nil
  then show ?case by (auto simp: recent_def)
next
  case (Cons w ws)
  have "card (insert (key w) R) \<le> card (R \<union> key ` set (w # ws))" using Cons.prems(4) by (intro card_mono) auto
  then have "recent k v (insert (key w) R) (enter w s)" using Cons.prems by (intro recent_enter [of "length ws"]) auto
  moreover have "inv (length ws) (enter w s)" using Cons.prems by (auto intro: inv_enter)
  moreover have "card (insert (key w) R \<union> key ` set ws) < cap" using Cons.prems(5) by (simp add: insert_commute)
  ultimately show ?case using Cons.IH [of "enter w s" "insert (key w) R"] Cons.prems by simp
qed

end

definition result_of :: "Report \<Rightarrow> ParseResult" where
  "result_of r = \<lparr>pr_outcome = ReportOutcome, pr_report = r, pr_reason = [], pr_skippedPairs = 0\<rparr>"

definition enter_report :: "Report \<Rightarrow> status_term \<Rightarrow> status_term" where
  "enter_report r t = ProgramStatusReport (result_of r) t"

definition record_report :: "Report \<Rightarrow> bool" where
  "record_report r \<longleftrightarrow> report_ok r \<and> r_state r \<noteq> Clear"

lemma view_distinct: "store_inv k t \<Longrightarrow> distinct (map fst (view t))"
proof -
  assume "store_inv k t"
  then have "distinct (map fst (programStatusRecords t))" by (auto simp: store_inv_def records_inv_def intro: by_key_distinct)
  then have "distinct (map fst (by_age (programStatusRecords t)))" by (auto simp: distinct_map by_age_def intro: distinct_sort)
  then show ?thesis by (simp add: view_def entries_def comp_def)
qed

interpretation status_store: recency_store "\<lambda>n t. store_inv n t \<and> programStatusEnabled t" view enter_report r_id record_report MaxRecords
  by unfold_locales
    (auto simp: MaxRecords_def enter_report_def record_report_def result_of_def view_distinct report_step spec_report_def)


definition plain_report :: "wstring \<Rightarrow> State \<Rightarrow> Report" where
  "plain_report i s = \<lparr>r_id = i, r_state = s, r_app = [], r_kind = NoKind, r_progress = None, r_title = [], r_msg = []\<rparr>"

lemma plain_report_ok: "IsValidId i \<Longrightarrow> s \<noteq> Clear \<Longrightarrow> record_report (plain_report i s)"
  by (auto simp: record_report_def report_ok_def plain_report_def text_ok_def intro: exI [of _ "[]"])


subsection \<open>Inherited applications\<close>

text \<open>The ids above an id, nearest first, the root last.\<close>

function ancestors :: "wstring \<Rightarrow> wstring list" where
  "ancestors i = (if i = [] then [] else parent_id i # ancestors (parent_id i))"
  by pat_completeness auto
termination
  by (relation "measure length") (auto dest: parent_id_shorter)

declare ancestors.simps [simp del]

definition has_app :: "records \<Rightarrow> wstring \<Rightarrow> bool" where
  "has_app m i \<longleftrightarrow> (\<exists>r. map_find i m = Some r \<and> sr_app r \<noteq> [])"

lemma parent_id_split: "0x2F \<in> set i \<Longrightarrow> \<exists>s. i = parent_id i @ 0x2F # s \<and> 0x2F \<notin> set s"
proof -
  assume a: "0x2F \<in> set i"
  obtain s j where s: "i = j @ 0x2F # s" "0x2F \<notin> set s" using split_list_last [OF a] by blast
  have "dropWhile (\<lambda>c. c \<noteq> 0x2F) (rev i) = 0x2F # rev j" using s by (auto simp: dropWhile_append3)
  then have "parent_id i = j" using a by (simp add: parent_id_def)
  with s show ?thesis by metis
qed

lemma ancestors_iff: "a \<in> set (ancestors i) \<longleftrightarrow> i \<noteq> [] \<and> (a = [] \<or> prefix (a @ [0x2F]) i)"
proof (induction i rule: ancestors.induct)
  case (1 i)
  show ?case
  proof (cases "i \<noteq> [] \<and> 0x2F \<in> set i")
    case True
    then obtain s where s: "i = parent_id i @ 0x2F # s" "0x2F \<notin> set s" using parent_id_split by blast
    have "prefix (a @ [0x2F]) i \<longleftrightarrow> a = parent_id i \<or> prefix (a @ [0x2F]) (parent_id i)"
    proof
      assume "prefix (a @ [0x2F]) i"
      then obtain u where u: "i = a @ 0x2F # u" by (auto simp: prefix_def)
      with s have "a @ 0x2F # u = parent_id i @ 0x2F # s" by simp
      then show "a = parent_id i \<or> prefix (a @ [0x2F]) (parent_id i)"
        using s(2) unfolding append_eq_append_conv2 by (auto simp: append_eq_Cons_conv Cons_eq_append_conv prefix_def) metis
    next
      assume "a = parent_id i \<or> prefix (a @ [0x2F]) (parent_id i)"
      then show "prefix (a @ [0x2F]) i" using s(1) by (metis append.assoc append_Cons append_Nil prefix_def prefix_order.trans)
    qed
    moreover have "parent_id i = [] \<Longrightarrow> a \<in> set (ancestors (parent_id i)) \<longleftrightarrow> False" by (simp add: ancestors.simps)
    ultimately show ?thesis using 1 True by (subst ancestors.simps) auto
  next
    case False
    then have "parent_id i = []" by (auto simp: parent_id_def)
    moreover have "\<not> prefix (a @ [0x2F]) i" using False by (auto simp: prefix_def)
    ultimately show ?thesis by (subst ancestors.simps) (auto simp: ancestors.simps)
  qed
qed

lemma ancestor_app_find:
  "ancestor_app m i = (case find (has_app m) (ancestors i) of None \<Rightarrow> [] | Some a \<Rightarrow> sr_app (the (map_find a m)))"
proof (induction i rule: ancestors.induct)
  case (1 i)
  show ?case
  proof (cases "i = []")
    case False
    then have a: "ancestors i = parent_id i # ancestors (parent_id i)" by (subst ancestors.simps) simp
    show ?thesis
    proof (cases "has_app m (parent_id i)")
      case True
      then show ?thesis using False unfolding a by (subst ancestor_app.simps) (auto simp: has_app_def)
    next
      case no: False
      then have "ancestor_app m i = ancestor_app m (parent_id i)"
        using False by (subst ancestor_app.simps) (auto simp: has_app_def split: option.splits)
      with no show ?thesis unfolding a using 1 False by simp
    qed
  qed (simp add: ancestors.simps ancestor_app.simps)
qed

lemma ancestors_shorter: "a \<in> set (ancestors i) \<Longrightarrow> length a < length i"
  unfolding ancestors_iff by (auto dest: prefix_length_le)

lemma ancestors_sorted: "sorted_wrt (\<lambda>a b. length b < length a) (ancestors i)"
proof (induction i rule: ancestors.induct)
  case (1 i)
  then show ?case using ancestors_shorter [of _ "parent_id i"] by (subst ancestors.simps) auto
qed

lemma find_sorted:
  "sorted_wrt R xs \<Longrightarrow> find P xs = Some a \<Longrightarrow> a \<in> set xs \<and> P a \<and> (\<forall>b \<in> set xs. P b \<longrightarrow> b = a \<or> R a b)"
  by (induction xs) (auto split: if_splits)

definition above :: "records \<Rightarrow> wstring \<Rightarrow> wstring \<Rightarrow> bool" where
  "above m i a \<longleftrightarrow> i \<noteq> [] \<and> (a = [] \<or> prefix (a @ [0x2F]) i) \<and> has_app m a"

lemma ancestor_app_nearest:
  "if \<exists>a. above m i a then \<exists>a q. above m i a \<and> (\<forall>b. above m i b \<longrightarrow> length b \<le> length a) \<and> map_find a m = Some q \<and> ancestor_app m i = sr_app q
   else ancestor_app m i = []"
proof -
  have A: "above m i a \<longleftrightarrow> a \<in> set (ancestors i) \<and> has_app m a" for a by (auto simp: above_def ancestors_iff)
  show ?thesis
  proof (cases "find (has_app m) (ancestors i)")
    case None
    then have "\<not> (\<exists>a. above m i a)" by (auto simp: A find_None_iff)
    with None show ?thesis by (simp add: ancestor_app_find)
  next
    case (Some a)
    note F = find_sorted [OF ancestors_sorted Some]
    then have a: "above m i a" "\<forall>b. above m i b \<longrightarrow> length b \<le> length a" by (auto simp: A)
    moreover obtain q where "map_find a m = Some q" using F by (auto simp: has_app_def)
    moreover from this have "ancestor_app m i = sr_app q" by (simp add: ancestor_app_find Some)
    ultimately show ?thesis by auto
  qed
qed

text \<open>
  C32. A snapshot shows every record as reported, with its own application or, when it reported
  none, that of the nearest record above it that has one (the longest proper prefix of its id at a
  slash, the root being the shortest), and none when no record above it has one.
\<close>

theorem effective_app_nearest:
  assumes "store_inv k t" and "(i, r) \<in> set (programStatusRecords t)"
  shows "\<exists>q \<in> set (GetProgramStatusRecords t). q\<lparr>sr_effectiveApp := []\<rparr> = r \<and>
    (if sr_app r \<noteq> [] then sr_effectiveApp q = sr_app r
     else if \<exists>a. above (programStatusRecords t) i a
       then \<exists>a p. above (programStatusRecords t) i a \<and> (\<forall>b. above (programStatusRecords t) i b \<longrightarrow> length b \<le> length a) \<and>
              map_find a (programStatusRecords t) = Some p \<and> sr_effectiveApp q = sr_app p
     else sr_effectiveApp q = [])"
proof -
  let ?m = "programStatusRecords t"
  have r: "sr_effectiveApp r = []" using assms by (auto simp: store_inv_def records_inv_def record_ok_def)
  define q where "q = r\<lparr>sr_effectiveApp := (if sr_app r \<noteq> [] then sr_app r else ancestor_app ?m i)\<rparr>"
  have "q \<in> set (GetProgramStatusRecords t)"
    using assms(2) r unfolding GetProgramStatusRecords_def q_def by (force split: list.splits)
  moreover have "q\<lparr>sr_effectiveApp := []\<rparr> = r" using r by (simp add: q_def)
  moreover have "sr_effectiveApp q = (if sr_app r \<noteq> [] then sr_app r else ancestor_app ?m i)" by (simp add: q_def)
  ultimately show ?thesis using ancestor_app_nearest [of ?m i] by (intro bexI [of _ q]) (simp_all split: if_splits)
qed

theorem effective_app_nearest_witness:
  "let t = fold status_step [Osc7501 (wlit ''state=idle:app=root''), Osc7501 (wlit ''state=done:id=a:app=x''), Osc7501 (wlit ''state=done:id=a/b/c'')] new_status_term
   in map sr_effectiveApp (GetProgramStatusRecords t) = [wlit ''root'', wlit ''x'', wlit ''x''] \<and>
      (\<forall>p \<in> set (programStatusRecords t). \<exists>q \<in> set (GetProgramStatusRecords t). q\<lparr>sr_effectiveApp := []\<rparr> = snd p)"
proof -
  define t where "t = fold status_step [Osc7501 (wlit ''state=idle:app=root''), Osc7501 (wlit ''state=done:id=a:app=x''), Osc7501 (wlit ''state=done:id=a/b/c'')] new_status_term"
  have "store_inv (length [Osc7501 (wlit ''state=idle:app=root''), Osc7501 (wlit ''state=done:id=a:app=x''), Osc7501 (wlit ''state=done:id=a/b/c'')] + 0) new_status_term"
    using new_store_inv by (rule store_inv_mono) simp
  from history_refines [OF this] have i: "store_inv 0 t" by (simp add: t_def)
  have "\<exists>q \<in> set (GetProgramStatusRecords t). q\<lparr>sr_effectiveApp := []\<rparr> = snd p" if "p \<in> set (programStatusRecords t)" for p
    using effective_app_nearest [OF i, of "fst p" "snd p"] that by auto
  moreover have "map sr_effectiveApp (GetProgramStatusRecords t) = [wlit ''root'', wlit ''x'', wlit ''x'']" unfolding t_def by code_simp
  ultimately show ?thesis unfolding Let_def t_def [symmetric] by blast
qed

end
