(* ===== verification/Axan_NameMask.thy ===== *)
theory Axan_NameMask
  imports Axan_Prelude
begin

unbundle bit_operations_syntax

text \<open>
  Lists of names from a fixed vocabulary held as bit masks, \<^verbatim>\<open>inc/AxanNameMask.h\<close>, and its first
  user, the idle effects of \<^verbatim>\<open>inc/AxanIdleEffects.h\<close>. The mask type is a word of any length; the
  locale \<open>name_mask\<close> states what a vocabulary must satisfy for it (the header's \<^verbatim>\<open>static_assert\<close> and
  that the names differ and are trimmed), and its lemmas show that masks and lists of names carry
  the same information.
\<close>

definition is_name_space :: "wchar \<Rightarrow> bool" where
  "is_name_space c \<longleftrightarrow> c = 0x20 \<or> c = 0x09 \<or> c = 0x0D \<or> c = 0x0A"

definition TrimName :: "wstring \<Rightarrow> wstring" where
  "TrimName s = rev (dropWhile is_name_space (rev (dropWhile is_name_space s)))"

fun bit_from :: "nat \<Rightarrow> wstring list \<Rightarrow> wstring \<Rightarrow> 'a::len word" where
  "bit_from i [] name = 0"
| "bit_from i (v # vs) name = (if v = name then push_bit i 1 else bit_from (Suc i) vs name)"

definition MaskBit :: "wstring list \<Rightarrow> wstring \<Rightarrow> 'a::len word" where
  "MaskBit vocabulary name = bit_from 0 vocabulary name"

definition MaskAll :: "wstring list \<Rightarrow> 'a::len word" where
  "MaskAll vocabulary = push_bit (length vocabulary) 1 - 1"

definition mask_step :: "wstring list \<Rightarrow> wstring \<Rightarrow> 'a::len word \<times> wstring list \<Rightarrow> 'a word \<times> wstring list" where
  "mask_step vocabulary raw a =
     (let name = TrimName raw; b = MaskBit vocabulary name
      in if name = [] then a
         else if b = 0 then (fst a, snd a @ [name])
         else (fst a OR b, snd a))"

definition MaskFromNames :: "wstring list \<Rightarrow> wstring list \<Rightarrow> 'a::len word \<times> wstring list" where
  "MaskFromNames vocabulary names = fold (mask_step vocabulary) names (0, [])"

definition NamesFromMask :: "wstring list \<Rightarrow> 'a::len word \<Rightarrow> wstring list" where
  "NamesFromMask vocabulary m = map ((!) vocabulary) (filter (\<lambda>i. m AND push_bit i 1 \<noteq> 0) [0 ..< length vocabulary])"

locale name_mask =
  fixes vocabulary :: "wstring list" and width :: "'a::len itself"
  assumes distinct_names: "distinct vocabulary"
    and fits: "length vocabulary \<le> LENGTH('a)"
    and trimmed: "list_all (\<lambda>n. n \<noteq> [] \<and> TrimName n = n) vocabulary"
begin

lemma bit_from_bit: "bit (bit_from i vs n :: 'a word) k \<longleftrightarrow> k < LENGTH('a) \<and> i \<le> k \<and> k - i < length vs \<and> vs ! (k - i) = n \<and> n \<notin> set (take (k - i) vs)"
proof (induction vs arbitrary: i)
  case (Cons v vs)
  show ?case
  proof (cases "k \<le> i")
    case True
    then show ?thesis using Cons.IH [of "Suc i"] by (auto simp: bit_simps)
  next
    case False
    then obtain d where d: "k = i + Suc d" by (metis add_Suc_right less_imp_Suc_add not_le)
    then show ?thesis using Cons.IH [of "Suc i"] by (auto simp: bit_simps)
  qed
qed simp

lemma MaskBit_bit: "bit (MaskBit vocabulary n :: 'a word) k \<longleftrightarrow> k < length vocabulary \<and> vocabulary ! k = n"
  using distinct_names fits unfolding MaskBit_def bit_from_bit
  by (auto simp: in_set_conv_nth nth_eq_iff_index_eq)

lemma MaskBit_zero: "MaskBit vocabulary n = (0 :: 'a word) \<longleftrightarrow> n \<notin> set vocabulary"
proof -
  have "MaskBit vocabulary n = (0 :: 'a word) \<longleftrightarrow> (\<forall>k. \<not> bit (MaskBit vocabulary n :: 'a word) k)"
    by (metis bit_0_eq bot_apply bot_bool_def bit_eqI)
  then show ?thesis by (auto simp: MaskBit_bit in_set_conv_nth)
qed

lemma mask_bit: "m AND 2 ^ k \<noteq> 0 \<longleftrightarrow> bit (m :: 'a word) k"
  by (simp add: and_exp_eq_0_iff_not_bit)

lemma set_NamesFromMask: "n \<in> set (NamesFromMask vocabulary (m :: 'a word)) \<longleftrightarrow> (\<exists>k < length vocabulary. bit m k \<and> vocabulary ! k = n)"
  by (auto simp: NamesFromMask_def mask_bit)

lemma mask_step_eq:
  "mask_step vocabulary n (m :: 'a word, u) =
     (m OR MaskBit vocabulary (TrimName n), u @ (if TrimName n \<noteq> [] \<and> TrimName n \<notin> set vocabulary then [TrimName n] else []))"
proof -
  have "[] \<notin> set vocabulary" using trimmed by (auto simp: list_all_iff)
  then have "TrimName n = [] \<Longrightarrow> MaskBit vocabulary (TrimName n) = (0 :: 'a word)" by (simp add: MaskBit_zero)
  then show ?thesis using MaskBit_zero [of "TrimName n"] by (auto simp: mask_step_def Let_def)
qed

lemma fold_mask_step:
  "snd (fold (mask_step vocabulary) ns (m :: 'a word, u)) = u @ filter (\<lambda>n. n \<noteq> [] \<and> n \<notin> set vocabulary) (map TrimName ns)"
  "bit (fst (fold (mask_step vocabulary) ns (m :: 'a word, u))) k \<longleftrightarrow>
     bit m k \<or> (k < length vocabulary \<and> vocabulary ! k \<in> TrimName ` set ns)"
  by (induction ns arbitrary: m u) (auto simp: mask_step_eq bit_or_iff MaskBit_bit)

lemma unknown_names:
  "snd (MaskFromNames vocabulary ns :: 'a word \<times> _) = filter (\<lambda>n. n \<noteq> [] \<and> n \<notin> set vocabulary) (map TrimName ns)"
  by (simp add: MaskFromNames_def fold_mask_step)

lemma MaskFromNames_bit:
  "bit (fst (MaskFromNames vocabulary ns) :: 'a word) k \<longleftrightarrow> k < length vocabulary \<and> vocabulary ! k \<in> TrimName ` set ns"
  by (simp add: MaskFromNames_def fold_mask_step)

lemma names_of_names:
  "n \<in> set (NamesFromMask vocabulary (fst (MaskFromNames vocabulary ns) :: 'a word)) \<longleftrightarrow> n \<in> set vocabulary \<and> n \<in> TrimName ` set ns"
  unfolding set_NamesFromMask MaskFromNames_bit by (metis in_set_conv_nth)

lemma MaskAll_bit: "bit (MaskAll vocabulary :: 'a word) k \<longleftrightarrow> k < length vocabulary"
proof -
  have "MaskAll vocabulary = (mask (length vocabulary) :: 'a word)" by (simp add: MaskAll_def mask_eq_exp_minus_1 push_bit_of_1)
  then show ?thesis using fits by (auto simp: bit_mask_iff)
qed

lemma mask_roundtrip:
  "fst (MaskFromNames vocabulary (NamesFromMask vocabulary m)) = (m AND MaskAll vocabulary :: 'a word)"
proof (rule bit_word_eqI)
  fix k assume "k < LENGTH('a)"
  have "TrimName n = n" if "n \<in> set (NamesFromMask vocabulary m)" for n
    using that trimmed by (auto simp: set_NamesFromMask list_all_length)
  then have "TrimName ` set (NamesFromMask vocabulary m) = set (NamesFromMask vocabulary m)" by force
  moreover have "vocabulary ! k \<in> set (NamesFromMask vocabulary m) \<longleftrightarrow> bit m k" if "k < length vocabulary"
    using that distinct_names by (auto simp: set_NamesFromMask nth_eq_iff_index_eq)
  ultimately show "bit (fst (MaskFromNames vocabulary (NamesFromMask vocabulary m)) :: 'a word) k = bit (m AND MaskAll vocabulary) k"
    by (auto simp: MaskFromNames_bit bit_and_iff MaskAll_bit)
qed

end

subsection \<open>Idle effects\<close>

definition idleEffectNames :: "wstring list" where
  "idleEffectNames = [wlit ''dim'', wlit ''smaller'', wlit ''gray'', wlit ''collapse'']"

definition kDim :: "8 word" where "kDim = MaskBit idleEffectNames (wlit ''dim'')"
definition kSmaller :: "8 word" where "kSmaller = MaskBit idleEffectNames (wlit ''smaller'')"
definition kGray :: "8 word" where "kGray = MaskBit idleEffectNames (wlit ''gray'')"
definition kCollapse :: "8 word" where "kCollapse = MaskBit idleEffectNames (wlit ''collapse'')"
definition idleDefault :: "8 word" where "idleDefault = kDim OR kSmaller"

interpretation idle: name_mask idleEffectNames "TYPE(8)"
  by unfold_locales (simp_all add: idleEffectNames_def TrimName_def is_name_space_def)

end
