(* ===== verification/Axan_SessionState.thy ===== *)
theory Axan_SessionState
  imports Axan_Prelude
begin

text \<open>
  The state a row of the sidebar shows for its session, \<^verbatim>\<open>cascadia/TerminalApp/AxanSessionState.h\<close>:
  the pure function \<open>Derive\<close> from the panes of a tab (their status records, whether a shell command
  runs) and the tab's bell to the node's state, message and glyph slot. The pointers \<^verbatim>\<open>bestRecord\<close>
  and \<^verbatim>\<open>bestPane\<close>, always set together, are an optional pair.
\<close>

subsection \<open>Data\<close>

datatype NodeState = NodeIdle | NodeRunning | NodeWorking | DoneUnseen | NodeError | NeedsYou

datatype RecordState = RecIdle | RecWorking | RecDone | RecBlocked | RecError

datatype RecordKind = KindNone | KindPermission | KindQuestion | KindAuth

record RecordInput =
  ri_isRoot :: bool
  ri_id :: wstring
  ri_state :: RecordState
  ri_kind :: RecordKind
  ri_msg :: wstring
  ri_title :: wstring
  ri_revision :: "64 word"
  ri_seen :: bool

record PaneInput =
  pi_records :: "RecordInput list"
  pi_commandRunning :: bool
  pi_paneId :: "64 word"
  pi_terminalTitle :: wstring

datatype Slot = SlotNone | SlotIdle | SlotWorking | SlotBlocked | SlotDone | SlotError | SlotRunning

definition SlotKey :: "Slot \<Rightarrow> wstring" where
  "SlotKey s = (case s of SlotIdle \<Rightarrow> wlit ''idle'' | SlotWorking \<Rightarrow> wlit ''working'' | SlotBlocked \<Rightarrow> wlit ''blocked''
     | SlotDone \<Rightarrow> wlit ''done'' | SlotError \<Rightarrow> wlit ''error'' | SlotRunning \<Rightarrow> wlit ''running'' | SlotNone \<Rightarrow> [])"

record Retained =
  rt_present :: bool
  rt_state :: RecordState
  rt_message :: wstring

record NodeResult =
  nr_state :: NodeState
  nr_message :: wstring
  nr_kind :: wstring
  nr_source :: string
  nr_slot :: Slot
  nr_agentName :: wstring
  nr_retained :: Retained
  nr_reportKey :: wstring

definition Rank :: "NodeState \<Rightarrow> nat" where
  "Rank s = (case s of NodeIdle \<Rightarrow> 0 | NodeRunning \<Rightarrow> 1 | NodeWorking \<Rightarrow> 2 | DoneUnseen \<Rightarrow> 3 | NodeError \<Rightarrow> 4 | NeedsYou \<Rightarrow> 5)"

definition Name :: "NodeState \<Rightarrow> wstring" where
  "Name s = (case s of NodeRunning \<Rightarrow> wlit ''running'' | NodeWorking \<Rightarrow> wlit ''working'' | DoneUnseen \<Rightarrow> wlit ''done-unseen''
     | NodeError \<Rightarrow> wlit ''error'' | NeedsYou \<Rightarrow> wlit ''needs-you'' | NodeIdle \<Rightarrow> wlit ''idle'')"

definition RecordKindName :: "RecordKind \<Rightarrow> wstring" where
  "RecordKindName k = (case k of KindPermission \<Rightarrow> wlit ''permission'' | KindQuestion \<Rightarrow> wlit ''question'' | KindAuth \<Rightarrow> wlit ''auth'' | KindNone \<Rightarrow> [])"

definition FromRecord :: "RecordInput \<Rightarrow> NodeState" where
  "FromRecord r =
     (case ri_state r of
        RecBlocked \<Rightarrow> NeedsYou
      | RecError \<Rightarrow> if ri_seen r then NodeIdle else NodeError
      | RecDone \<Rightarrow> if ri_seen r then NodeIdle else DoneUnseen
      | RecWorking \<Rightarrow> NodeWorking
      | RecIdle \<Rightarrow> NodeIdle)"

definition record_number :: "RecordState \<Rightarrow> nat" where
  "record_number s = (case s of RecIdle \<Rightarrow> 0 | RecWorking \<Rightarrow> 1 | RecDone \<Rightarrow> 2 | RecBlocked \<Rightarrow> 3 | RecError \<Rightarrow> 4)"

definition ReportKey :: "PaneInput \<Rightarrow> RecordInput \<Rightarrow> wstring" where
  "ReportKey pane r = decimal (unat (pi_paneId pane)) @ [0x3A] @ ri_id r @ [0x3A] @ decimal (record_number (ri_state r))"

definition isTitleNameChar :: "wchar \<Rightarrow> bool" where
  "isTitleNameChar c \<longleftrightarrow> (c \<ge> 0x30 \<and> c \<le> 0x39) \<or> (c \<ge> 0x41 \<and> c \<le> 0x5A) \<or> (c \<ge> 0x61 \<and> c \<le> 0x7A) \<or>
     c = 0x5F \<or> c = 0x2D \<or> c = 0x2E \<or> c = 0x28 \<or> c = 0x5B \<or> c = 0x7E \<or> c = 0x2F \<or>
     (c \<ge> 0x00C0 \<and> c < 0x2000) \<or> (c \<ge> 0x3040 \<and> c < 0xD800) \<or> (c \<ge> 0xF900 \<and> c < 0xFFF0)"

definition CleanTerminalTitle :: "wstring \<Rightarrow> wstring" where
  "CleanTerminalTitle title =
     (let rest = dropWhile (\<lambda>c. \<not> isTitleNameChar c) title
      in rev (dropWhile (\<lambda>c. c = 0x20 \<or> c = 0x09) (rev rest)))"

subsection \<open>The strongest pane\<close>

record pick =
  pk_have :: bool
  pk_state :: NodeState
  pk_source :: string
  pk_best :: "(PaneInput \<times> RecordInput) option"

definition pick_start :: pick where
  "pick_start = \<lparr>pk_have = False, pk_state = NodeIdle, pk_source = ''none'', pk_best = None\<rparr>"

text \<open>The tie-break between records: the root record first, then the higher revision.\<close>

definition tie_better :: "RecordInput \<Rightarrow> RecordInput \<Rightarrow> bool" where
  "tie_better r b \<longleftrightarrow> (ri_isRoot r \<and> \<not> ri_isRoot b) \<or> (ri_isRoot r = ri_isRoot b \<and> ri_revision r > ri_revision b)"

definition pick_record :: "PaneInput \<Rightarrow> RecordInput \<Rightarrow> pick \<Rightarrow> pick" where
  "pick_record pane r p =
     (let s = FromRecord r;
          better = (\<not> pk_have p \<or> Rank s > Rank (pk_state p) \<or>
            (Rank s = Rank (pk_state p) \<and> (case pk_best p of None \<Rightarrow> True | Some (_, b) \<Rightarrow> tie_better r b)))
      in if better then \<lparr>pk_have = True, pk_state = s, pk_source = ''osc7501'', pk_best = Some (pane, r)\<rparr> else p)"

definition pick_pane :: "PaneInput \<Rightarrow> pick \<Rightarrow> pick" where
  "pick_pane pane p =
     (if pi_records pane \<noteq> [] then fold (pick_record pane) (pi_records pane) p
      else
        (let s = (if pi_commandRunning pane then NodeRunning else NodeIdle)
         in if \<not> pk_have p \<or> Rank s > Rank (pk_state p)
            then \<lparr>pk_have = True, pk_state = s, pk_source = (if pi_commandRunning pane then ''osc133'' else ''none''), pk_best = None\<rparr>
            else p))"

definition pick_all :: "PaneInput list \<Rightarrow> pick" where
  "pick_all panes = fold pick_pane panes pick_start"

subsection \<open>The kept report\<close>

definition keep_record :: "PaneInput \<Rightarrow> RecordInput \<Rightarrow> (PaneInput \<times> RecordInput) option \<Rightarrow> (PaneInput \<times> RecordInput) option" where
  "keep_record pane r kept =
     (if \<not> ri_seen r \<or> (ri_state r \<noteq> RecDone \<and> ri_state r \<noteq> RecError) then kept
      else case kept of
             None \<Rightarrow> Some (pane, r)
           | Some (_, k) \<Rightarrow>
               if (ri_state r = RecError \<and> ri_state k \<noteq> RecError) \<or> (ri_state r = ri_state k \<and> tie_better r k)
               then Some (pane, r) else kept)"

definition keep_all :: "PaneInput list \<Rightarrow> (PaneInput \<times> RecordInput) option" where
  "keep_all panes = fold (\<lambda>pane. fold (keep_record pane) (pi_records pane)) panes None"

definition text_of :: "RecordInput \<Rightarrow> wstring" where
  "text_of r = (if ri_msg r \<noteq> [] then ri_msg r else ri_title r)"

definition slot_of :: "NodeState \<Rightarrow> bool \<Rightarrow> Slot" where
  "slot_of s anyRecords =
     (case s of NeedsYou \<Rightarrow> SlotBlocked | NodeError \<Rightarrow> SlotError | DoneUnseen \<Rightarrow> SlotDone | NodeWorking \<Rightarrow> SlotWorking
      | NodeRunning \<Rightarrow> SlotRunning | NodeIdle \<Rightarrow> if anyRecords then SlotIdle else SlotNone)"

definition agent_name :: "PaneInput list \<Rightarrow> wstring" where
  "agent_name panes =
     (let agents = filter (\<lambda>p. pi_records p \<noteq> []) panes;
          titles = filter (\<lambda>r. ri_isRoot r \<and> ri_title r \<noteq> []) (concat (map pi_records agents))
      in case titles of
           r # _ \<Rightarrow> ri_title r
         | [] \<Rightarrow> (case agents of [] \<Rightarrow> [] | p # _ \<Rightarrow> CleanTerminalTitle (pi_terminalTitle p)))"

text \<open>What the best record contributes when it decides a state above idle.\<close>

definition from_pick :: "pick \<Rightarrow> NodeResult" where
  "from_pick p =
     (let base = \<lparr>nr_state = pk_state p, nr_message = [], nr_kind = [], nr_source = pk_source p, nr_slot = SlotNone, nr_agentName = [],
            nr_retained = \<lparr>rt_present = False, rt_state = RecDone, rt_message = []\<rparr>, nr_reportKey = []\<rparr>
      in case pk_best p of
           None \<Rightarrow> base
         | Some (pane, r) \<Rightarrow>
             if pk_state p \<noteq> NodeIdle then
               base\<lparr>nr_message := text_of r,
                    nr_kind := (if pk_state p = NeedsYou then RecordKindName (ri_kind r) else []),
                    nr_reportKey := (if pk_state p = DoneUnseen \<or> pk_state p = NodeError then ReportKey pane r else [])\<rparr>
             else base)"

definition with_bell :: "bool \<Rightarrow> NodeResult \<Rightarrow> NodeResult" where
  "with_bell bell b =
     (if nr_state b = NodeIdle \<and> bell then b\<lparr>nr_state := DoneUnseen, nr_message := wlit ''bell'', nr_kind := [], nr_source := ''bell''\<rparr> else b)"

definition with_kept :: "bool \<Rightarrow> PaneInput list \<Rightarrow> NodeResult \<Rightarrow> NodeResult" where
  "with_kept keepAfterSeen panes b =
     (if keepAfterSeen \<and> (nr_state b = NodeIdle \<or> nr_state b = NodeRunning) then
        (case keep_all panes of
           None \<Rightarrow> b
         | Some (pane, k) \<Rightarrow> b\<lparr>nr_retained := \<lparr>rt_present = True, rt_state = ri_state k, rt_message = text_of k\<rparr>, nr_reportKey := ReportKey pane k\<rparr>)
      else b)"

definition any_records :: "PaneInput list \<Rightarrow> bool" where
  "any_records panes \<longleftrightarrow> list_ex (\<lambda>p. pi_records p \<noteq> []) panes"

definition Derive :: "PaneInput list \<Rightarrow> bool \<Rightarrow> bool \<Rightarrow> NodeResult" where
  "Derive panes bellIndicator keepAfterSeen =
     (let b = with_kept keepAfterSeen panes (with_bell bellIndicator (from_pick (pick_all panes)))
      in b\<lparr>nr_slot := slot_of (nr_state b) (any_records panes), nr_agentName := (if any_records panes then agent_name panes else [])\<rparr>)"

text \<open>Whether a report arrived since a preview's baseline; a pane's highest revision by its id.\<close>

definition HasNewReport :: "(64 word \<times> 64 word) list \<Rightarrow> (64 word \<times> 64 word) list \<Rightarrow> bool" where
  "HasNewReport baseline current \<longleftrightarrow>
     list_ex (\<lambda>(pane, revision). revision > (case map_of baseline pane of None \<Rightarrow> 0 | Some r \<Rightarrow> r)) current"

subsection \<open>First greatest element\<close>

definition take_greater :: "('a \<Rightarrow> nat) \<Rightarrow> 'a \<Rightarrow> 'a option \<Rightarrow> 'a option" where
  "take_greater f x b = (case b of None \<Rightarrow> Some x | Some y \<Rightarrow> if f x > f y then Some x else b)"

definition argmax :: "('a \<Rightarrow> nat) \<Rightarrow> 'a list \<Rightarrow> 'a option" where
  "argmax f xs = fold (take_greater f) xs None"

lemma argmax_Nil [simp]: "argmax f [] = None"
  by (simp add: argmax_def)

lemma argmax_snoc: "argmax f (xs @ [x]) = take_greater f x (argmax f xs)"
  by (simp add: argmax_def)

lemma argmax_greatest: "argmax f xs = Some x \<Longrightarrow> x \<in> set xs \<and> (\<forall>y \<in> set xs. f y \<le> f x)"
proof (induction xs arbitrary: x rule: rev_induct)
  case (snoc y ys)
  show ?case
  proof (cases "argmax f ys")
    case None
    then have "ys = []" by (cases ys rule: rev_cases) (auto simp: argmax_snoc take_greater_def split: option.splits if_splits)
    with snoc.prems show ?thesis by (simp add: argmax_def take_greater_def)
  next
    case (Some z)
    from snoc.IH [OF Some] snoc.prems Some show ?thesis
      by (auto simp: argmax_snoc take_greater_def split: if_splits)
  qed
qed simp

lemma argmax_None: "argmax f xs = None \<longleftrightarrow> xs = []"
  by (cases xs rule: rev_cases) (auto simp: argmax_snoc take_greater_def split: option.splits)

lemma argmax_filter: "argmax f xs = Some x \<Longrightarrow> P x \<Longrightarrow> argmax f (filter P xs) = Some x"
proof (induction xs arbitrary: x rule: rev_induct)
  case (snoc y ys)
  show ?case
  proof (cases "argmax f ys")
    case None
    then have "ys = []" by (simp add: argmax_None)
    with snoc.prems show ?thesis by (simp add: argmax_def take_greater_def)
  next
    case (Some z)
    show ?thesis
    proof (cases "f y > f z")
      case True
      then have x: "x = y" using snoc.prems Some by (simp add: argmax_snoc take_greater_def)
      have "\<forall>w \<in> set (filter P ys). f w < f y" using argmax_greatest [OF Some] True by auto
      then have "argmax f (filter P ys @ [y]) = Some y"
        using argmax_greatest [of f "filter P ys"] by (cases "argmax f (filter P ys)") (auto simp: argmax_snoc take_greater_def)
      with x snoc.prems show ?thesis by simp
    next
      case False
      then have "x = z" using snoc.prems Some by (simp add: argmax_snoc take_greater_def)
      then have "argmax f (filter P ys) = Some x" using snoc.IH Some snoc.prems by simp
      then show ?thesis using False \<open>x = z\<close> by (simp add: argmax_snoc take_greater_def)
    qed
  qed
qed simp

lemma argmax_cong: "\<forall>x \<in> set xs. \<forall>y \<in> set xs. f x < f y \<longleftrightarrow> g x < g y \<Longrightarrow> argmax f xs = argmax g xs"
proof (induction xs rule: rev_induct)
  case (snoc y ys)
  then have "argmax f ys = argmax g ys" by simp
  moreover have "z \<in> set ys" if "argmax g ys = Some z" for z using argmax_greatest [OF that] by simp
  ultimately show ?case using snoc.prems by (auto simp: argmax_snoc take_greater_def split: option.splits)
qed simp

lemma argmax_map: "argmax f (map g xs) = map_option g (argmax (f \<circ> g) xs)"
  by (induction xs rule: rev_induct) (auto simp: argmax_snoc take_greater_def split: option.splits)

subsection \<open>The loops of Derive as greatest elements\<close>

type_synonym candidate = "NodeState \<times> (PaneInput \<times> RecordInput) option"

definition candidates :: "PaneInput \<Rightarrow> candidate list" where
  "candidates pane =
     (if pi_records pane \<noteq> [] then map (\<lambda>r. (FromRecord r, Some (pane, r))) (pi_records pane)
      else [(if pi_commandRunning pane then NodeRunning else NodeIdle, None)])"

definition all_candidates :: "PaneInput list \<Rightarrow> candidate list" where
  "all_candidates panes = concat (map candidates panes)"

text \<open>Root records above the others, then by revision; the state above everything.\<close>

definition tie_key :: "RecordInput \<Rightarrow> nat" where
  "tie_key r = (if ri_isRoot r then 2 ^ 64 else 0) + unat (ri_revision r)"

definition cand_key :: "candidate \<Rightarrow> nat" where
  "cand_key c = Rank (fst c) * 2 ^ 66 + (case snd c of None \<Rightarrow> 0 | Some (_, r) \<Rightarrow> Suc (tie_key r))"

definition pick_of :: "candidate \<Rightarrow> pick" where
  "pick_of c = \<lparr>pk_have = True, pk_state = fst c,
     pk_source = (if snd c \<noteq> None then ''osc7501'' else if fst c = NodeRunning then ''osc133'' else ''none''), pk_best = snd c\<rparr>"

lemma revision_bound: "unat (ri_revision r) < 2 ^ 64"
  using unsigned_less [of "ri_revision r", where ?'a = nat] by simp

lemma tie_key_bound: "tie_key r < 2 ^ 65"
  using revision_bound [of r] by (simp add: tie_key_def)

lemma tie_better_key: "tie_better r b \<longleftrightarrow> tie_key r > tie_key b"
  using revision_bound [of r] revision_bound [of b]
  by (auto simp: tie_better_def tie_key_def word_less_nat_alt)

definition keep_key :: "PaneInput \<times> RecordInput \<Rightarrow> nat" where
  "keep_key c = (if ri_state (snd c) = RecError then 2 ^ 66 else 0) + tie_key (snd c)"

definition keepable :: "PaneInput \<times> RecordInput \<Rightarrow> bool" where
  "keepable c \<longleftrightarrow> ri_seen (snd c) \<and> (ri_state (snd c) = RecDone \<or> ri_state (snd c) = RecError)"

definition all_records :: "PaneInput list \<Rightarrow> (PaneInput \<times> RecordInput) list" where
  "all_records panes = concat (map (\<lambda>p. map (Pair p) (pi_records p)) panes)"

lemma keep_all_argmax: "keep_all panes = argmax keep_key (filter keepable (all_records panes))"
proof -
  have step: "keep_record pane r k = (if keepable (pane, r) then take_greater keep_key (pane, r) k else k)" 
    if "\<forall>c \<in> set_option k. keepable c" for pane r k
  proof (cases k)
    case (Some c)
    then show ?thesis using that tie_key_bound [of r] tie_key_bound [of "snd c"]
      by (cases c) (auto simp: keep_record_def keepable_def take_greater_def keep_key_def tie_better_key)
  qed (auto simp: keep_record_def keepable_def take_greater_def)
  have inner: "fold (keep_record pane) rs (argmax keep_key (filter keepable cs)) = argmax keep_key (filter keepable (cs @ map (Pair pane) rs))" for pane rs cs
  proof (induction rs arbitrary: cs)
    case (Cons r rs)
    have "\<forall>c \<in> set_option (argmax keep_key (filter keepable cs)). keepable c" using argmax_greatest [of keep_key "filter keepable cs"] by (cases "argmax keep_key (filter keepable cs)") auto
    from step [OF this, of pane r] have "keep_record pane r (argmax keep_key (filter keepable cs)) = argmax keep_key (filter keepable (cs @ [(pane, r)]))"
      by (simp add: argmax_snoc)
    with Cons [of "cs @ [(pane, r)]"] show ?case by simp
  qed simp
  have "fold (\<lambda>pane. fold (keep_record pane) (pi_records pane)) panes (argmax keep_key (filter keepable cs)) = argmax keep_key (filter keepable (cs @ all_records panes))" for cs
  proof (induction panes arbitrary: cs)
    case (Cons p panes)
    from Cons [of "cs @ map (Pair p) (pi_records p)"] show ?case by (simp add: inner all_records_def)
  qed (simp add: all_records_def)
  from this [of "[]"] show ?thesis by (simp add: keep_all_def)
qed

definition pick_repr :: "candidate option \<Rightarrow> pick" where
  "pick_repr k = (case k of None \<Rightarrow> pick_start | Some c \<Rightarrow> pick_of c)"

lemma Rank_inj [simp]: "Rank s = Rank t \<longleftrightarrow> s = t"
  by (cases s; cases t) (simp_all add: Rank_def)

lemma scaled_less: "a < N \<Longrightarrow> b < N \<Longrightarrow> m * N + a < n * N + b \<longleftrightarrow> m < n \<or> m = n \<and> a < b" for a b m n N :: nat
proof -
  assume ab: "a < N" "b < N"
  have up: "m * N + a < n * N + b" if "m < n" "a < N" for m n a b
  proof -
    have "m * N + a < (m + 1) * N" using that by simp
    also have "\<dots> \<le> n * N" using that by (intro mult_le_mono1) simp
    finally show ?thesis by simp
  qed
  consider "m < n" | "m = n" | "n < m" by linarith
  then show ?thesis using up [of m n a b] up [of n m b a] ab by cases auto
qed

definition cand_tie :: "candidate \<Rightarrow> nat" where
  "cand_tie c = (case snd c of None \<Rightarrow> 0 | Some (_, r) \<Rightarrow> Suc (tie_key r))"

lemma cand_key_less: "cand_key c < cand_key d \<longleftrightarrow> Rank (fst c) < Rank (fst d) \<or> fst c = fst d \<and> cand_tie c < cand_tie d"
proof -
  have "cand_tie c < 2 ^ 66" for c
  proof (cases "snd c")
    case (Some p)
    then show ?thesis using tie_key_bound [of "snd p"] by (cases p) (simp add: cand_tie_def)
  qed (simp add: cand_tie_def)
  from scaled_less [OF this this, of "Rank (fst c)" c "Rank (fst d)" d] show ?thesis by (simp add: cand_key_def cand_tie_def)
qed

lemma pick_record_step: "pick_record pane r (pick_repr k) = pick_repr (take_greater cand_key (FromRecord r, Some (pane, r)) k)"
proof (cases k)
  case (Some c)
  then show ?thesis
    by (cases "snd c") (auto simp: pick_repr_def pick_record_def take_greater_def cand_key_less cand_tie_def pick_of_def tie_better_key Let_def)
qed (simp add: pick_repr_def pick_record_def take_greater_def pick_start_def pick_of_def)

lemma pick_shell_step:
  assumes "pi_records pane = []"
  shows "pick_pane pane (pick_repr k) = pick_repr (take_greater cand_key (if pi_commandRunning pane then NodeRunning else NodeIdle, None) k)"
proof (cases k)
  case (Some c)
  then show ?thesis using assms
    by (auto simp: pick_repr_def pick_pane_def take_greater_def cand_key_less cand_tie_def pick_of_def Let_def)
qed (use assms in \<open>simp add: pick_repr_def pick_pane_def take_greater_def pick_start_def pick_of_def\<close>)

lemma pick_pane_argmax: "pick_pane pane (pick_repr (argmax cand_key cs)) = pick_repr (argmax cand_key (cs @ candidates pane))"
proof (cases "pi_records pane = []")
  case True
  then show ?thesis by (simp add: pick_shell_step candidates_def argmax_snoc)
next
  case False
  have "fold (pick_record pane) rs (pick_repr (argmax cand_key cs)) = pick_repr (argmax cand_key (cs @ map (\<lambda>r. (FromRecord r, Some (pane, r))) rs))" for rs
  proof (induction rs arbitrary: cs)
    case (Cons r rs)
    from Cons [of "cs @ [(FromRecord r, Some (pane, r))]"] show ?case by (simp add: pick_record_step argmax_snoc)
  qed simp
  with False show ?thesis by (simp add: pick_pane_def candidates_def)
qed

lemma pick_all_argmax: "pick_all panes = pick_repr (argmax cand_key (all_candidates panes))"
proof -
  have "fold pick_pane panes (pick_repr (argmax cand_key cs)) = pick_repr (argmax cand_key (cs @ all_candidates panes))" for cs
    by (induction panes arbitrary: cs) (simp_all add: pick_pane_argmax all_candidates_def)
  from this [of "[]"] show ?thesis by (simp add: pick_all_def pick_repr_def)
qed

subsection \<open>What the row shows\<close>

definition pane_states :: "PaneInput list \<Rightarrow> NodeState set" where
  "pane_states panes = fst ` set (all_candidates panes)"

definition strongest :: "NodeState set \<Rightarrow> NodeState \<Rightarrow> bool" where
  "strongest S s \<longleftrightarrow> s \<in> S \<and> (\<forall>t \<in> S. Rank t \<le> Rank s)"

definition rung :: "bool \<Rightarrow> NodeState \<Rightarrow> NodeState" where
  "rung bell s = (if s = NodeIdle \<and> bell then DoneUnseen else s)"

lemma candidates_nonempty: "candidates p \<noteq> []"
  by (simp add: candidates_def)

lemma best_candidate:
  assumes "panes \<noteq> []"
  obtains c where "argmax cand_key (all_candidates panes) = Some c" "pick_all panes = pick_of c" "c \<in> set (all_candidates panes)"
    "\<forall>d \<in> set (all_candidates panes). cand_key d \<le> cand_key c"
proof -
  have "all_candidates panes \<noteq> []" using assms candidates_nonempty by (cases panes) (auto simp: all_candidates_def)
  then obtain c where c: "argmax cand_key (all_candidates panes) = Some c" by (metis argmax_None not_None_eq)
  from argmax_greatest [OF c] c show ?thesis by (intro that [of c]) (simp_all add: pick_all_argmax pick_repr_def)
qed

lemma with_kept_frame [simp]:
  "nr_state (with_kept keep panes b) = nr_state b" "nr_message (with_kept keep panes b) = nr_message b" "nr_kind (with_kept keep panes b) = nr_kind b"
  "nr_source (with_kept keep panes b) = nr_source b"
  by (cases "keep_all panes"; auto simp: with_kept_def)+

lemma from_pick_state [simp]: "nr_state (from_pick p) = pk_state p"
  by (cases "pk_best p") (auto simp: from_pick_def Let_def)

lemma Derive_state: "nr_state (Derive panes bell keep) = rung bell (pk_state (pick_all panes))"
  by (simp add: Derive_def Let_def) (simp add: with_bell_def rung_def)

lemma best_state:
  assumes "panes \<noteq> []"
  shows "strongest (pane_states panes) (pk_state (pick_all panes))"
proof -
  obtain c where c: "pick_all panes = pick_of c" "c \<in> set (all_candidates panes)" "\<forall>d \<in> set (all_candidates panes). cand_key d \<le> cand_key c"
    using best_candidate [OF assms] by metis
  have "Rank (fst d) \<le> Rank (fst c)" if "d \<in> set (all_candidates panes)" for d
    using c(3) that cand_key_less [of c d] by (meson not_le)
  with c show ?thesis by (auto simp: strongest_def pane_states_def pick_of_def)
qed

lemma strongest_unique: "strongest S s \<Longrightarrow> strongest S t \<Longrightarrow> s = t"
  unfolding strongest_def by (meson Rank_inj order_antisym)

lemma FromRecord_range: "FromRecord r \<noteq> NodeRunning"
  by (simp add: FromRecord_def split: RecordState.splits)

text \<open>The record that decides a state above running.\<close>

definition decides :: "PaneInput list \<Rightarrow> NodeState \<Rightarrow> PaneInput \<Rightarrow> RecordInput \<Rightarrow> bool" where
  "decides panes s pane r \<longleftrightarrow> pane \<in> set panes \<and> r \<in> set (pi_records pane) \<and> FromRecord r = s \<and>
     (\<forall>p \<in> set panes. \<forall>q \<in> set (pi_records p). FromRecord q = s \<longrightarrow> \<not> tie_better q r)"

lemma record_candidate: "p \<in> set panes \<Longrightarrow> q \<in> set (pi_records p) \<Longrightarrow> (FromRecord q, Some (p, q)) \<in> set (all_candidates panes)"
  by (auto simp: all_candidates_def candidates_def)

lemma best_record:
  assumes "panes \<noteq> []" and "pk_state (pick_all panes) \<notin> {NodeIdle, NodeRunning}"
  obtains pane r where "argmax cand_key (all_candidates panes) = Some (FromRecord r, Some (pane, r))"
    "pick_all panes = pick_of (FromRecord r, Some (pane, r))" "decides panes (pk_state (pick_all panes)) pane r"
proof -
  obtain c where c: "argmax cand_key (all_candidates panes) = Some c" "pick_all panes = pick_of c" "c \<in> set (all_candidates panes)"
    "\<forall>d \<in> set (all_candidates panes). cand_key d \<le> cand_key c"
    using best_candidate [OF assms(1)] by metis
  have s: "fst c \<notin> {NodeIdle, NodeRunning}" using assms(2) c(2) by (simp add: pick_of_def)
  then obtain pane r where r: "c = (FromRecord r, Some (pane, r))" "pane \<in> set panes" "r \<in> set (pi_records pane)"
    using c(3) by (auto simp: all_candidates_def candidates_def split: if_splits)
  have "\<not> tie_better q r" if "p \<in> set panes" "q \<in> set (pi_records p)" "FromRecord q = FromRecord r" for p q
    using c(4) record_candidate [OF that(1,2)] that(3) r(1) cand_key_less [of c "(FromRecord q, Some (p, q))"]
    by (auto simp: cand_tie_def tie_better_key not_less)
  then show ?thesis using r c by (intro that [of r pane]) (auto simp: decides_def pick_of_def)
qed

text \<open>
  C13. A row shows the strongest state of its panes. For a tab with panes, the state is the strongest
  of what the panes report (a pane's status records if it has any, else whether a shell command
  runs), raised from idle to done by the bell; so it does not depend on the order of the panes. When
  a status record decides it, the message, the kind and the key of the report come from a record in
  that state which no other such record beats (root records first, then the newest).
\<close>

theorem Derive_strongest:
  assumes "panes \<noteq> []"
  shows "\<exists>s. strongest (pane_states panes) s \<and> nr_state (Derive panes bell keep) = rung bell s \<and>
    (s \<notin> {NodeIdle, NodeRunning} \<longrightarrow>
      (\<exists>pane r. decides panes s pane r \<and> nr_message (Derive panes bell keep) = text_of r \<and>
        nr_kind (Derive panes bell keep) = (if s = NeedsYou then RecordKindName (ri_kind r) else []) \<and>
        nr_reportKey (Derive panes bell keep) = (if s = DoneUnseen \<or> s = NodeError then ReportKey pane r else [])))"
proof (rule exI [of _ "pk_state (pick_all panes)"], intro conjI impI)
  let ?s = "pk_state (pick_all panes)"
  show "strongest (pane_states panes) ?s" by (rule best_state [OF assms])
  show "nr_state (Derive panes bell keep) = rung bell ?s" by (rule Derive_state)
  assume s: "?s \<notin> {NodeIdle, NodeRunning}"
  obtain pane r where r: "pick_all panes = pick_of (FromRecord r, Some (pane, r))" "decides panes ?s pane r"
    using best_record [OF assms s] by metis
  have f: "?s = FromRecord r" using r(1) by (simp add: pick_of_def)
  have "nr_message (Derive panes bell keep) = text_of r" "nr_kind (Derive panes bell keep) = (if ?s = NeedsYou then RecordKindName (ri_kind r) else [])"
    "nr_reportKey (Derive panes bell keep) = (if ?s = DoneUnseen \<or> ?s = NodeError then ReportKey pane r else [])"
    using s unfolding Derive_def from_pick_def with_bell_def with_kept_def Let_def f r(1) by (simp_all add: pick_of_def)
  with r(2) show "\<exists>pane r. decides panes ?s pane r \<and> nr_message (Derive panes bell keep) = text_of r \<and>
        nr_kind (Derive panes bell keep) = (if ?s = NeedsYou then RecordKindName (ri_kind r) else []) \<and>
        nr_reportKey (Derive panes bell keep) = (if ?s = DoneUnseen \<or> ?s = NodeError then ReportKey pane r else [])" by blast
qed

text \<open>Two panes: a blocked agent beats a running shell command.\<close>

definition sample_record :: "RecordState \<Rightarrow> 64 word \<Rightarrow> string \<Rightarrow> RecordInput" where
  "sample_record s n m = \<lparr>ri_isRoot = True, ri_id = [], ri_state = s, ri_kind = KindQuestion, ri_msg = wlit m, ri_title = [], ri_revision = n, ri_seen = False\<rparr>"

definition sample_pane :: "RecordInput list \<Rightarrow> bool \<Rightarrow> PaneInput" where
  "sample_pane rs b = \<lparr>pi_records = rs, pi_commandRunning = b, pi_paneId = 7, pi_terminalTitle = wlit ''* claude''\<rparr>"

theorem Derive_strongest_witness:
  "(\<exists>s. strongest (pane_states [sample_pane [] True, sample_pane [sample_record RecBlocked 3 ''ok?''] False]) s \<and> s = NeedsYou) \<and>
   nr_message (Derive [sample_pane [] True, sample_pane [sample_record RecBlocked 3 ''ok?''] False] True True) = wlit ''ok?''"
proof -
  let ?ps = "[sample_pane [] True, sample_pane [sample_record RecBlocked 3 ''ok?''] False]"
  have n: "nr_state (Derive ?ps True True) = NeedsYou" by code_simp
  obtain s where s: "strongest (pane_states ?ps) s" "nr_state (Derive ?ps True True) = rung True s"
    using Derive_strongest [of ?ps True True] by auto
  then have "s = NeedsYou" using n by (auto simp: rung_def split: if_splits)
  with s(1) show ?thesis by (intro conjI) (blast, code_simp)
qed

subsection \<open>Acknowledging\<close>

definition acknowledge :: "PaneInput list \<Rightarrow> PaneInput list" where
  "acknowledge panes = map (\<lambda>p. p\<lparr>pi_records := map (\<lambda>r. r\<lparr>ri_seen := True\<rparr>) (pi_records p)\<rparr>) panes"

definition mark_seen :: "PaneInput \<times> RecordInput \<Rightarrow> PaneInput \<times> RecordInput" where
  "mark_seen c = ((fst c)\<lparr>pi_records := map (\<lambda>r. r\<lparr>ri_seen := True\<rparr>) (pi_records (fst c))\<rparr>, (snd c)\<lparr>ri_seen := True\<rparr>)"

definition finished :: "RecordInput \<Rightarrow> bool" where
  "finished r \<longleftrightarrow> ri_state r = RecDone \<or> ri_state r = RecError"

lemma acknowledged_records: "all_records (acknowledge panes) = map mark_seen (all_records panes)"
  by (induction panes) (simp_all add: all_records_def acknowledge_def mark_seen_def comp_def)

lemma acknowledged_kept: "keep_all (acknowledge panes) = map_option mark_seen (argmax keep_key (filter (finished \<circ> snd) (all_records panes)))"
proof -
  have k: "keepable \<circ> mark_seen = finished \<circ> snd" by (auto simp: keepable_def mark_seen_def finished_def)
  have f: "keep_key \<circ> mark_seen = keep_key" by (auto simp: keep_key_def mark_seen_def tie_key_def)
  show ?thesis unfolding keep_all_argmax acknowledged_records filter_map k argmax_map f ..
qed

lemma record_candidates:
  "filter (\<lambda>c. fst c \<in> {DoneUnseen, NodeError}) (all_candidates panes) =
   map (\<lambda>c. (FromRecord (snd c), Some c)) (filter (\<lambda>c. FromRecord (snd c) \<in> {DoneUnseen, NodeError}) (all_records panes))"
proof -
  have "filter (\<lambda>c. fst c \<in> {DoneUnseen, NodeError}) (candidates p) =
     map (\<lambda>c. (FromRecord (snd c), Some c)) (filter (\<lambda>c. FromRecord (snd c) \<in> {DoneUnseen, NodeError}) (map (Pair p) (pi_records p)))" for p
    by (auto simp: candidates_def filter_map comp_def)
  then show ?thesis by (induction panes) (simp_all add: all_candidates_def all_records_def)
qed

lemma unseen_finished:
  assumes "\<forall>p \<in> set panes. \<forall>r \<in> set (pi_records p). \<not> ri_seen r" and "c \<in> set (all_records panes)"
  shows "FromRecord (snd c) \<in> {DoneUnseen, NodeError} \<longleftrightarrow> finished (snd c)" "ri_state (snd c) = RecError \<longleftrightarrow> FromRecord (snd c) = NodeError"
proof -
  have "\<not> ri_seen (snd c)" using assms by (auto simp: all_records_def)
  then show "FromRecord (snd c) \<in> {DoneUnseen, NodeError} \<longleftrightarrow> finished (snd c)" "ri_state (snd c) = RecError \<longleftrightarrow> FromRecord (snd c) = NodeError"
    by (cases "ri_state (snd c)"; simp add: FromRecord_def finished_def)+
qed

lemma kept_after:
  assumes ne: "panes \<noteq> []" and unseen: "\<forall>p \<in> set panes. \<forall>r \<in> set (pi_records p). \<not> ri_seen r"
    and state: "pk_state (pick_all panes) \<in> {DoneUnseen, NodeError}"
    and best: "argmax cand_key (all_candidates panes) = Some (FromRecord r, Some (pane, r))" "FromRecord r = pk_state (pick_all panes)"
  shows "keep_all (acknowledge panes) = Some (mark_seen (pane, r))"
proof -
  let ?g = "\<lambda>c. (FromRecord (snd c), Some c)" and ?rs = "filter (finished \<circ> snd) (all_records panes)"
  have f: "filter (\<lambda>c. FromRecord (snd c) \<in> {DoneUnseen, NodeError}) (all_records panes) = ?rs"
    using unseen_finished(1) [OF unseen] by (intro filter_cong) auto
  have "argmax cand_key (filter (\<lambda>c. fst c \<in> {DoneUnseen, NodeError}) (all_candidates panes)) = Some (FromRecord r, Some (pane, r))"
    using best state by (intro argmax_filter) auto
  then have "map_option ?g (argmax (cand_key \<circ> ?g) ?rs) = Some (FromRecord r, Some (pane, r))"
    unfolding record_candidates f argmax_map .
  then have "argmax (cand_key \<circ> ?g) ?rs = Some (pane, r)" by auto
  moreover have "argmax (cand_key \<circ> ?g) ?rs = argmax keep_key ?rs"
  proof (rule argmax_cong, intro ballI)
    fix c d assume cd: "c \<in> set ?rs" "d \<in> set ?rs"
    have e: "FromRecord (snd x) = (if ri_state (snd x) = RecError then NodeError else DoneUnseen)" if "x \<in> set ?rs" for x
      using unseen_finished [OF unseen, of x] that by auto
    show "(cand_key \<circ> ?g) c < (cand_key \<circ> ?g) d \<longleftrightarrow> keep_key c < keep_key d"
      using e [OF cd(1)] e [OF cd(2)] tie_key_bound [of "snd c"] tie_key_bound [of "snd d"]
      by (auto simp: cand_key_less cand_tie_def keep_key_def Rank_def split: prod.splits)
  qed
  ultimately show ?thesis by (simp add: acknowledged_kept)
qed

lemma acknowledged_states: "pk_state (pick_all (acknowledge panes)) \<notin> {DoneUnseen, NodeError}" if "panes \<noteq> []"
proof -
  have "acknowledge panes \<noteq> []" using that by (simp add: acknowledge_def)
  from best_state [OF this] have "pk_state (pick_all (acknowledge panes)) \<in> fst ` set (all_candidates (acknowledge panes))"
    by (simp add: strongest_def pane_states_def)
  then show ?thesis
    by (auto simp: all_candidates_def candidates_def acknowledge_def FromRecord_def split: if_splits RecordState.splits)
qed

text \<open>
  C14. Acknowledging keeps the report. When a tab whose records have not been seen yet shows that
  something is done or failed, marking everything as seen (and the bell as cleared) never leaves it
  in that state; and if the row then rests, in keep mode it still shows the same report: the same
  message under the same report key, so that its age goes on counting.
\<close>

theorem acknowledge_keeps_report:
  assumes ne: "panes \<noteq> []" and unseen: "\<forall>p \<in> set panes. \<forall>r \<in> set (pi_records p). \<not> ri_seen r"
    and state: "pk_state (pick_all panes) = DoneUnseen \<or> pk_state (pick_all panes) = NodeError"
  shows "nr_state (Derive (acknowledge panes) False True) \<notin> {DoneUnseen, NodeError} \<and>
    (nr_state (Derive (acknowledge panes) False True) \<in> {NodeIdle, NodeRunning} \<longrightarrow>
      rt_present (nr_retained (Derive (acknowledge panes) False True)) \<and>
      rt_message (nr_retained (Derive (acknowledge panes) False True)) = nr_message (Derive panes bell keep) \<and>
      nr_reportKey (Derive (acknowledge panes) False True) = nr_reportKey (Derive panes bell keep))"
proof -
  have s: "pk_state (pick_all panes) \<notin> {NodeIdle, NodeRunning}" using state by auto
  obtain pane r where r: "argmax cand_key (all_candidates panes) = Some (FromRecord r, Some (pane, r))" "pick_all panes = pick_of (FromRecord r, Some (pane, r))"
    using best_record [OF ne s] by metis
  then have f: "FromRecord r = pk_state (pick_all panes)" by (simp add: pick_of_def)
  have k: "keep_all (acknowledge panes) = Some (mark_seen (pane, r))" by (rule kept_after [OF ne unseen _ r(1) f]) (use state in auto)
  have before: "nr_message (Derive panes bell keep) = text_of r" "nr_reportKey (Derive panes bell keep) = ReportKey pane r"
    using state s unfolding Derive_def from_pick_def with_bell_def with_kept_def Let_def r(2) by (auto simp: pick_of_def)
  have after: "nr_state (Derive (acknowledge panes) False True) = pk_state (pick_all (acknowledge panes))" by (simp add: Derive_state rung_def)
  have "rt_present (nr_retained (Derive (acknowledge panes) False True)) \<and> rt_message (nr_retained (Derive (acknowledge panes) False True)) = text_of r \<and>
      nr_reportKey (Derive (acknowledge panes) False True) = ReportKey pane r"
    if "pk_state (pick_all (acknowledge panes)) \<in> {NodeIdle, NodeRunning}"
    using that k by (auto simp: Derive_def Let_def with_kept_def with_bell_def mark_seen_def text_of_def ReportKey_def)
  with before after acknowledged_states [OF ne] show ?thesis by auto
qed

theorem acknowledge_keeps_report_witness:
  "rt_message (nr_retained (Derive (acknowledge [sample_pane [sample_record RecDone 3 ''built''] True]) False True)) = wlit ''built'' \<and>
   nr_reportKey (Derive (acknowledge [sample_pane [sample_record RecDone 3 ''built''] True]) False True) =
     nr_reportKey (Derive [sample_pane [sample_record RecDone 3 ''built''] True] False False)"
proof -
  let ?ps = "[sample_pane [sample_record RecDone 3 ''built''] True]"
  have "\<forall>p \<in> set ?ps. \<forall>r \<in> set (pi_records p). \<not> ri_seen r" by code_simp
  moreover have "pk_state (pick_all ?ps) = DoneUnseen \<or> pk_state (pick_all ?ps) = NodeError" by code_simp
  moreover have "nr_state (Derive (acknowledge ?ps) False True) \<in> {NodeIdle, NodeRunning}" "nr_message (Derive ?ps False False) = wlit ''built''"
    by code_simp+
  ultimately show ?thesis using acknowledge_keeps_report [of ?ps False False] by simp
qed

end
