(* ===== verification/Axan_HoistRule.thy ===== *)
theory Axan_HoistRule
  imports Axan_NameMask Axan_SessionState
begin

unbundle bit_operations_syntax

text \<open>
  Which sessions the sidebar's hoisted group lists, \<^verbatim>\<open>inc/AxanHoistRule.h\<close>: the masks over the nine
  state names, the per-entry override with its canonical string, and the matching of a row. The
  interpretation \<open>hoist\<close> of \<open>name_mask\<close> gives the laws of the masks.

  Shown: the canonical string of an override is read back as the override, normalizing is
  idempotent, and a row is matched on the state and blocked kind that \<open>Derive\<close> gives it.
\<close>

definition hoistNames :: "wstring list" where
  "hoistNames = [wlit ''idle'', wlit ''working'', wlit ''blocked'', wlit ''done'', wlit ''error'', wlit ''running'',
     wlit ''permission'', wlit ''question'', wlit ''auth'']"

definition kNever :: wstring where "kNever = wlit ''never''"

definition HoistBit :: "wstring \<Rightarrow> 16 word" where
  "HoistBit name = MaskBit hoistNames name"

definition kAll :: "16 word" where "kAll = MaskAll hoistNames"

definition kDefault :: "16 word" where
  "kDefault = HoistBit (wlit ''blocked'') OR HoistBit (wlit ''error'') OR HoistBit (wlit ''done'')"

definition kAttention :: "16 word" where
  "kAttention = HoistBit (wlit ''blocked'') OR HoistBit (wlit ''permission'') OR HoistBit (wlit ''question'') OR
     HoistBit (wlit ''auth'') OR HoistBit (wlit ''error'') OR HoistBit (wlit ''done'')"

definition Has :: "16 word \<Rightarrow> wstring \<Rightarrow> bool" where
  "Has m name = (let b = HoistBit name in b \<noteq> 0 \<and> m AND b \<noteq> 0)"

datatype Mode = DefaultMode | Never | Custom

record Override =
  ov_mode :: Mode
  ov_mask :: "16 word"

definition Override_eq :: "Override \<Rightarrow> Override \<Rightarrow> bool" where
  "Override_eq a b \<longleftrightarrow> ov_mode a = ov_mode b \<and> (ov_mode a \<noteq> Custom \<or> ov_mask a = ov_mask b)"

definition FromMask :: "16 word \<Rightarrow> Override" where
  "FromMask m = (if m = 0 then \<lparr>ov_mode = Never, ov_mask = 0\<rparr> else \<lparr>ov_mode = Custom, ov_mask = m\<rparr>)"

fun split_commas :: "'a::len word list \<Rightarrow> 'a word list list" where
  "split_commas [] = [[]]"
| "split_commas (c # s) = (if c = 0x2C then [] # split_commas s else (case split_commas s of p # ps \<Rightarrow> (c # p) # ps | [] \<Rightarrow> [[c]]))"

definition Hoist_Parse :: "wstring \<Rightarrow> Override \<times> wstring list" where
  "Hoist_Parse canonical =
     (let s = TrimName canonical
      in if s = [] \<or> s = wlit ''default'' then (\<lparr>ov_mode = DefaultMode, ov_mask = 0\<rparr>, [])
         else if s = kNever then (\<lparr>ov_mode = Never, ov_mask = 0\<rparr>, [])
         else case MaskFromNames hoistNames (split_commas s) of (m, unknown) \<Rightarrow> (FromMask m, unknown))"

definition join_step :: "wstring \<Rightarrow> wstring \<Rightarrow> wstring" where
  "join_step n out = (if out \<noteq> [] then out @ [0x2C] else out) @ n"

definition Hoist_Format :: "Override \<Rightarrow> wstring" where
  "Hoist_Format ov =
     (case ov_mode ov of
        Never \<Rightarrow> kNever
      | Custom \<Rightarrow> if ov_mask ov = 0 then kNever else fold join_step (NamesFromMask hoistNames (ov_mask ov)) []
      | DefaultMode \<Rightarrow> [])"

definition Hoist_Normalize :: "wstring \<Rightarrow> wstring" where
  "Hoist_Normalize canonical = Hoist_Format (fst (Hoist_Parse canonical))"

definition is_kind_name :: "wstring \<Rightarrow> bool" where
  "is_kind_name kind \<longleftrightarrow> kind = wlit ''permission'' \<or> kind = wlit ''question'' \<or> kind = wlit ''auth''"

definition Matches :: "16 word \<Rightarrow> wstring \<Rightarrow> wstring \<Rightarrow> bool" where
  "Matches m slotKey kind =
     (if slotKey = [] then False
      else if slotKey = wlit ''blocked'' then
        (if Has m (wlit ''blocked'') then True else is_kind_name kind \<and> Has m kind)
      else if is_kind_name slotKey then False
      else Has m slotKey)"

definition Effective :: "Override \<Rightarrow> 16 word \<Rightarrow> 16 word" where
  "Effective entry global = (case ov_mode entry of Never \<Rightarrow> 0 | Custom \<Rightarrow> ov_mask entry | DefaultMode \<Rightarrow> global)"

definition IsHoisted :: "wstring \<Rightarrow> wstring \<Rightarrow> Override \<Rightarrow> 16 word \<Rightarrow> bool" where
  "IsHoisted slotKey kind entry global = Matches (Effective entry global) slotKey kind"

definition IsAttentionOnly :: "16 word \<Rightarrow> bool" where
  "IsAttentionOnly global \<longleftrightarrow> global AND NOT kAttention = 0"

definition kDisplayOrder :: "wstring list" where
  "kDisplayOrder = [wlit ''idle'', wlit ''working'', wlit ''blocked'', wlit ''permission'', wlit ''question'', wlit ''auth'',
     wlit ''done'', wlit ''error'', wlit ''running'']"

definition DisplayName :: "wstring \<Rightarrow> wstring" where
  "DisplayName name =
     (if name = wlit ''blocked'' then wlit ''needs you (any)''
      else if name = wlit ''permission'' then wlit ''needs permission''
      else if name = wlit ''question'' then wlit ''needs answer''
      else if name = wlit ''auth'' then wlit ''needs login''
      else name)"

definition describe_step :: "16 word \<Rightarrow> wstring \<Rightarrow> wstring \<Rightarrow> wstring" where
  "describe_step m n out =
     (if Has m n then (if out \<noteq> [] then out @ wlit '', '' else out) @ DisplayName n else out)"

definition Describe :: "16 word \<Rightarrow> wstring" where
  "Describe m = (let out = fold (describe_step m) kDisplayOrder [] in if out = [] then wlit ''nothing'' else out)"

definition With :: "16 word \<Rightarrow> wstring \<Rightarrow> bool \<Rightarrow> 16 word" where
  "With m name on = (let b = HoistBit name in if on then m OR b else m AND NOT b)"

subsection \<open>Masks\<close>

interpretation hoist: name_mask hoistNames "TYPE(16)"
  by unfold_locales (simp_all add: hoistNames_def TrimName_def is_name_space_def)

lemma HoistBit_bit: "bit (HoistBit n) k \<longleftrightarrow> k < length hoistNames \<and> hoistNames ! k = n"
  unfolding HoistBit_def by (rule hoist.MaskBit_bit)

lemma Has_iff: "Has m n \<longleftrightarrow> (\<exists>k < length hoistNames. hoistNames ! k = n \<and> bit m k)"
proof -
  have ex: "w \<noteq> 0 \<longleftrightarrow> (\<exists>k. bit w k)" for w :: "16 word" by (metis bit_0_eq bot_apply bot_bool_def bit_eqI)
  show ?thesis unfolding Has_def Let_def ex by (auto simp: bit_and_iff HoistBit_bit)
qed

lemma Has_or: "Has (m OR n) k \<longleftrightarrow> Has m k \<or> Has n k"
  by (auto simp: Has_iff bit_or_iff)

lemma Has_HoistBit: "Has (HoistBit n) k \<longleftrightarrow> k = n \<and> n \<in> set hoistNames"
  by (auto simp: Has_iff HoistBit_bit in_set_conv_nth)

lemma Has_kDefault: "Has kDefault n \<longleftrightarrow> n \<in> {wlit ''blocked'', wlit ''error'', wlit ''done''}"
  by (auto simp: kDefault_def Has_or Has_HoistBit hoistNames_def)

lemma With_Has: "Has (With m n on) k = (if k = n \<and> n \<in> set hoistNames then on else Has m k)"
proof -
  have "bit (With m n on) i = (if hoistNames ! i = n then on else bit m i)" if "i < length hoistNames" for i
    using that bit_imp_le_length [of m i] hoist.fits
    by (auto simp: With_def Let_def bit_or_iff bit_and_iff bit_not_iff HoistBit_bit)
  then show ?thesis unfolding Has_iff by (auto simp: in_set_conv_nth)
qed

subsection \<open>The canonical string\<close>

definition plain :: "wstring \<Rightarrow> bool" where
  "plain n \<longleftrightarrow> n \<noteq> [] \<and> list_all (\<lambda>c. \<not> is_name_space c \<and> c \<noteq> 0x2C) n"

lemma hoistNames_plain: "n \<in> set hoistNames \<Longrightarrow> plain n"
  by (auto simp: hoistNames_def plain_def is_name_space_def)

fun join_commas :: "wstring list \<Rightarrow> wstring" where
  "join_commas [] = []"
| "join_commas (n # ns) = (if ns = [] then n else n @ 0x2C # join_commas ns)"

lemma split_commas_nonempty: "split_commas s \<noteq> []"
  by (cases s) (auto split: list.splits)

lemma split_commas_plain: "list_all (\<lambda>c. c \<noteq> 0x2C) n \<Longrightarrow> split_commas n = [n]"
  by (induction n) auto

lemma split_commas_append: "list_all (\<lambda>c. c \<noteq> 0x2C) n \<Longrightarrow> split_commas (n @ 0x2C # s) = n # split_commas s"
  by (induction n) auto

lemma split_join: "ns \<noteq> [] \<Longrightarrow> list_all plain ns \<Longrightarrow> split_commas (join_commas ns) = ns"
proof (induction ns)
  case (Cons n ns)
  have "list_all (\<lambda>c. c \<noteq> 0x2C) n" using Cons.prems by (auto simp: plain_def list_all_iff)
  with Cons show ?case by (cases "ns = []") (simp_all add: split_commas_plain split_commas_append)
qed simp

lemma fold_join_step: "out \<noteq> [] \<Longrightarrow> list_all plain ns \<Longrightarrow> fold join_step ns out = (if ns = [] then out else out @ 0x2C # join_commas ns)"
proof (induction ns arbitrary: out)
  case (Cons n ns)
  then show ?case using Cons.IH [of "out @ 0x2C # n"] by (auto simp: join_step_def)
qed simp

lemma fold_join: "list_all plain ns \<Longrightarrow> fold join_step ns [] = join_commas ns"
  by (cases ns) (auto simp: join_step_def fold_join_step plain_def)

lemma TrimName_plain: "list_all (\<lambda>c. \<not> is_name_space c) s \<Longrightarrow> TrimName s = s"
proof -
  assume "list_all (\<lambda>c. \<not> is_name_space c) s"
  then have "list_all (\<lambda>c. \<not> is_name_space c) (rev s)" "dropWhile is_name_space s = s"
    by (auto simp: list_all_iff dropWhile_eq_self_iff)
  then show ?thesis by (cases "rev s") (auto simp: TrimName_def)
qed

lemma join_plain: "list_all plain ns \<Longrightarrow> list_all (\<lambda>c. \<not> is_name_space c) (join_commas ns)"
proof (induction ns)
  case (Cons n ns)
  have "list_all (\<lambda>c. \<not> is_name_space c) n" using Cons.prems by (simp add: plain_def list_all_iff)
  moreover have "\<not> is_name_space 0x2C" by (simp add: is_name_space_def)
  ultimately show ?case using Cons by simp
qed simp

lemma join_nonempty: "list_all plain ns \<Longrightarrow> ns \<noteq> [] \<Longrightarrow> join_commas ns \<noteq> []"
  by (cases ns) (auto simp: plain_def)

lemma reserved_words:
  "split_commas (wlit ''default'') = [wlit ''default'']" "wlit ''default'' \<notin> set hoistNames"
  "split_commas kNever = [kNever]" "kNever \<notin> set hoistNames"
  by code_simp+

lemma Parse_names:
  assumes "ns \<noteq> []" "set ns \<subseteq> set hoistNames"
  shows "Hoist_Parse (fold join_step ns []) = (FromMask (fst (MaskFromNames hoistNames ns)), [])"
proof -
  have plain: "list_all plain ns" using assms(2) hoistNames_plain by (auto simp: list_all_iff)
  define s where "s = join_commas ns"
  have split: "split_commas s = ns" using split_join [OF assms(1) plain] by (simp add: s_def)
  have "TrimName s = s" "s \<noteq> []" using join_plain [OF plain] join_nonempty [OF plain assms(1)] by (simp_all add: s_def TrimName_plain)
  moreover have "s \<noteq> wlit ''default''" "s \<noteq> kNever"
    using split assms(2) reserved_words by (auto simp del: wlit_simps)
  moreover have "snd (MaskFromNames hoistNames ns :: 16 word \<times> _) = []"
    unfolding hoist.unknown_names using assms(2) plain hoist.trimmed by (auto simp: filter_empty_conv list_all_iff)
  moreover have "fold join_step ns [] = s" using fold_join [OF plain] by (simp add: s_def)
  ultimately show ?thesis
    by (simp add: Hoist_Parse_def Let_def split split_beta prod_eq_iff del: wlit_simps)
qed

lemma within_kAll:
  assumes "m AND NOT kAll = 0"
  shows "m AND kAll = m"
proof (rule bit_word_eqI)
  fix k assume "k < LENGTH(16)"
  moreover have "\<not> bit (m AND NOT kAll) k" by (simp add: assms)
  ultimately show "bit (m AND kAll) k = bit m k" by (auto simp: bit_and_iff bit_not_iff)
qed

lemma Parse_Format_custom:
  assumes "m \<noteq> 0" "m AND NOT kAll = 0"
  shows "Hoist_Parse (Hoist_Format \<lparr>ov_mode = Custom, ov_mask = m\<rparr>) = (\<lparr>ov_mode = Custom, ov_mask = m\<rparr>, [])"
proof -
  note all = within_kAll [OF assms(2)]
  obtain k where "bit (m AND kAll) k" using assms(1) all by (metis bit_0_eq bot_apply bot_bool_def bit_eqI)
  then have "NamesFromMask hoistNames m \<noteq> []"
    using hoist.set_NamesFromMask [of "hoistNames ! k" m] unfolding kAll_def bit_and_iff hoist.MaskAll_bit by fastforce
  moreover have "set (NamesFromMask hoistNames m) \<subseteq> set hoistNames" using hoist.set_NamesFromMask [of _ m] by auto
  ultimately show ?thesis
    using Parse_names [of "NamesFromMask hoistNames m"] hoist.mask_roundtrip [of m] assms(1) all
    by (simp add: Hoist_Format_def FromMask_def kAll_def)
qed

lemma Parse_valid: "ov_mode (fst (Hoist_Parse s)) = Custom \<Longrightarrow> ov_mask (fst (Hoist_Parse s)) \<noteq> 0 \<and> ov_mask (fst (Hoist_Parse s)) AND NOT kAll = 0"
proof -
  have "fst (MaskFromNames hoistNames ns) AND NOT kAll = 0" for ns
    by (rule bit_word_eqI) (auto simp: bit_and_iff bit_not_iff kAll_def hoist.MaskAll_bit hoist.MaskFromNames_bit)
  then show "ov_mode (fst (Hoist_Parse s)) = Custom \<Longrightarrow> ?thesis"
    by (auto simp: Hoist_Parse_def Let_def FromMask_def split_beta split: if_splits)
qed

lemma Parse_Format:
  assumes "ov_mode ov = Custom \<Longrightarrow> ov_mask ov AND NOT kAll = 0"
  shows "Hoist_Parse (Hoist_Format ov) = (if ov_mode ov = Custom \<and> ov_mask ov \<noteq> 0 then ov else ov\<lparr>ov_mode := if ov_mode ov = DefaultMode then DefaultMode else Never, ov_mask := 0\<rparr>, [])"
proof (cases "ov_mode ov = Custom \<and> ov_mask ov \<noteq> 0")
  case True
  then obtain m where "ov = \<lparr>ov_mode = Custom, ov_mask = m\<rparr>" by (cases ov) auto
  then show ?thesis using True Parse_Format_custom [of m] assms by simp
next
  case False
  have "TrimName kNever = kNever" "TrimName [] = []" "kNever \<noteq> []" "kNever \<noteq> wlit ''default''" by code_simp+
  with False show ?thesis
    by (cases "ov_mode ov") (auto simp: Hoist_Format_def Hoist_Parse_def Let_def simp del: wlit_simps)
qed

text \<open>
  C35. The canonical string of a hoist override is read back as that override, without unknown names
  (an empty custom list is the override \<^verbatim>\<open>never\<close>), and normalizing any text a second time
  changes nothing.
\<close>

theorem hoist_roundtrip:
  assumes "ov_mode ov = Custom \<longrightarrow> ov_mask ov AND NOT kAll = 0"
  shows "Override_eq (fst (Hoist_Parse (Hoist_Format ov))) (if ov_mode ov = Custom then FromMask (ov_mask ov) else ov) \<and>
    snd (Hoist_Parse (Hoist_Format ov)) = [] \<and> Hoist_Normalize (Hoist_Normalize s) = Hoist_Normalize s"
proof -
  have "Hoist_Normalize (Hoist_Normalize s) = Hoist_Normalize s"
    using Parse_Format [of "fst (Hoist_Parse s)"] Parse_valid [of s]
    by (cases "ov_mode (fst (Hoist_Parse s))") (auto simp: Hoist_Normalize_def Hoist_Format_def)
  then show ?thesis using Parse_Format [of ov] assms
    by (cases "ov_mode ov") (auto simp: Override_eq_def FromMask_def)
qed

theorem hoist_roundtrip_witness:
  "ov_mask \<lparr>ov_mode = Custom, ov_mask = 0x14\<rparr> AND NOT kAll = 0 \<and>
   Hoist_Format \<lparr>ov_mode = Custom, ov_mask = 0x14\<rparr> = wlit ''blocked,error'' \<and>
   Override_eq (fst (Hoist_Parse (wlit ''blocked,error''))) \<lparr>ov_mode = Custom, ov_mask = 0x14\<rparr>"
proof -
  let ?ov = "\<lparr>ov_mode = Custom, ov_mask = 0x14\<rparr> :: Override"
  have f: "Hoist_Format ?ov = wlit ''blocked,error''" by code_simp
  have m: "ov_mask ?ov AND NOT kAll = 0" by (simp add: kAll_def MaskAll_def hoistNames_def push_bit_of_1)
  from hoist_roundtrip [of ?ov "[]"] m have "Override_eq (fst (Hoist_Parse (Hoist_Format ?ov))) ?ov" by (simp add: FromMask_def)
  then show ?thesis using m unfolding f by simp
qed

subsection \<open>Rows\<close>

lemma Derive_kind: "nr_state (Derive panes bell keep) = NeedsYou \<Longrightarrow> nr_kind (Derive panes bell keep) = [] \<or> is_kind_name (nr_kind (Derive panes bell keep))"
  by (auto simp: Derive_def with_kept_def with_bell_def from_pick_def Let_def RecordKindName_def is_kind_name_def
      split: if_splits option.splits prod.splits RecordKind.splits)

lemma Has_empty: "\<not> Has m []"
  by (auto simp: Has_iff hoistNames_def nth_Cons split: nat.splits)

lemma Derive_slot: "nr_slot (Derive panes bell keep) = slot_of (nr_state (Derive panes bell keep)) (any_records panes)"
  by (simp add: Derive_def Let_def)

text \<open>
  C36. A row of the sidebar is hoisted exactly when the list in force for its entry (its own, none, or
  the global one) names the state the row shows, or the row is blocked and the list names the kind
  of blocking; an idle row counts only when a program reported there. With the default list and no
  override these are the rows that need attention.
\<close>

theorem hoisted_rows:
  "(IsHoisted (SlotKey (nr_slot (Derive panes bell keep))) (nr_kind (Derive panes bell keep)) entry global \<longleftrightarrow>
    (let m = Effective entry global; d = Derive panes bell keep
     in case nr_state d of
          NeedsYou \<Rightarrow> Has m (wlit ''blocked'') \<or> Has m (nr_kind d)
        | NodeError \<Rightarrow> Has m (wlit ''error'')
        | DoneUnseen \<Rightarrow> Has m (wlit ''done'')
        | NodeWorking \<Rightarrow> Has m (wlit ''working'')
        | NodeRunning \<Rightarrow> Has m (wlit ''running'')
        | NodeIdle \<Rightarrow> any_records panes \<and> Has m (wlit ''idle''))) \<and>
   (IsHoisted (SlotKey (nr_slot (Derive panes bell keep))) (nr_kind (Derive panes bell keep))
      \<lparr>ov_mode = DefaultMode, ov_mask = 0\<rparr> kDefault \<longleftrightarrow> nr_state (Derive panes bell keep) \<in> {NeedsYou, NodeError, DoneUnseen})"
proof -
  have d: "Has kDefault (wlit ''blocked'')" "Has kDefault (wlit ''error'')" "Has kDefault (wlit ''done'')"
    "\<not> Has kDefault (wlit ''working'')" "\<not> Has kDefault (wlit ''running'')" "\<not> Has kDefault (wlit ''idle'')"
    by (simp_all add: Has_kDefault)
  have k: "\<not> is_kind_name (wlit ''error'')" "\<not> is_kind_name (wlit ''done'')" "\<not> is_kind_name (wlit ''working'')"
    "\<not> is_kind_name (wlit ''running'')" "\<not> is_kind_name (wlit ''idle'')"
    by (simp_all add: is_kind_name_def)
  show ?thesis using d k Derive_kind [of panes bell keep] Has_empty
    by (cases "nr_state (Derive panes bell keep)")
      (auto simp: IsHoisted_def Matches_def Derive_slot slot_of_def SlotKey_def Let_def Effective_def)
qed

end
