(* ===== verification/Axan_EntryTree.thy ===== *)
theory Axan_EntryTree
  imports Axan_Prelude
begin

text \<open>
  The structural rules of the startup-sessions tree, \<^verbatim>\<open>src/windows/src/inc/AxanEntryTreeOps.h\<close>.
  The tree is a flat ordered list of rows; a row names its parent by id (\<open>[]\<close> = root).

  Definitions follow the header function by function. A C++ hash map or hash set that is only
  looked up by key is a HOL map or set; \<^verbatim>\<open>m[k] = v\<close> is \<open>m(k \<mapsto> v)\<close> (the last write wins) and
  \<^verbatim>\<open>m.emplace(k, v)\<close> keeps an existing binding (the first write wins). Depths are \<open>int\<close>:
  \<open>Depths_bounds\<close> shows they stay below the number of rows, so \<^verbatim>\<open>int32_t\<close> cannot overflow on a
  list of fewer than \<open>2 ^ 31\<close> rows.

  The lemmas relate the forward passes to their meaning: \<open>Depths\<close> to the recurrence over the
  nearest earlier row with the parent's id, \<open>SubtreeMask\<close> to the reflexive transitive closure of
  the child relation, \<open>IsWellFormed\<close> to \<open>wfs\<close>, the order-insensitive statement that every parent
  is an earlier session row. On top of them: every edit the header describes keeps the tree well
  formed.
\<close>

subsection \<open>Rows, depths and subtrees\<close>

record node =
  n_id :: wstring
  n_parentId :: wstring
  n_separator :: bool

definition depth_step :: "(wstring \<rightharpoonup> int) \<Rightarrow> node \<Rightarrow> int" where
  "depth_step byId n =
     (if n_parentId n \<noteq> [] then (case byId (n_parentId n) of Some d \<Rightarrow> d + 1 | None \<Rightarrow> 0) else 0)"

fun depths_loop :: "(wstring \<rightharpoonup> int) \<Rightarrow> node list \<Rightarrow> int list" where
  "depths_loop byId [] = []"
| "depths_loop byId (n # ns) =
     (let d = depth_step byId n in d # depths_loop (byId(n_id n \<mapsto> d)) ns)"

definition Depths :: "node list \<Rightarrow> int list" where
  "Depths nodes = depths_loop Map.empty nodes"

fun mask_loop :: "wstring set \<Rightarrow> node list \<Rightarrow> bool list" where
  "mask_loop ids [] = []"
| "mask_loop ids (n # ns) =
     (if n_parentId n \<noteq> [] \<and> n_parentId n \<in> ids
      then True # mask_loop (insert (n_id n) ids) ns
      else False # mask_loop ids ns)"

definition SubtreeMask :: "node list \<Rightarrow> nat \<Rightarrow> bool list" where
  "SubtreeMask nodes root =
     (if root \<ge> length nodes then replicate (length nodes) False
      else replicate root False @ True # mask_loop {n_id (nodes ! root)} (drop (Suc root) nodes))"

definition SubtreeEnd :: "node list \<Rightarrow> nat \<Rightarrow> nat" where
  "SubtreeEnd nodes root =
     (let mask = SubtreeMask nodes root
      in foldl (\<lambda>last i. if mask ! i then i else last) root [root ..< length mask])"

subsection \<open>Siblings, indent and outdent\<close>

definition PrevSibling :: "node list \<Rightarrow> nat \<Rightarrow> nat option" where
  "PrevSibling nodes index =
     (if index \<ge> length nodes then None
      else find_down (\<lambda>i. n_parentId (nodes ! i) = n_parentId (nodes ! index)) index)"

definition NextSibling :: "node list \<Rightarrow> nat \<Rightarrow> nat option" where
  "NextSibling nodes index =
     (if index \<ge> length nodes then None
      else find_up (\<lambda>i. n_parentId (nodes ! i) = n_parentId (nodes ! index)) (Suc index) (length nodes))"

fun indent_loop :: "node list \<Rightarrow> int list \<Rightarrow> int \<Rightarrow> nat \<Rightarrow> wstring option" where
  "indent_loop nodes depths myDepth 0 = None"
| "indent_loop nodes depths myDepth (Suc i) =
     (if depths ! i = myDepth then
        (if n_separator (nodes ! i) then indent_loop nodes depths myDepth i
         else Some (n_id (nodes ! i)))
      else if depths ! i < myDepth then None
      else indent_loop nodes depths myDepth i)"

definition IndentParent :: "node list \<Rightarrow> nat \<Rightarrow> wstring option" where
  "IndentParent nodes index =
     (if index = 0 \<or> index \<ge> length nodes then None
      else let depths = Depths nodes in indent_loop nodes depths (depths ! index) index)"

definition OutdentParent :: "node list \<Rightarrow> nat \<Rightarrow> wstring option" where
  "OutdentParent nodes index =
     (if index \<ge> length nodes \<or> n_parentId (nodes ! index) = [] then None
      else case find (\<lambda>n. n_id n = n_parentId (nodes ! index)) nodes of
             Some n \<Rightarrow> Some (n_parentId n)
           | None \<Rightarrow> Some [])"

subsection \<open>Block moves\<close>

record block_move =
  bm_block :: "nat list"
  bm_insertAt :: nat

fun move_loop :: "bool list \<Rightarrow> bool list \<Rightarrow> nat \<Rightarrow> bool \<Rightarrow> nat list \<Rightarrow> nat \<Rightarrow> block_move \<Rightarrow> block_move" where
  "move_loop moved siblingTree sibling up [] restIndex move = move"
| "move_loop moved siblingTree sibling up (i # is) restIndex move =
     (if moved ! i then
        move_loop moved siblingTree sibling up is restIndex (move\<lparr>bm_block := bm_block move @ [i]\<rparr>)
      else
        (let move' =
           (if up \<and> i = sibling then move\<lparr>bm_insertAt := restIndex\<rparr>
            else if \<not> up \<and> siblingTree ! i then move\<lparr>bm_insertAt := restIndex + 1\<rparr>
            else move)
         in move_loop moved siblingTree sibling up is (Suc restIndex) move'))"

definition MoveAmongSiblings :: "node list \<Rightarrow> nat \<Rightarrow> bool \<Rightarrow> block_move option" where
  "MoveAmongSiblings nodes index up =
     (case (if up then PrevSibling nodes index else NextSibling nodes index) of
        None \<Rightarrow> None
      | Some sibling \<Rightarrow>
          Some (move_loop (SubtreeMask nodes index) (SubtreeMask nodes sibling) sibling up
                  [0 ..< length nodes] 0 \<lparr>bm_block = [], bm_insertAt = 0\<rparr>))"

definition DuplicateInsertIndex :: "node list \<Rightarrow> nat \<Rightarrow> nat" where
  "DuplicateInsertIndex nodes index =
     (if index \<ge> length nodes then length nodes else SubtreeEnd nodes index + 1)"

definition SelectionAfterDelete :: "node list \<Rightarrow> nat \<Rightarrow> wstring \<Rightarrow> nat option" where
  "SelectionAfterDelete after deletedIndex deletedParentId =
     (case find_up (\<lambda>i. n_parentId (after ! i) = deletedParentId) deletedIndex (length after) of
        Some i \<Rightarrow> Some i
      | None \<Rightarrow> if deletedIndex > 0 \<and> after \<noteq> [] then Some (min (deletedIndex - 1) (length after - 1))
                else None)"

subsection \<open>The fix-up after a drag\<close>

record drag_fixup =
  df_move :: block_move
  df_headParentId :: wstring

text \<open>One pass of the closure loop: \<open>(subtree, grew)\<close>.\<close>

fun closure_pass :: "node list \<Rightarrow> wstring set \<Rightarrow> bool \<Rightarrow> wstring set \<times> bool" where
  "closure_pass [] subtree grew = (subtree, grew)"
| "closure_pass (n # ns) subtree grew =
     (if n_parentId n \<noteq> [] \<and> n_parentId n \<in> subtree \<and> n_id n \<notin> subtree
      then closure_pass ns (insert (n_id n) subtree) True
      else closure_pass ns subtree grew)"

lemma closure_pass_bounds:
  "closure_pass ns S g = (S', g') \<Longrightarrow> S \<subseteq> S' \<and> S' \<subseteq> S \<union> n_id ` set ns"
  by (induction ns S g rule: closure_pass.induct) (auto split: if_splits)

lemma closure_pass_grew:
  assumes "closure_pass ns S False = (S', True)"
  shows "S \<subset> S'"
  using assms
proof (induction ns arbitrary: S)
  case (Cons n ns)
  show ?case
  proof (cases "n_parentId n \<noteq> [] \<and> n_parentId n \<in> S \<and> n_id n \<notin> S")
    case True
    with Cons.prems have "closure_pass ns (insert (n_id n) S) True = (S', True)" by simp
    from closure_pass_bounds [OF this] True show ?thesis by blast
  next
    case False
    with Cons show ?thesis by (auto split: if_splits)
  qed
qed simp

function closure_loop :: "node list \<Rightarrow> wstring set \<Rightarrow> wstring set" where
  "closure_loop after subtree =
     (case closure_pass after subtree False of
        (subtree', grew) \<Rightarrow> if grew then closure_loop after subtree' else subtree')"
  by pat_completeness auto
termination
proof (relation "measure (\<lambda>(after, subtree). card (n_id ` set after - subtree))", goal_cases)
  case prems: (2 after subtree S' grew)
  then have "closure_pass after subtree False = (S', True)" by simp
  then have "S' \<subseteq> subtree \<union> n_id ` set after" and "subtree \<subset> S'"
    using closure_pass_bounds closure_pass_grew by blast+
  then have "n_id ` set after - S' \<subset> n_id ` set after - subtree" by auto
  then show ?case by (auto intro!: psubset_card_mono)
qed simp

declare closure_loop.simps [simp del]

text \<open>
  The loop that splits the rows into the block and the rest. \<open>anchor\<close> is an index into \<open>rest\<close>.
\<close>

fun split_loop :: "node list \<Rightarrow> wstring set \<Rightarrow> nat \<Rightarrow> nat list \<Rightarrow> nat list \<Rightarrow> node list \<Rightarrow> nat option
    \<Rightarrow> nat list \<times> node list \<times> nat option" where
  "split_loop after subtree headIndex [] block rest anchor = (block, rest, anchor)"
| "split_loop after subtree headIndex (i # is) block rest anchor =
     (if n_id (after ! i) \<in> subtree then
        split_loop after subtree headIndex is (if i \<noteq> headIndex then block @ [i] else block) rest anchor
      else
        split_loop after subtree headIndex is block (rest @ [after ! i])
          (if i < headIndex then Some (length rest) else anchor))"

text \<open>
  The walk from the anchor to its ancestor at \<open>newDepth - 1\<close>: \<open>None\<close> is \<^verbatim>\<open>byId.at\<close> throwing
  \<^verbatim>\<open>std::out_of_range\<close> or the loop not returning. \<open>byId\<close> holds the first row of each id
  (\<^verbatim>\<open>emplace\<close>).
\<close>

definition first_index :: "node list \<Rightarrow> wstring \<Rightarrow> nat option" where
  "first_index rest i = find_up (\<lambda>k. n_id (rest ! k) = i) 0 (length rest)"

partial_function (option) walk_up :: "node list \<Rightarrow> int list \<Rightarrow> int \<Rightarrow> nat \<Rightarrow> nat option" where
  "walk_up rest depths target cur =
     (if depths ! cur > target then
        (case first_index rest (n_parentId (rest ! cur)) of
           None \<Rightarrow> None
         | Some p \<Rightarrow> walk_up rest depths target p)
      else Some cur)"

declare walk_up.simps [code]

definition newDepth_of :: "node list \<Rightarrow> int list \<Rightarrow> nat option \<Rightarrow> nat \<Rightarrow> int \<Rightarrow> int" where
  "newDepth_of rest depths anchor insertAt oldDepth =
     (let maxDepth = (case anchor of Some a \<Rightarrow> depths ! a + 1 | None \<Rightarrow> 0);
          below = (if insertAt < length rest then depths ! insertAt else 0);
          minDepth = min below maxDepth;
          newDepth = (if oldDepth < minDepth then minDepth
                      else if maxDepth < oldDepth then maxDepth else oldDepth)
      in (case anchor of
            Some a \<Rightarrow> if newDepth = maxDepth \<and> n_separator (rest ! a) then depths ! a else newDepth
          | None \<Rightarrow> newDepth))"

datatype drag_result = NoRow | Threw | Fix drag_fixup

definition NormalizeAfterDrag :: "node list \<Rightarrow> nat \<Rightarrow> int \<Rightarrow> drag_result" where
  "NormalizeAfterDrag after headIndex oldDepth =
     (if headIndex \<ge> length after then NoRow
      else
        let subtree = closure_loop after {n_id (after ! headIndex)};
            (block, rest, anchor) = split_loop after subtree headIndex [0 ..< length after] [headIndex] [] None;
            insertAt = (case anchor of Some a \<Rightarrow> a + 1 | None \<Rightarrow> 0);
            depths = Depths rest;
            newDepth = newDepth_of rest depths anchor insertAt oldDepth;
            move = \<lparr>bm_block = block, bm_insertAt = insertAt\<rparr>
        in if newDepth > 0 then
             (case anchor of
                None \<Rightarrow> Threw
              | Some a \<Rightarrow>
                  (case walk_up rest depths (newDepth - 1) a of
                     None \<Rightarrow> Threw
                   | Some cur \<Rightarrow> Fix \<lparr>df_move = move, df_headParentId = n_id (rest ! cur)\<rparr>))
           else Fix \<lparr>df_move = move, df_headParentId = []\<rparr>)"

subsection \<open>The structural invariant\<close>

fun wf_loop :: "(wstring \<rightharpoonup> bool) \<Rightarrow> node list \<Rightarrow> bool" where
  "wf_loop seen [] = True"
| "wf_loop seen (n # ns) =
     ((if n_parentId n \<noteq> [] then
         (case seen (n_parentId n) of None \<Rightarrow> False | Some sep \<Rightarrow> \<not> sep)
       else True)
      \<and> wf_loop (case seen (n_id n) of None \<Rightarrow> seen(n_id n \<mapsto> n_separator n) | Some _ \<Rightarrow> seen) ns)"

definition IsWellFormed :: "node list \<Rightarrow> bool" where
  "IsWellFormed nodes = wf_loop Map.empty nodes"

subsection \<open>Depths\<close>

lemma length_depths_loop [simp]: "length (depths_loop m ns) = length ns"
  by (induction ns arbitrary: m) (simp_all add: Let_def)

lemma length_Depths [simp]: "length (Depths ns) = length ns"
  by (simp add: Depths_def)

definition parentIx :: "node list \<Rightarrow> nat \<Rightarrow> nat option" where
  "parentIx ns i =
     (if n_parentId (ns ! i) = [] then None
      else find_down (\<lambda>j. n_id (ns ! j) = n_parentId (ns ! i)) i)"

definition depth_map :: "node list \<Rightarrow> nat \<Rightarrow> wstring \<rightharpoonup> int" where
  "depth_map ns i k = map_option ((!) (Depths ns)) (find_down (\<lambda>j. n_id (ns ! j) = k) i)"

lemma depths_loop_drop:
  "i \<le> length ns \<Longrightarrow> depths_loop (depth_map ns i) (drop i ns) = drop i (Depths ns)"
proof (induction i)
  case 0
  then show ?case by (simp add: depth_map_def [abs_def] Depths_def)
next
  case (Suc i)
  let ?n = "ns ! i" and ?D = "Depths ns"
  from Suc.prems have "drop i ns = ?n # drop (Suc i) ns" and "drop i ?D = ?D ! i # drop (Suc i) ?D"
    by (simp_all add: Cons_nth_drop_Suc)
  with Suc have d: "depth_step (depth_map ns i) ?n = ?D ! i"
    and r: "depths_loop ((depth_map ns i)(n_id ?n \<mapsto> ?D ! i)) (drop (Suc i) ns) = drop (Suc i) ?D"
    by (auto simp: Let_def)
  have "depth_map ns (Suc i) = (depth_map ns i)(n_id ?n \<mapsto> ?D ! i)"
    by (auto simp: depth_map_def fun_eq_iff)
  with r show ?case by (simp only:)
qed

lemma Depths_rec:
  assumes "i < length ns"
  shows "Depths ns ! i = (case parentIx ns i of None \<Rightarrow> 0 | Some j \<Rightarrow> Depths ns ! j + 1)"
proof -
  from assms have "drop i ns = ns ! i # drop (Suc i) ns"
    and "drop i (Depths ns) = Depths ns ! i # drop (Suc i) (Depths ns)"
    by (simp_all add: Cons_nth_drop_Suc)
  with depths_loop_drop [of i ns] assms have "Depths ns ! i = depth_step (depth_map ns i) (ns ! i)"
    by (simp add: Let_def)
  then show ?thesis
    by (auto simp: depth_step_def parentIx_def depth_map_def split: option.splits)
qed

lemma parentIx_less: "parentIx ns i = Some j \<Longrightarrow> j < i"
  by (auto simp: parentIx_def find_down_Some_iff split: if_splits)

lemma Depths_bounds: "i < length ns \<Longrightarrow> 0 \<le> Depths ns ! i \<and> Depths ns ! i \<le> int i"
proof (induction i rule: less_induct)
  case (less i)
  show ?case
  proof (cases "parentIx ns i")
    case None
    with less.prems show ?thesis by (simp add: Depths_rec)
  next
    case (Some j)
    then have "j < i" by (rule parentIx_less)
    with less have "0 \<le> Depths ns ! j \<and> Depths ns ! j \<le> int j" by simp
    with \<open>j < i\<close> Some less.prems show ?thesis by (simp add: Depths_rec [of i])
  qed
qed

subsection \<open>Subtrees\<close>

definition child :: "node list \<Rightarrow> nat \<Rightarrow> nat \<Rightarrow> bool" where
  "child ns a b \<longleftrightarrow> a < b \<and> b < length ns \<and> n_parentId (ns ! b) \<noteq> [] \<and> n_parentId (ns ! b) = n_id (ns ! a)"

lemma length_mask_loop [simp]: "length (mask_loop S ns) = length ns"
  by (induction S ns rule: mask_loop.induct) auto

lemma length_SubtreeMask [simp]: "length (SubtreeMask ns r) = length ns"
  by (auto simp: SubtreeMask_def)

definition mask_ids :: "node list \<Rightarrow> nat \<Rightarrow> nat \<Rightarrow> wstring set" where
  "mask_ids ns r i = {n_id (ns ! j) | j. j < i \<and> SubtreeMask ns r ! j}"

lemma SubtreeMask_before: "r < length ns \<Longrightarrow> i < r \<Longrightarrow> \<not> SubtreeMask ns r ! i"
  by (simp add: SubtreeMask_def nth_append)

lemma SubtreeMask_root: "r < length ns \<Longrightarrow> SubtreeMask ns r ! r"
  by (simp add: SubtreeMask_def nth_append)

lemma mask_ids_Suc:
  "mask_ids ns r (Suc i) =
     (if SubtreeMask ns r ! i then insert (n_id (ns ! i)) (mask_ids ns r i) else mask_ids ns r i)"
  by (auto simp: mask_ids_def less_Suc_eq)

lemma mask_ids_root: "r < length ns \<Longrightarrow> mask_ids ns r (Suc r) = {n_id (ns ! r)}"
proof -
  assume r: "r < length ns"
  then have "mask_ids ns r r = {}" by (auto simp: mask_ids_def SubtreeMask_before)
  with r show ?thesis by (simp add: mask_ids_Suc SubtreeMask_root)
qed

lemma mask_loop_drop:
  assumes "r < length ns" and "r < i" and "i \<le> length ns"
  shows "mask_loop (mask_ids ns r i) (drop i ns) = drop i (SubtreeMask ns r)"
  using assms(2,3)
proof (induction i)
  case (Suc i)
  show ?case
  proof (cases "i = r")
    case True
    with assms(1) show ?thesis by (simp add: mask_ids_root SubtreeMask_def)
  next
    case False
    with Suc.prems have "r < i" "i < length ns" by auto
    then have "drop i ns = ns ! i # drop (Suc i) ns"
      and "drop i (SubtreeMask ns r) = SubtreeMask ns r ! i # drop (Suc i) (SubtreeMask ns r)"
      by (simp_all add: Cons_nth_drop_Suc)
    with Suc.IH \<open>r < i\<close> \<open>i < length ns\<close> show ?thesis
      by (auto simp: mask_ids_Suc split: if_splits)
  qed
qed simp

lemma SubtreeMask_rec:
  assumes "r < length ns" and "r < i" and "i < length ns"
  shows "SubtreeMask ns r ! i \<longleftrightarrow> n_parentId (ns ! i) \<noteq> [] \<and> n_parentId (ns ! i) \<in> mask_ids ns r i"
proof -
  from assms have "drop i ns = ns ! i # drop (Suc i) ns"
    and "drop i (SubtreeMask ns r) = SubtreeMask ns r ! i # drop (Suc i) (SubtreeMask ns r)"
    by (simp_all add: Cons_nth_drop_Suc)
  with mask_loop_drop [of r ns i] assms show ?thesis by (auto split: if_splits)
qed

lemma child_less: "child ns a b \<Longrightarrow> a < b"
  by (simp add: child_def)

lemma child_rtranclp_le: "(child ns)\<^sup>*\<^sup>* a b \<Longrightarrow> a \<le> b"
  by (induction rule: rtranclp_induct) (auto dest: child_less)

lemma SubtreeMask_iff:
  assumes "r < length ns" and "i < length ns"
  shows "SubtreeMask ns r ! i \<longleftrightarrow> (child ns)\<^sup>*\<^sup>* r i"
  using assms(2)
proof (induction i rule: less_induct)
  case (less i)
  consider "i < r" | "i = r" | "r < i" by linarith
  then show ?case
  proof cases
    case 1
    with assms(1) show ?thesis using child_rtranclp_le [of ns r i] by (auto simp: SubtreeMask_before)
  next
    case 2
    with assms(1) show ?thesis by (simp add: SubtreeMask_root)
  next
    case 3
    have "SubtreeMask ns r ! i \<longleftrightarrow> (\<exists>j. (child ns)\<^sup>*\<^sup>* r j \<and> child ns j i)"
    proof -
      have "SubtreeMask ns r ! i \<longleftrightarrow> (\<exists>j < i. SubtreeMask ns r ! j \<and> child ns j i)"
        using less.prems 3 assms(1) by (auto simp: SubtreeMask_rec mask_ids_def child_def)
      also have "\<dots> \<longleftrightarrow> (\<exists>j. (child ns)\<^sup>*\<^sup>* r j \<and> child ns j i)"
        using less.IH less.prems by (metis child_less less_trans)
      finally show ?thesis .
    qed
    moreover have "(child ns)\<^sup>*\<^sup>* r i \<longleftrightarrow> (\<exists>j. (child ns)\<^sup>*\<^sup>* r j \<and> child ns j i)"
      using 3 by (metis less_not_refl rtranclp.cases rtranclp.rtrancl_into_rtrancl)
    ultimately show ?thesis by simp
  qed
qed

lemma foldl_last_index:
  "let r = foldl (\<lambda>last i. if P i then i else last) root [a ..< b] in
     (r = root \<and> (\<forall>j. a \<le> j \<and> j < b \<longrightarrow> \<not> P j)) \<or>
     (a \<le> r \<and> r < b \<and> P r \<and> (\<forall>j. r < j \<and> j < b \<longrightarrow> \<not> P j))"
proof (induction b)
  case (Suc b)
  then show ?case by (cases "a \<le> b") (auto simp: Let_def less_Suc_eq)
qed simp

lemma SubtreeEnd_spec:
  assumes "r < length ns"
  shows "r \<le> SubtreeEnd ns r" "SubtreeEnd ns r < length ns" "SubtreeMask ns r ! SubtreeEnd ns r"
    and "\<And>j. SubtreeEnd ns r < j \<Longrightarrow> j < length ns \<Longrightarrow> \<not> SubtreeMask ns r ! j"
  using foldl_last_index [of "(!) (SubtreeMask ns r)" r r "length ns"] assms
  by (auto simp: SubtreeEnd_def Let_def SubtreeMask_root)

subsection \<open>Well-formedness\<close>

text \<open>
  \<open>wfs S ns\<close>: every row of \<open>ns\<close> is a root or names a session row that is in \<open>S\<close> (the ids of
  session rows known before) or earlier in \<open>ns\<close>. This is the meaning of \<open>IsWellFormed\<close> on rows
  with distinct ids, and it composes over append, filtering and insertion.
\<close>

primrec wfs :: "wstring set \<Rightarrow> node list \<Rightarrow> bool" where
  "wfs S [] = True"
| "wfs S (n # ns) =
     ((n_parentId n = [] \<or> n_parentId n \<in> S) \<and> wfs (if n_separator n then S else insert (n_id n) S) ns)"

definition sids :: "node list \<Rightarrow> wstring set" where
  "sids ns = {n_id n | n. n \<in> set ns \<and> \<not> n_separator n}"

abbreviation distinct_ids :: "node list \<Rightarrow> bool" where
  "distinct_ids ns \<equiv> distinct (map n_id ns)"

lemma sids_simps [simp]:
  "sids [] = {}"
  "sids (n # ns) = (if n_separator n then sids ns else insert (n_id n) (sids ns))"
  "sids (xs @ ys) = sids xs \<union> sids ys"
  by (auto simp: sids_def)

lemma sids_subset: "sids ns \<subseteq> n_id ` set ns"
  by (auto simp: sids_def)

lemma wfs_append [simp]: "wfs S (xs @ ys) \<longleftrightarrow> wfs S xs \<and> wfs (S \<union> sids xs) ys"
  by (induction xs arbitrary: S) auto

lemma wfs_mono: "wfs S ns \<Longrightarrow> S \<subseteq> T \<Longrightarrow> wfs T ns"
proof (induction ns arbitrary: S T)
  case (Cons n ns)
  then have "wfs (if n_separator n then S else insert (n_id n) S) ns" by simp
  then have "wfs (if n_separator n then T else insert (n_id n) T) ns"
    by (rule Cons.IH) (use Cons.prems in auto)
  with Cons.prems show ?case by auto
qed simp

lemma wfs_filter:
  assumes "wfs S ns"
    and "\<And>n. n \<in> set ns \<Longrightarrow> n_id n \<in> B \<Longrightarrow> n_parentId n = [] \<or> n_parentId n \<in> C"
    and "S \<inter> C \<subseteq> T" and "C \<subseteq> B \<union> T"
  shows "wfs T (filter (\<lambda>n. n_id n \<in> B) ns)"
  using assms
proof (induction ns arbitrary: S T)
  case (Cons n ns)
  let ?ins = "\<lambda>S. if n_separator n then S else insert (n_id n) S"
  show ?case
  proof (cases "n_id n \<in> B")
    case True
    have "wfs (?ins T) (filter (\<lambda>n. n_id n \<in> B) ns)"
      by (rule Cons.IH [of "?ins S"]) (use Cons.prems in auto)
    moreover have "n_parentId n = [] \<or> n_parentId n \<in> T"
      using Cons.prems(1,3) Cons.prems(2) [OF _ True] by auto
    ultimately show ?thesis using True by simp
  next
    case False
    have "wfs T (filter (\<lambda>n. n_id n \<in> B) ns)"
      by (rule Cons.IH [of "?ins S"]) (use Cons.prems False in auto)
    with False show ?thesis by simp
  qed
qed simp

lemma wf_loop_wfs:
  assumes "distinct_ids ns" and "\<And>k. k \<in> n_id ` set ns \<Longrightarrow> seen k = None"
  shows "wf_loop seen ns \<longleftrightarrow> wfs {k. seen k = Some False} ns"
  using assms
proof (induction ns arbitrary: seen)
  case (Cons n ns)
  let ?seen = "seen(n_id n \<mapsto> n_separator n)"
  have s: "seen (n_id n) = None" using Cons.prems(2) by simp
  have "wf_loop ?seen ns \<longleftrightarrow> wfs {k. ?seen k = Some False} ns"
    by (rule Cons.IH) (use Cons.prems in \<open>auto simp: image_iff\<close>)
  moreover have "{k. ?seen k = Some False} =
      (if n_separator n then {k. seen k = Some False} else insert (n_id n) {k. seen k = Some False})"
    using s by auto
  ultimately show ?case using s by (auto split: option.splits)
qed simp

lemma IsWellFormed_wfs: "distinct_ids ns \<Longrightarrow> IsWellFormed ns \<longleftrightarrow> wfs {} ns"
  unfolding IsWellFormed_def by (subst wf_loop_wfs) auto

lemma wfs_nth:
  "wfs S ns \<longleftrightarrow> (\<forall>i < length ns. n_parentId (ns ! i) = [] \<or> n_parentId (ns ! i) \<in> S \<union> sids (take i ns))"
proof (induction ns arbitrary: S)
  case (Cons n ns)
  show ?case
    by (auto simp: Cons.IH All_less_Suc2)
qed simp

subsection \<open>Block moves keep the tree well formed\<close>

text \<open>What a block move means on a list: the block, lifted out, goes in as one run.\<close>

definition apply_move :: "'a list \<Rightarrow> block_move \<Rightarrow> 'a list" where
  "apply_move xs m =
     (let rest = nths xs (- set (bm_block m))
      in take (bm_insertAt m) rest @ map ((!) xs) (bm_block m) @ drop (bm_insertAt m) rest)"

lemma nths_filter_ids:
  assumes "distinct_ids ns"
  shows "nths ns A = filter (\<lambda>n. n_id n \<in> n_id ` set (nths ns A)) ns"
proof -
  have "inj_on n_id (set ns)" using assms by (simp add: distinct_map)
  then have "n_id n \<in> n_id ` set (nths ns A) \<longleftrightarrow> n \<in> set (nths ns A)" if "n \<in> set ns" for n
    using that set_nths_subset [of ns A] by (auto simp: inj_on_def)
  then have "filter (\<lambda>n. n_id n \<in> n_id ` set (nths ns A)) ns = filter (\<lambda>n. n \<in> set (nths ns A)) ns"
    by (rule filter_cong [OF refl])
  with assms show ?thesis by (simp add: filter_in_nths distinct_map)
qed

lemma wfs_insert_block:
  "wfs {} rest \<Longrightarrow> wfs (sids (take k rest)) block \<Longrightarrow> wfs {} (take k rest @ block @ drop k rest)"
proof -
  assume rest: "wfs {} rest" and block: "wfs (sids (take k rest)) block"
  from rest have "wfs {} (take k rest @ drop k rest)" by simp
  then have "wfs {} (take k rest)" and "wfs (sids (take k rest)) (drop k rest)"
    unfolding wfs_append by auto
  with block show ?thesis by (auto intro: wfs_mono)
qed

lemma move_loop_block:
  "bm_block (move_loop mv st sib up is r m) = bm_block m @ filter ((!) mv) is"
  by (induction mv st sib up "is" r m rule: move_loop.induct) (auto simp: Let_def)

abbreviation rest_count :: "bool list \<Rightarrow> nat \<Rightarrow> nat" where
  "rest_count mv i \<equiv> length (filter (\<lambda>j. \<not> mv ! j) [0 ..< i])"

definition lands :: "bool list \<Rightarrow> bool list \<Rightarrow> nat \<Rightarrow> bool \<Rightarrow> nat \<Rightarrow> bool" where
  "lands mv st sib up i \<longleftrightarrow> \<not> mv ! i \<and> (if up then i = sib else st ! i)"

lemma find_down_from:
  assumes "a < n"
  shows "find_down (\<lambda>i. a \<le> i \<and> P i) n =
    (case find_down (\<lambda>i. Suc a \<le> i \<and> P i) n of
       Some t \<Rightarrow> Some t | None \<Rightarrow> if P a then Some a else None)"
  using assms by (induction n) (auto simp: less_Suc_eq find_down_None_iff find_down_Some_iff split: option.splits)

lemma move_loop_insertAt:
  assumes "a \<le> n"
  shows "bm_insertAt (move_loop mv st sib up [a ..< n] (rest_count mv a) m) =
    (case find_down (\<lambda>i. a \<le> i \<and> lands mv st sib up i) n of
       None \<Rightarrow> bm_insertAt m
     | Some t \<Rightarrow> if up then rest_count mv t else rest_count mv (Suc t))"
  using assms
proof (induction a arbitrary: m rule: inc_induct)
  case base
  have "find_down (\<lambda>i. n \<le> i \<and> lands mv st sib up i) n = None" by (simp add: find_down_None_iff)
  then show ?case by simp
next
  case (step a)
  let ?m = "if mv ! a then m\<lparr>bm_block := bm_block m @ [a]\<rparr>
    else if up \<and> a = sib then m\<lparr>bm_insertAt := rest_count mv a\<rparr>
    else if \<not> up \<and> st ! a then m\<lparr>bm_insertAt := rest_count mv a + 1\<rparr> else m"
  have loop: "move_loop mv st sib up [a ..< n] (rest_count mv a) m
      = move_loop mv st sib up [Suc a ..< n] (rest_count mv (Suc a)) ?m"
    using step.hyps by (simp add: upt_conv_Cons Let_def)
  have m: "bm_insertAt ?m = (if lands mv st sib up a
      then (if up then rest_count mv a else rest_count mv (Suc a)) else bm_insertAt m)"
    by (auto simp: lands_def)
  show ?case
    unfolding loop step.IH m find_down_from [OF step.hyps(2)]
    by (cases "find_down (\<lambda>i. Suc a \<le> i \<and> lands mv st sib up i) n") simp_all
qed

abbreviation subtree_ids :: "node list \<Rightarrow> nat \<Rightarrow> wstring set" where
  "subtree_ids ns r \<equiv> mask_ids ns r (length ns)"

lemma in_subtree_ids:
  assumes "distinct_ids ns" and "j < length ns"
  shows "n_id (ns ! j) \<in> subtree_ids ns r \<longleftrightarrow> SubtreeMask ns r ! j"
proof -
  have "n_id (ns ! j) = n_id (ns ! k) \<longleftrightarrow> j = k" if "k < length ns" for k
    using assms that nth_eq_iff_index_eq [of "map n_id ns" j k] by simp
  with assms(2) show ?thesis by (auto simp: mask_ids_def)
qed

lemma wfs_parent:
  assumes "wfs {} ns" and "j < length ns" and "n_parentId (ns ! j) \<noteq> []"
  obtains p where "p < j" "n_id (ns ! p) = n_parentId (ns ! j)" "\<not> n_separator (ns ! p)"
  using assms by (fastforce simp: wfs_nth sids_def in_set_conv_nth)

lemma wfs_parent_unique:
  assumes "distinct_ids ns" "wfs {} ns" "j < length ns" "n_parentId (ns ! j) \<noteq> []"
    and "k < length ns" "n_id (ns ! k) = n_parentId (ns ! j)"
  shows "k < j \<and> \<not> n_separator (ns ! k)"
proof -
  from assms(2-4) obtain p where "p < j" "n_id (ns ! p) = n_parentId (ns ! j)" "\<not> n_separator (ns ! p)"
    by (rule wfs_parent)
  moreover from this assms have "p = k"
    using nth_eq_iff_index_eq [of "map n_id ns" p k] by simp
  ultimately show ?thesis by simp
qed

lemma subtree_parent_in:
  assumes "r < length ns" "SubtreeMask ns r ! j" "j < length ns" "j \<noteq> r"
  shows "n_parentId (ns ! j) \<noteq> [] \<and> n_parentId (ns ! j) \<in> subtree_ids ns r"
proof -
  have "r < j" using assms SubtreeMask_before [of r ns j] by (cases "j < r") auto
  then have "n_parentId (ns ! j) \<noteq> [] \<and> n_parentId (ns ! j) \<in> mask_ids ns r j"
    using assms SubtreeMask_rec by blast
  with assms(3) show ?thesis by (force simp: mask_ids_def)
qed

lemma subtree_parent_out:
  assumes "distinct_ids ns" "wfs {} ns" "r < length ns" "j < length ns" "\<not> SubtreeMask ns r ! j"
    and "n_parentId (ns ! j) \<noteq> []"
  shows "n_parentId (ns ! j) \<notin> subtree_ids ns r"
proof
  assume "n_parentId (ns ! j) \<in> subtree_ids ns r"
  then obtain k where k: "k < length ns" "SubtreeMask ns r ! k" "n_id (ns ! k) = n_parentId (ns ! j)"
    by (auto simp: mask_ids_def)
  then have "k < j" using assms wfs_parent_unique by blast
  then have "child ns k j" using k assms by (simp add: child_def)
  then have "(child ns)\<^sup>*\<^sup>* r j" using k assms(3) by (auto simp: SubtreeMask_iff)
  with assms show False by (simp add: SubtreeMask_iff)
qed

lemma subtree_root_parent_out:
  assumes "distinct_ids ns" "wfs {} ns" "r < length ns" "n_parentId (ns ! r) \<noteq> []"
  shows "n_parentId (ns ! r) \<notin> subtree_ids ns r"
  using assms wfs_parent_unique SubtreeMask_before by (fastforce simp: mask_ids_def)

lemma move_target:
  assumes "distinct_ids ns" and "wfs {} ns" and "MoveAmongSiblings ns i up = Some m"
  obtains t where "t \<le> length ns" and "bm_insertAt m = rest_count (SubtreeMask ns i) t"
    and "n_parentId (ns ! i) = [] \<or> (\<exists>p. p < t \<and> p < i \<and> n_id (ns ! p) = n_parentId (ns ! i) \<and> \<not> n_separator (ns ! p))"
proof -
  let ?mv = "SubtreeMask ns i"
  from assms(3) obtain sib where
    sib: "(if up then PrevSibling ns i else NextSibling ns i) = Some sib"
    and m: "m = move_loop ?mv (SubtreeMask ns sib) sib up [0 ..< length ns] 0 \<lparr>bm_block = [], bm_insertAt = 0\<rparr>"
    by (auto simp: MoveAmongSiblings_def split: option.splits)
  from sib have i: "i < length ns" and sp: "n_parentId (ns ! sib) = n_parentId (ns ! i)"
    and sl: "sib < length ns" and so: "if up then sib < i else i < sib"
    by (auto simp: PrevSibling_def NextSibling_def find_down_Some_iff find_up_Some_iff split: if_splits)
  have "\<not> ?mv ! sib"
  proof (cases up)
    case True
    with so i show ?thesis by (simp add: SubtreeMask_before)
  next
    case False
    then have "sib \<noteq> i" using so by auto
    then show ?thesis
      using subtree_parent_in [OF i _ sl] subtree_root_parent_out [OF assms(1,2) i] sp by metis
  qed
  then have "lands ?mv (SubtreeMask ns sib) sib up sib" using sl by (simp add: lands_def SubtreeMask_root)
  then obtain t0 where t0: "find_down (lands ?mv (SubtreeMask ns sib) sib up) (length ns) = Some t0" and "sib \<le> t0"
    using sl by (metis find_down_None_iff find_down_Some_iff linorder_not_less not_Some_eq)
  have t: "up \<Longrightarrow> t0 = sib" "t0 < length ns" using t0 by (auto simp: find_down_Some_iff lands_def)
  have ins: "bm_insertAt m = rest_count ?mv (if up then t0 else Suc t0)"
    using move_loop_insertAt [of 0 "length ns" ?mv "SubtreeMask ns sib" sib up] t0 by (simp add: m)
  have "n_parentId (ns ! i) = [] \<or> (\<exists>p. p < (if up then t0 else Suc t0) \<and> p < i \<and> n_id (ns ! p) = n_parentId (ns ! i) \<and> \<not> n_separator (ns ! p))"
  proof (cases "n_parentId (ns ! i) = []")
    case False
    obtain p where "p < i" "n_id (ns ! p) = n_parentId (ns ! i)" "\<not> n_separator (ns ! p)"
      using wfs_parent [OF assms(2) i False] by blast
    moreover have "p < sib"
      using wfs_parent_unique [OF assms(1,2) sl, of p] \<open>p < i\<close> i False sp calculation by auto
    ultimately show ?thesis using t \<open>sib \<le> t0\<close> by (intro disjI2 exI [of _ p]) auto
  qed simp
  with ins show ?thesis using t by (intro that [of "if up then t0 else Suc t0"]) auto
qed

lemma length_nths_rest:
  assumes "t \<le> length ns" and "bl = filter ((!) mv) [0 ..< length ns]"
  shows "length (nths (take t ns) (- set bl)) = rest_count mv t"
proof -
  have "filter (\<lambda>j. j \<in> - set bl) [0 ..< t] = filter (\<lambda>j. \<not> mv ! j) [0 ..< t]"
    using assms by (auto intro: filter_cong)
  with assms show ?thesis by (simp add: nths_conv_nth)
qed

lemma subtree_split:
  assumes d: "distinct_ids ns" and bl: "bl = filter ((!) (SubtreeMask ns i)) [0 ..< length ns]"
  shows "nths ns (- set bl) = filter (\<lambda>n. n_id n \<in> - subtree_ids ns i) ns"
    and "map ((!) ns) bl = filter (\<lambda>n. n_id n \<in> subtree_ids ns i) ns"
proof -
  have A: "set bl = {j. j < length ns \<and> SubtreeMask ns i ! j}" by (auto simp: bl)
  have inB: "n_id n \<in> subtree_ids ns i \<longleftrightarrow> n \<in> set (nths ns (set bl))" if "n \<in> set ns" for n
    using that d in_subtree_ids [OF d] unfolding A
    by (fastforce simp: set_nths in_set_conv_nth distinct_map nth_eq_iff_index_eq)
  show "nths ns (- set bl) = filter (\<lambda>n. n_id n \<in> - subtree_ids ns i) ns"
    using d inB by (subst filter_notin_nths [symmetric]) (auto simp: distinct_map intro: filter_cong)
  have "map ((!) ns) bl = nths ns (set bl)"
    unfolding nths_conv_nth by (rule arg_cong [of _ _ "map ((!) ns)"]) (auto simp: bl intro: filter_cong)
  also have "\<dots> = filter (\<lambda>n. n_id n \<in> subtree_ids ns i) ns"
    using d inB by (subst filter_in_nths [symmetric]) (auto simp: distinct_map intro: filter_cong)
  finally show "map ((!) ns) bl = filter (\<lambda>n. n_id n \<in> subtree_ids ns i) ns" .
qed

lemma subtree_rest_wfs:
  assumes d: "distinct_ids ns" and w: "wfs {} ns" and i: "i < length ns"
  shows "wfs {} (filter (\<lambda>n. n_id n \<in> - subtree_ids ns i) ns)"
proof (rule wfs_filter [OF w])
  fix n assume "n \<in> set ns" "n_id n \<in> - subtree_ids ns i"
  then obtain j where "j < length ns" "n = ns ! j" "\<not> SubtreeMask ns i ! j"
    using in_subtree_ids [OF d] by (auto simp: in_set_conv_nth)
  then show "n_parentId n = [] \<or> n_parentId n \<in> - subtree_ids ns i"
    using subtree_parent_out [OF d w i] by auto
qed auto

lemma subtree_block_wfs:
  assumes d: "distinct_ids ns" and w: "wfs {} ns" and i: "i < length ns"
    and T: "n_parentId (ns ! i) = [] \<or> n_parentId (ns ! i) \<in> T"
  shows "wfs T (filter (\<lambda>n. n_id n \<in> subtree_ids ns i) ns)"
proof (rule wfs_filter [OF w, where C = "subtree_ids ns i \<union> ({n_parentId (ns ! i)} - {[]})"])
  fix n assume "n \<in> set ns" "n_id n \<in> subtree_ids ns i"
  then obtain j where "j < length ns" "n = ns ! j" "SubtreeMask ns i ! j"
    using in_subtree_ids [OF d] by (auto simp: in_set_conv_nth)
  then show "n_parentId n = [] \<or> n_parentId n \<in> subtree_ids ns i \<union> ({n_parentId (ns ! i)} - {[]})"
    using subtree_parent_in [OF i] by (cases "j = i") auto
qed (use T in auto)

lemma MoveAmongSiblings_index: "MoveAmongSiblings ns i up = Some m \<Longrightarrow> i < length ns"
  by (auto simp: MoveAmongSiblings_def PrevSibling_def NextSibling_def split: option.splits if_splits)

lemma MoveAmongSiblings_block:
  "MoveAmongSiblings ns i up = Some m \<Longrightarrow> bm_block m = filter ((!) (SubtreeMask ns i)) [0 ..< length ns]"
  by (auto simp: MoveAmongSiblings_def move_loop_block split: option.splits)

lemma move_wfs:
  assumes d: "distinct_ids ns" and w: "wfs {} ns" and mv: "MoveAmongSiblings ns i up = Some m"
  shows "wfs {} (apply_move ns m)"
proof -
  have i: "i < length ns" and bl: "bm_block m = filter ((!) (SubtreeMask ns i)) [0 ..< length ns]"
    using mv by (rule MoveAmongSiblings_index, rule MoveAmongSiblings_block)
  let ?A = "- set (bm_block m)"
  obtain t where t: "t \<le> length ns" "bm_insertAt m = rest_count (SubtreeMask ns i) t"
    and par: "n_parentId (ns ! i) = [] \<or>
      (\<exists>p. p < t \<and> p < i \<and> n_id (ns ! p) = n_parentId (ns ! i) \<and> \<not> n_separator (ns ! p))"
    using move_target [OF assms] by blast
  have pre: "take (bm_insertAt m) (nths ns ?A) = nths (take t ns) ?A"
    using take_nths_take [of t ns ?A] length_nths_rest [OF t(1) bl] t(2) by simp
  have "n_parentId (ns ! i) = [] \<or> n_parentId (ns ! i) \<in> sids (nths (take t ns) ?A)"
    using par
  proof (elim disjE exE conjE)
    fix p assume p: "p < t" "p < i" "n_id (ns ! p) = n_parentId (ns ! i)" "\<not> n_separator (ns ! p)"
    then have "ns ! p \<in> set (nths (take t ns) ?A)"
      using t(1) i SubtreeMask_before [OF i] by (auto simp: set_nths bl intro!: exI [of _ p])
    with p show ?thesis by (auto simp: sids_def intro!: exI [of _ "ns ! p"])
  qed simp
  then have "wfs (sids (nths (take t ns) ?A)) (map ((!) ns) (bm_block m))"
    unfolding subtree_split(2) [OF d bl] by (rule subtree_block_wfs [OF d w i])
  moreover have "wfs {} (nths ns ?A)"
    unfolding subtree_split(1) [OF d bl] by (rule subtree_rest_wfs [OF d w i])
  ultimately show ?thesis
    using wfs_insert_block [of "nths ns ?A" "bm_insertAt m"] by (simp add: apply_move_def Let_def pre)
qed

lemma mset_apply_move:
  assumes "distinct (bm_block m)" and "set (bm_block m) \<subseteq> {..< length xs}"
  shows "mset (apply_move xs m) = mset xs"
proof -
  let ?A = "set (bm_block m)"
  have "mset (map ((!) xs) (bm_block m)) = mset (map ((!) xs) (filter (\<lambda>i. i \<in> ?A) [0 ..< length xs]))"
  proof -
    have "mset (bm_block m) = mset (filter (\<lambda>i. i \<in> ?A) [0 ..< length xs])"
      using assms by (intro set_eq_iff_mset_eq_distinct [THEN iffD1]) auto
    then show ?thesis by simp
  qed
  then have "mset (map ((!) xs) (bm_block m)) = mset (nths xs ?A)" by (simp add: nths_conv_nth)
  moreover have "mset (apply_move xs m) = mset (nths xs (- ?A)) + mset (map ((!) xs) (bm_block m))"
  proof -
    have "mset (take k r @ b @ drop k r) = mset r + mset b" for k r and b :: "'a list"
      by (metis append_take_drop_id mset_append union_assoc union_commute)
    then show ?thesis by (simp only: apply_move_def Let_def)
  qed
  ultimately show ?thesis using mset_nths_compl [of xs ?A] by (simp add: ac_simps)
qed

subsection \<open>The drag fix-up\<close>

lemma distinct_ids_nth:
  "distinct_ids ns \<Longrightarrow> i < length ns \<Longrightarrow> j < length ns \<Longrightarrow> n_id (ns ! i) = n_id (ns ! j) \<longleftrightarrow> i = j"
  using nth_eq_iff_index_eq [of "map n_id ns" i j] by simp

lemma distinct_ids_eq:
  "distinct_ids ns \<Longrightarrow> x \<in> set ns \<Longrightarrow> y \<in> set ns \<Longrightarrow> n_id x = n_id y \<Longrightarrow> x = y"
  by (auto simp: distinct_map inj_on_def)

definition closed_under :: "node list \<Rightarrow> wstring set \<Rightarrow> bool" where
  "closed_under ns X \<longleftrightarrow> (\<forall>n \<in> set ns. n_parentId n \<noteq> [] \<and> n_parentId n \<in> X \<longrightarrow> n_id n \<in> X)"

lemma closure_pass_True: "closure_pass ns S True = (S', g') \<Longrightarrow> g'"
  by (induction ns arbitrary: S) (auto split: if_splits)

lemma closure_pass_fixed:
  "closure_pass ns S g = (S', False) \<Longrightarrow> S' = S \<and> closed_under ns S"
  by (induction ns S g rule: closure_pass.induct)
    (auto simp: closed_under_def split: if_splits dest: closure_pass_True)

lemma closure_pass_least:
  "closure_pass ns S g = (S', g') \<Longrightarrow> S \<subseteq> X \<Longrightarrow> closed_under ns X \<Longrightarrow> S' \<subseteq> X"
  by (induction ns S g rule: closure_pass.induct) (auto simp: closed_under_def split: if_splits)

lemma closure_loop_spec:
  "S \<subseteq> closure_loop ns S \<and> closed_under ns (closure_loop ns S) \<and>
   (\<forall>X. S \<subseteq> X \<longrightarrow> closed_under ns X \<longrightarrow> closure_loop ns S \<subseteq> X)"
proof (induction ns S rule: closure_loop.induct)
  case (1 ns S)
  obtain S' g where p: "closure_pass ns S False = (S', g)" by (cases "closure_pass ns S False")
  show ?case
  proof (cases g)
    case True
    then have "closure_loop ns S = closure_loop ns S'" using p by (simp add: closure_loop.simps [of ns S])
    moreover have "S \<subseteq> S'" using closure_pass_bounds [OF p] by blast
    ultimately show ?thesis
      using 1 [OF p [symmetric] True] closure_pass_least [OF p] by auto
  next
    case False
    with p have "closure_loop ns S = S" "closed_under ns S"
      using closure_pass_fixed by (auto simp: closure_loop.simps [of ns S])
    then show ?thesis by simp
  qed
qed

lemma closure_loop_parent:
  assumes "k \<in> closure_loop ns {h}" and "k \<noteq> h"
  obtains n where "n \<in> set ns" "n_id n = k" "n_parentId n \<noteq> []" "n_parentId n \<in> closure_loop ns {h}"
proof -
  let ?B = "closure_loop ns {h}"
  let ?X = "insert h {n_id n | n. n \<in> set ns \<and> n_parentId n \<noteq> [] \<and> n_parentId n \<in> ?B}"
  have cl: "closed_under ns ?B" and "h \<in> ?B" using closure_loop_spec [of "{h}" ns] by auto
  then have "?X \<subseteq> ?B" by (auto simp: closed_under_def)
  then have "closed_under ns ?X" by (auto simp: closed_under_def)
  then have "?B \<subseteq> ?X" using closure_loop_spec by (metis (no_types, lifting) insert_subset insertI1 empty_subsetI)
  with assms that show ?thesis by blast
qed

lemma split_loop_spec:
  assumes "a \<le> n"
  shows "split_loop ns B h [a ..< n] bl rest anc =
    (bl @ filter (\<lambda>i. n_id (ns ! i) \<in> B \<and> i \<noteq> h) [a ..< n],
     rest @ map ((!) ns) (filter (\<lambda>i. n_id (ns ! i) \<notin> B) [a ..< n]),
     (let c = length (filter (\<lambda>i. n_id (ns ! i) \<notin> B \<and> i < h) [a ..< n])
      in if c = 0 then anc else Some (length rest + c - 1)))"
  using assms
proof (induction a arbitrary: bl rest anc rule: inc_induct)
  case (step a)
  have "filter (\<lambda>i. n_id (ns ! i) \<notin> B \<and> i < h) [Suc a ..< n] = []" if "\<not> a < h"
    using that by (auto simp: filter_empty_conv)
  with step show ?case by (auto simp: upt_conv_Cons Let_def)
qed simp

lemma walk_up_spec:
  assumes d: "distinct_ids rest" and w: "wfs {} rest"
    and "cur < length rest" and "0 \<le> target" and "target \<le> Depths rest ! cur"
  shows "\<exists>c. walk_up rest (Depths rest) target cur = Some c \<and> c \<le> cur \<and> Depths rest ! c = target
    \<and> (c < cur \<longrightarrow> \<not> n_separator (rest ! c))"
  using assms(3-)
proof (induction cur rule: less_induct)
  case (less cur)
  show ?case
  proof (cases "Depths rest ! cur > target")
    case True
    then obtain j where j: "parentIx rest cur = Some j" and dj: "Depths rest ! cur = Depths rest ! j + 1"
      using less.prems Depths_rec [of cur rest] by (auto split: option.splits)
    then have "j < cur" "n_parentId (rest ! cur) \<noteq> []" "n_id (rest ! j) = n_parentId (rest ! cur)"
      by (auto simp: parentIx_def find_down_Some_iff split: if_splits)
    moreover have "\<not> n_separator (rest ! j)"
      using wfs_parent_unique [OF d w less.prems(1)] calculation less.prems(1) by auto
    moreover have "first_index rest (n_parentId (rest ! cur)) = Some j"
      using calculation less.prems(1) distinct_ids_nth [OF d, of _ j]
      by (auto simp: first_index_def find_up_Some_iff)
    moreover obtain c where "walk_up rest (Depths rest) target j = Some c" "c \<le> j" "Depths rest ! c = target"
      "c < j \<longrightarrow> \<not> n_separator (rest ! c)"
      using less.IH [of j] calculation dj True less.prems by auto
    ultimately show ?thesis
      using True by (subst walk_up.simps) (auto simp: le_less)
  next
    case False
    then show ?thesis using less.prems by (subst walk_up.simps) auto
  qed
qed


lemma newDepth_of_anchor:
  assumes "newDepth_of rest ds (Some a) k old = d"
  shows "d \<le> ds ! a + 1" and "d = ds ! a + 1 \<Longrightarrow> \<not> n_separator (rest ! a)"
  using assms by (auto simp: newDepth_of_def Let_def split: if_splits)

lemma newDepth_of_root:
  assumes "newDepth_of rest (Depths rest) None k old = d"
  shows "d = 0"
  using assms Depths_bounds [of k rest] by (auto simp: newDepth_of_def Let_def min_def split: if_splits)

lemma filter_map_nth:
  "map ((!) xs) (filter (\<lambda>i. P (xs ! i)) [0 ..< length xs]) = filter P xs"
proof -
  have "filter P (map ((!) xs) [0 ..< length xs]) = map ((!) xs) (filter (P \<circ> (!) xs) [0 ..< length xs])"
    by (rule filter_map)
  then show ?thesis by (simp add: map_nth o_def)
qed

lemma filter_nth_take:
  assumes "h \<le> length xs"
  shows "length (filter (\<lambda>i. P (xs ! i) \<and> i < h) [0 ..< length xs]) = length (filter P (take h xs))"
proof -
  have "filter (\<lambda>i. P (xs ! i) \<and> i < h) [0 ..< length xs] = filter (\<lambda>i. P (take h xs ! i)) [0 ..< length (take h xs)]"
  proof -
    have "[0 ..< length xs] = [0 ..< h] @ [h ..< length xs]" using assms upt_add_eq_append [of 0 h "length xs - h"] by simp
    then show ?thesis using assms by (auto simp: filter_empty_conv intro: filter_cong)
  qed
  then have "length (filter (\<lambda>i. P (xs ! i) \<and> i < h) [0 ..< length xs])
      = length (map ((!) (take h xs)) (filter (\<lambda>i. P (take h xs ! i)) [0 ..< length (take h xs)]))" by simp
  then show ?thesis by (simp only: filter_map_nth)
qed

text \<open>The three results of \<open>split_loop\<close>, as lists of rows.\<close>

lemma split_loop_rows:
  assumes h: "h < length after" and hB: "n_id (after ! h) \<in> B"
    and "split_loop after B h [0 ..< length after] [h] [] None = (bl, rest, anchor)"
  shows "bl = h # filter (\<lambda>i. n_id (after ! i) \<in> B \<and> i \<noteq> h) [0 ..< length after]"
    and "rest = filter (\<lambda>n. n_id n \<notin> B) after"
    and "anchor = (let k = length (filter (\<lambda>n. n_id n \<notin> B) (take h after)) in if k = 0 then None else Some (k - 1))"
  using assms(3) filter_nth_take [of h after "\<lambda>n. n_id n \<notin> B"] h filter_map_nth [of after "\<lambda>n. n_id n \<notin> B"]
  by (auto simp add: split_loop_spec Let_def simp del: length_0_conv split: if_splits)

lemma drag_rest:
  fixes head' :: node
  assumes hB: "n_id (after ! h) \<in> B"
    and bl: "bl = h # filter (\<lambda>i. n_id (after ! i) \<in> B \<and> i \<noteq> h) [0 ..< length after]"
    and rest: "rest = filter (\<lambda>n. n_id n \<notin> B) after"
  shows "nths (after[h := head']) (- set bl) = rest"
proof -
  let ?a = "after[h := head']"
  have "nths ?a (- set bl) = map ((!) ?a) (filter (\<lambda>i. n_id (after ! i) \<notin> B) [0 ..< length after])"
    unfolding nths_conv_nth bl using hB by (auto intro!: arg_cong [of _ _ "map ((!) ?a)"] filter_cong)
  also have "\<dots> = map ((!) after) (filter (\<lambda>i. n_id (after ! i) \<notin> B) [0 ..< length after])"
    using hB by (intro map_cong refl nth_list_update_neq) auto
  finally show ?thesis by (simp add: rest filter_map_nth [of after "\<lambda>n. n_id n \<notin> B"])
qed

lemma drag_apply:
  fixes head' :: node
  assumes d: "distinct_ids after" and h: "h < length after" and hB: "n_id (after ! h) \<in> B"
    and bl: "bl = h # filter (\<lambda>i. n_id (after ! i) \<in> B \<and> i \<noteq> h) [0 ..< length after]"
    and rest: "rest = filter (\<lambda>n. n_id n \<notin> B) after"
  shows "apply_move (after[h := head']) \<lparr>bm_block = bl, bm_insertAt = k\<rparr> =
    take k rest @ head' # filter (\<lambda>n. n_id n \<in> B - {n_id (after ! h)}) after @ drop k rest"
proof -
  let ?a = "after[h := head']"
  have "map ((!) ?a) bl = head' # map ((!) after) (filter (\<lambda>i. n_id (after ! i) \<in> B \<and> i \<noteq> h) [0 ..< length after])"
    using h by (auto simp: bl nth_list_update)
  also have "filter (\<lambda>i. n_id (after ! i) \<in> B \<and> i \<noteq> h) [0 ..< length after]
      = filter (\<lambda>i. n_id (after ! i) \<in> B - {n_id (after ! h)}) [0 ..< length after]"
    using distinct_ids_nth [OF d _ h] by (auto intro!: filter_cong)
  finally have "map ((!) ?a) bl = head' # filter (\<lambda>n. n_id n \<in> B - {n_id (after ! h)}) after"
    by (simp only: filter_map_nth [of after "\<lambda>n. n_id n \<in> B - {n_id (after ! h)}"])
  then show ?thesis by (simp add: apply_move_def drag_rest [OF hB bl rest])
qed

lemma drag_block_wfs:
  assumes d: "distinct_ids ns" and w: "wfs {} ns" and B: "B = closure_loop ns {hid}"
    and h: "head \<in> set ns" "n_id head = hid" and hT: "\<not> n_separator head \<Longrightarrow> hid \<in> T"
  shows "wfs T (filter (\<lambda>n. n_id n \<in> B - {hid}) ns)"
proof (rule wfs_filter [OF w, where C = "B - (if n_separator head then {hid} else {})"])
  fix n assume n: "n \<in> set ns" "n_id n \<in> B - {hid}"
  then obtain n' where "n' \<in> set ns" "n_id n' = n_id n" "n_parentId n' \<noteq> []" "n_parentId n' \<in> B"
    using closure_loop_parent [of "n_id n" ns hid] unfolding B by auto
  then have par: "n_parentId n \<noteq> []" "n_parentId n \<in> B" using distinct_ids_eq [OF d] n(1) by blast+
  moreover have "n_parentId n \<noteq> hid" if "n_separator head"
  proof
    assume "n_parentId n = hid"
    obtain i j where "ns ! i = n" "i < length ns" "ns ! j = head" "j < length ns"
      using n(1) h(1) by (auto simp: in_set_conv_nth)
    then show False
      using wfs_parent_unique [OF d w, of i j] par(1) \<open>n_parentId n = hid\<close> that h(2) by auto
  qed
  ultimately show "n_parentId n = [] \<or> n_parentId n \<in> B - (if n_separator head then {hid} else {})" by auto
qed (use hT in auto)

lemma closed_under_set: "set xs = set ys \<Longrightarrow> closed_under xs = closed_under ys"
  by (simp add: fun_eq_iff closed_under_def)

lemma closure_loop_set:
  assumes "set xs = set ys"
  shows "closure_loop xs S = closure_loop ys S"
  using closure_loop_spec [of S xs] closure_loop_spec [of S ys] closed_under_set [OF assms]
  by (auto intro!: subset_antisym)

lemma drag_rest_wfs:
  assumes "wfs {} ns" and "closed_under ns B"
  shows "wfs {} (filter (\<lambda>n. n_id n \<notin> B) ns)"
  using wfs_filter [OF assms(1), of "- B" "- B" "{}"] assms(2) by (auto simp: closed_under_def)

lemma NormalizeAfterDrag_fix:
  assumes d: "distinct_ids after" and h: "h < length after" and B: "B = closure_loop after {n_id (after ! h)}"
    and rest: "rest = filter (\<lambda>n. n_id n \<notin> B) after" and w: "wfs {} rest"
    and k: "k = length (filter (\<lambda>n. n_id n \<notin> B) (take h after))"
  obtains fix' where "NormalizeAfterDrag after h oldDepth = Fix fix'"
    and "bm_insertAt (df_move fix') = k"
    and "bm_block (df_move fix') = h # filter (\<lambda>i. n_id (after ! i) \<in> B \<and> i \<noteq> h) [0 ..< length after]"
    and "df_headParentId fix' = [] \<or> df_headParentId fix' \<in> sids (take k rest)"
proof -
  obtain bl rest' anchor where sl: "split_loop after B h [0 ..< length after] [h] [] None = (bl, rest', anchor)"
    by (metis prod_cases3)
  have hB: "n_id (after ! h) \<in> B" using closure_loop_spec [of "{n_id (after ! h)}" after] by (simp add: B)
  note sp = split_loop_rows [OF h hB sl]
  have r: "rest' = rest" by (simp add: sp(2) rest)
  have "filter (\<lambda>n. n_id n \<notin> B) after = filter (\<lambda>n. n_id n \<notin> B) (take h after) @ filter (\<lambda>n. n_id n \<notin> B) (drop h after)"
    by (metis append_take_drop_id filter_append)
  then have kr: "k \<le> length rest" by (simp add: rest k)
  have dr: "distinct_ids rest" using d by (simp add: rest distinct_map_filter)
  let ?nd = "newDepth_of rest (Depths rest) anchor k oldDepth"
  let ?move = "\<lparr>bm_block = bl, bm_insertAt = k\<rparr>"
  have ins: "(case anchor of Some a \<Rightarrow> a + 1 | None \<Rightarrow> 0) = k"
    using sp(3) by (simp add: k Let_def split: if_splits)
  have N: "NormalizeAfterDrag after h oldDepth =
      (if ?nd > 0 then
         (case anchor of None \<Rightarrow> Threw
          | Some a \<Rightarrow> (case walk_up rest (Depths rest) (?nd - 1) a of None \<Rightarrow> Threw
             | Some cur \<Rightarrow> Fix \<lparr>df_move = ?move, df_headParentId = n_id (rest ! cur)\<rparr>))
       else Fix \<lparr>df_move = ?move, df_headParentId = []\<rparr>)"
    unfolding NormalizeAfterDrag_def B [symmetric] Let_def sl prod.case r ins using h by simp
  show ?thesis
  proof (cases "?nd > 0")
    case False
    with N show ?thesis by (intro that [of "\<lparr>df_move = ?move, df_headParentId = []\<rparr>"]) (simp_all add: sp)
  next
    case True
    then obtain a where a: "anchor = Some a" using newDepth_of_root by (cases anchor) auto
    have ak: "Suc a = k" using ins a by simp
    with kr have al: "a < length rest" by simp
    have nd: "?nd \<le> Depths rest ! a + 1" "?nd = Depths rest ! a + 1 \<Longrightarrow> \<not> n_separator (rest ! a)"
      using newDepth_of_anchor [of rest "Depths rest" a k oldDepth] a by auto
    obtain c where c: "walk_up rest (Depths rest) (?nd - 1) a = Some c" "c \<le> a" "Depths rest ! c = ?nd - 1"
      "c < a \<longrightarrow> \<not> n_separator (rest ! c)"
      using walk_up_spec [OF dr w al, of "?nd - 1"] True nd(1) by auto
    have "\<not> n_separator (rest ! c)" using c nd by (cases "c = a") auto
    moreover have "rest ! c \<in> set (take k rest)" using c(2) ak kr by (auto simp: in_set_conv_nth intro!: exI [of _ c])
    ultimately have "n_id (rest ! c) \<in> sids (take k rest)" by (auto simp: sids_def)
    with N True a c(1) show ?thesis
      by (intro that [of "\<lparr>df_move = ?move, df_headParentId = n_id (rest ! c)\<rparr>"]) (simp_all add: sp)
  qed
qed

lemma drag_wfs:
  assumes d: "distinct_ids ns" and w: "wfs {} ns" and m: "mset after = mset ns"
    and h: "h < length after" and hid: "hid = n_id (after ! h)"
    and same: "filter (\<lambda>n. n_id n \<noteq> hid) after = filter (\<lambda>n. n_id n \<noteq> hid) ns"
  obtains fix' B where "NormalizeAfterDrag after h oldDepth = Fix fix'"
    and "B = closure_loop after {hid}"
    and "apply_move (after[h := (after ! h)\<lparr>n_parentId := df_headParentId fix'\<rparr>]) (df_move fix') =
       filter (\<lambda>n. n_id n \<notin> B) (take h after) @ (after ! h)\<lparr>n_parentId := df_headParentId fix'\<rparr> #
       filter (\<lambda>n. n_id n \<in> B - {hid}) after @ filter (\<lambda>n. n_id n \<notin> B) (drop h after)"
    and "wfs {} (apply_move (after[h := (after ! h)\<lparr>n_parentId := df_headParentId fix'\<rparr>]) (df_move fix'))"
    and "distinct (bm_block (df_move fix'))" and "\<forall>i \<in> set (bm_block (df_move fix')). i < length after"
    and "bm_insertAt (df_move fix') \<le> length (nths after (- set (bm_block (df_move fix'))))"
proof -
  define B where "B = closure_loop after {hid}"
  define rest where "rest = filter (\<lambda>n. n_id n \<notin> B) after"
  define k where "k = length (filter (\<lambda>n. n_id n \<notin> B) (take h after))"
  have s: "set after = set ns" using m by (rule mset_eq_setD)
  have da: "distinct_ids after" using d m by (metis mset_eq_imp_distinct_iff mset_map)
  have Bn: "B = closure_loop ns {hid}" unfolding B_def using s by (rule closure_loop_set)
  have cl: "closed_under ns B" and hB: "hid \<in> B" using closure_loop_spec [of "{hid}" ns] by (auto simp: Bn)
  have sub: "filter P after = filter P ns" if "\<And>n. P n \<Longrightarrow> n_id n \<noteq> hid" for P
  proof -
    have "P = (\<lambda>n. n_id n \<noteq> hid \<and> P n)" using that by blast
    then show ?thesis using arg_cong [OF same, of "filter P"] unfolding filter_filter by simp
  qed
  have wr: "wfs {} rest"
    unfolding rest_def by (subst sub) (use hB in blast, rule drag_rest_wfs [OF w cl])
  obtain fx where f: "NormalizeAfterDrag after h oldDepth = Fix fx"
    and fi: "bm_insertAt (df_move fx) = k"
    and fb: "bm_block (df_move fx) = h # filter (\<lambda>i. n_id (after ! i) \<in> B \<and> i \<noteq> h) [0 ..< length after]"
    and fp: "df_headParentId fx = [] \<or> df_headParentId fx \<in> sids (take k rest)"
    using NormalizeAfterDrag_fix [OF da h B_def [unfolded hid] rest_def wr k_def] by blast
  let ?head = "(after ! h)\<lparr>n_parentId := df_headParentId fx\<rparr>"
  have fm: "df_move fx = \<lparr>bm_block = bm_block (df_move fx), bm_insertAt = k\<rparr>" using fi by simp
  have res: "apply_move (after[h := ?head]) (df_move fx) =
      take k rest @ ?head # filter (\<lambda>n. n_id n \<in> B - {hid}) after @ drop k rest"
    unfolding hid by (subst fm, rule drag_apply [OF da h _ fb rest_def]) (use hB hid in simp)
  have "rest = filter (\<lambda>n. n_id n \<notin> B) (take h after) @ filter (\<lambda>n. n_id n \<notin> B) (drop h after)"
    unfolding rest_def filter_append [symmetric] append_take_drop_id ..
  then have tk: "take k rest = filter (\<lambda>n. n_id n \<notin> B) (take h after)"
    and dk: "drop k rest = filter (\<lambda>n. n_id n \<notin> B) (drop h after)" by (simp_all add: k_def)
  have hd: "after ! h \<in> set ns" using h s by (metis nth_mem)
  have "wfs (if n_separator (after ! h) then sids (take k rest) else insert hid (sids (take k rest)))
      (filter (\<lambda>n. n_id n \<in> B - {hid}) ns)"
    by (rule drag_block_wfs [OF d w Bn, of "after ! h"]) (use hd hid in simp_all)
  moreover have "filter (\<lambda>n. n_id n \<in> B - {hid}) after = filter (\<lambda>n. n_id n \<in> B - {hid}) ns"
    by (rule sub) blast
  ultimately have "wfs (sids (take k rest)) (?head # filter (\<lambda>n. n_id n \<in> B - {hid}) after)"
    using fp hid by (simp split: if_splits)
  from wfs_insert_block [OF wr this] have "wfs {} (apply_move (after[h := ?head]) (df_move fx))"
    unfolding res by simp
  moreover have "nths after (- set (bm_block (df_move fx))) = rest"
    using drag_rest [OF _ fb rest_def, of "after ! h"] hB hid by simp
  moreover have "k \<le> length rest" using tk by (metis k_def length_take min.cobounded1)
  moreover have "distinct (bm_block (df_move fx))" "\<forall>i \<in> set (bm_block (df_move fx)). i < length after"
    using h by (auto simp: fb)
  ultimately show ?thesis using that [OF f B_def] res fi unfolding tk dk by simp
qed

subsection \<open>Single-row edits keep the tree well formed\<close>

abbreviation set_parent :: "wstring \<Rightarrow> node \<Rightarrow> node" where
  "set_parent p n \<equiv> n\<lparr>n_parentId := p\<rparr>"

lemma sids_take_update: "sids (take j (ns[i := set_parent p (ns ! i)])) = sids (take j ns)"
proof -
  have "map (\<lambda>n. (n_id n, n_separator n)) (take j (ns[i := set_parent p (ns ! i)]))
      = map (\<lambda>n. (n_id n, n_separator n)) (take j ns)"
    by (cases "i < length ns") (auto simp: list_eq_iff_nth_eq nth_list_update)
  moreover have "sids xs = fst ` (set (map (\<lambda>n. (n_id n, n_separator n)) xs) \<inter> {x. \<not> snd x})" for xs
    by (force simp: sids_def)
  ultimately show ?thesis by (simp only:)
qed

lemma wfs_set_parent:
  assumes "wfs {} ns" and "p = [] \<or> p \<in> sids (take i ns)"
  shows "wfs {} (ns[i := set_parent p (ns ! i)])"
proof (cases "i < length ns")
  case True
  then show ?thesis using assms by (auto simp: wfs_nth sids_take_update nth_list_update)
qed (use assms list_update_beyond [of ns i] in simp)

lemma indent_loop_spec:
  "indent_loop ns ds d i = Some p \<Longrightarrow> i \<le> length ns \<Longrightarrow>
   \<exists>j < i. n_id (ns ! j) = p \<and> \<not> n_separator (ns ! j) \<and> ds ! j = d \<and> (\<forall>k. j < k \<and> k < i \<longrightarrow> ds ! k \<ge> d \<and> (ds ! k = d \<longrightarrow> n_separator (ns ! k)))"
proof (induction i)
  case (Suc i)
  show ?case
  proof (cases "ds ! i = d \<and> \<not> n_separator (ns ! i)")
    case True
    with Suc.prems show ?thesis by (intro exI [of _ i]) auto
  next
    case False
    with Suc.prems have "indent_loop ns ds d i = Some p" "ds ! i \<ge> d" by (auto split: if_splits)
    with Suc obtain j where "j < i" "n_id (ns ! j) = p" "\<not> n_separator (ns ! j)" "ds ! j = d"
      "\<forall>k. j < k \<and> k < i \<longrightarrow> ds ! k \<ge> d \<and> (ds ! k = d \<longrightarrow> n_separator (ns ! k))" by auto
    then show ?thesis using False \<open>ds ! i \<ge> d\<close> by (intro exI [of _ j]) (auto simp: less_Suc_eq)
  qed
qed simp

lemma in_sids_take: "j < i \<Longrightarrow> i \<le> length ns \<Longrightarrow> \<not> n_separator (ns ! j) \<Longrightarrow> n_id (ns ! j) \<in> sids (take i ns)"
  by (auto simp: sids_def in_set_conv_nth intro!: exI [of _ "ns ! j"])

lemma IndentParent_spec:
  assumes "IndentParent ns i = Some p"
  shows "i < length ns \<and> (\<exists>j < i. n_id (ns ! j) = p \<and> \<not> n_separator (ns ! j) \<and> Depths ns ! j = Depths ns ! i \<and>
    (\<forall>k. j < k \<and> k < i \<longrightarrow> Depths ns ! k \<ge> Depths ns ! i \<and> (Depths ns ! k = Depths ns ! i \<longrightarrow> n_separator (ns ! k))))"
proof -
  from assms have i: "i < length ns" and l: "indent_loop ns (Depths ns) (Depths ns ! i) i = Some p"
    by (auto simp: IndentParent_def Let_def split: if_splits)
  with indent_loop_spec [OF l] show ?thesis by simp
qed

lemma indent_wfs:
  assumes "wfs {} ns" and "IndentParent ns i = Some p"
  shows "wfs {} (ns[i := set_parent p (ns ! i)])"
  using wfs_set_parent [OF assms(1)] IndentParent_spec [OF assms(2)] in_sids_take [of _ i ns] by auto

lemma OutdentParent_spec:
  assumes d: "distinct_ids ns" and w: "wfs {} ns" and "OutdentParent ns i = Some p"
  obtains j where "i < length ns" "j < i" "n_parentId (ns ! i) \<noteq> []"
    "n_id (ns ! j) = n_parentId (ns ! i)" "\<not> n_separator (ns ! j)" "p = n_parentId (ns ! j)"
proof -
  from assms(3) have i: "i < length ns" and pi: "n_parentId (ns ! i) \<noteq> []"
    and f: "(case find (\<lambda>n. n_id n = n_parentId (ns ! i)) ns of Some n \<Rightarrow> Some (n_parentId n) | None \<Rightarrow> Some []) = Some p"
    by (auto simp: OutdentParent_def split: if_splits)
  obtain j where j: "j < i" "n_id (ns ! j) = n_parentId (ns ! i)" "\<not> n_separator (ns ! j)"
    using wfs_parent [OF w i pi] by blast
  then have "find (\<lambda>n. n_id n = n_parentId (ns ! i)) ns = Some (ns ! j)"
    using i distinct_ids_nth [OF d, of _ j] by (auto simp: find_Some_iff intro!: exI [of _ j])
  with f j i pi that show ?thesis by simp
qed

lemma outdent_wfs:
  assumes d: "distinct_ids ns" and w: "wfs {} ns" and o: "OutdentParent ns i = Some p"
  shows "wfs {} (ns[i := set_parent p (ns ! i)])"
proof -
  obtain j where j: "i < length ns" "j < i" "p = n_parentId (ns ! j)"
    using OutdentParent_spec [OF assms] by blast
  then have "p = [] \<or> p \<in> sids (take j ns)" using w by (auto simp: wfs_nth)
  moreover have "sids (take j ns) \<subseteq> sids (take i ns)"
    using set_take_subset_set_take [of j i ns] j by (auto simp: sids_def)
  ultimately show ?thesis using wfs_set_parent [OF w] by blast
qed

text \<open>Deleting a row promotes its children to its parent.\<close>

definition promote :: "wstring \<Rightarrow> wstring \<Rightarrow> node \<Rightarrow> node" where
  "promote del p n = (if n_parentId n = del then set_parent p n else n)"

lemma promote_simps [simp]: "n_id (promote d p n) = n_id n" "n_separator (promote d p n) = n_separator n"
  by (simp_all add: promote_def)

lemma wfs_promote:
  assumes "wfs S ns" and "p = [] \<or> p \<in> T" and "S - {del} \<subseteq> T" and "del \<noteq> []" and "del \<notin> n_id ` set ns"
  shows "wfs T (map (promote del p) ns)"
  using assms
proof (induction ns arbitrary: S T)
  case (Cons n ns)
  let ?ins = "\<lambda>S. if n_separator n then S else insert (n_id n) S"
  have "wfs (?ins T) (map (promote del p) ns)"
    by (rule Cons.IH [of "?ins S"]) (use Cons.prems in auto)
  moreover have "n_parentId (promote del p n) = [] \<or> n_parentId (promote del p n) \<in> T"
    using Cons.prems by (auto simp: promote_def)
  ultimately show ?case by (simp split: if_splits)
qed simp

lemma wfs_delete_between:
  assumes d: "distinct_ids (pre @ r # post)" and w: "wfs {} (pre @ r # post)" and ne: "n_id r \<noteq> []"
  shows "wfs {} (map (promote (n_id r) (n_parentId r)) (pre @ post))"
proof -
  from w have wp: "wfs {} pre" and wq: "wfs (if n_separator r then sids pre else insert (n_id r) (sids pre)) post"
    and pr: "n_parentId r = [] \<or> n_parentId r \<in> sids pre" by (auto split: if_splits)
  from d have di: "n_id r \<notin> n_id ` set pre" "n_id r \<notin> n_id ` set post" by auto
  have "n_parentId n \<noteq> n_id r" if "n \<in> set pre" for n
  proof
    assume e: "n_parentId n = n_id r"
    from that obtain j where "j < length pre" "n = pre ! j" by (auto simp: in_set_conv_nth)
    with wp e ne have "n_id r \<in> sids (take j pre)" by (auto simp: wfs_nth)
    with di(1) show False by (auto simp: sids_def dest: in_set_takeD)
  qed
  then have "map (promote (n_id r) (n_parentId r)) pre = pre"
    by (intro map_idI) (simp add: promote_def)
  moreover have "wfs (sids pre) (map (promote (n_id r) (n_parentId r)) post)"
    by (rule wfs_promote [OF wq pr _ ne di(2)]) (auto split: if_splits)
  ultimately show ?thesis using wp by simp
qed

lemma delete_wfs:
  assumes "distinct_ids ns" and "wfs {} ns" and "i < length ns" and "n_id (ns ! i) \<noteq> []"
  shows "wfs {} (map (promote (n_id (ns ! i)) (n_parentId (ns ! i))) (take i ns @ drop (Suc i) ns))"
  by (rule wfs_delete_between) (use assms in \<open>simp_all only: id_take_nth_drop [symmetric] simp_thms\<close>)

text \<open>A copy goes in after the original's whole subtree.\<close>

lemma DuplicateInsertIndex_le: "DuplicateInsertIndex ns i \<le> length ns"
  using SubtreeEnd_spec(2) [of i ns] by (auto simp: DuplicateInsertIndex_def Suc_le_eq)

lemma duplicate_wfs:
  assumes w: "wfs {} ns" and i: "i < length ns" and p: "n_parentId c = n_parentId (ns ! i)"
  shows "wfs {} (take (DuplicateInsertIndex ns i) ns @ c # drop (DuplicateInsertIndex ns i) ns)"
proof -
  let ?k = "DuplicateInsertIndex ns i"
  have "i < ?k" using SubtreeEnd_spec(1) [OF i] i by (simp add: DuplicateInsertIndex_def)
  then have "sids (take i ns) \<subseteq> sids (take ?k ns)"
    using set_take_subset_set_take [of i ?k ns] by (auto simp: sids_def)
  moreover have "n_parentId c = [] \<or> n_parentId c \<in> sids (take i ns)" using w i p by (auto simp: wfs_nth)
  ultimately have "wfs (sids (take ?k ns)) [c]" by auto
  from wfs_insert_block [OF w this] show ?thesis by simp
qed

subsection \<open>Where a sibling move lands\<close>

lemma child_parent_unique:
  "distinct_ids ns \<Longrightarrow> child ns a c \<Longrightarrow> child ns b c \<Longrightarrow> a = b"
  using distinct_ids_nth [of ns a b] by (auto simp: child_def)

lemma ancestors_chain:
  assumes d: "distinct_ids ns" and "(child ns)\<^sup>*\<^sup>* a c" and "(child ns)\<^sup>*\<^sup>* b c"
  shows "(child ns)\<^sup>*\<^sup>* a b \<or> (child ns)\<^sup>*\<^sup>* b a"
  using assms(2,3)
proof (induction rule: rtranclp_induct)
  case (step y z)
  from step.prems show ?case
  proof (cases rule: rtranclp.cases)
    case (rtrancl_into_rtrancl w)
    then have "w = y" using child_parent_unique [OF d] step.hyps(2) by blast
    with rtrancl_into_rtrancl step.IH show ?thesis by simp
  qed (use step.hyps in auto)
qed simp

lemma sibling_subtrees_disjoint:
  assumes d: "distinct_ids ns" and w: "wfs {} ns" and "i < length ns" "s < length ns" "i \<noteq> s"
    and p: "n_parentId (ns ! s) = n_parentId (ns ! i)"
    and j: "j < length ns" "SubtreeMask ns i ! j"
  shows "\<not> SubtreeMask ns s ! j"
proof
  assume "SubtreeMask ns s ! j"
  have no: "\<not> (child ns)\<^sup>*\<^sup>* a b" if "a < length ns" "b < length ns" "a \<noteq> b"
    "n_parentId (ns ! b) = n_parentId (ns ! a)" for a b
    using that subtree_parent_in [of a ns b] subtree_root_parent_out [OF d w, of a]
    by (metis SubtreeMask_iff)
  have "(child ns)\<^sup>*\<^sup>* i s \<or> (child ns)\<^sup>*\<^sup>* s i"
    by (rule ancestors_chain [OF d, of _ j]) (use assms \<open>SubtreeMask ns s ! j\<close> in \<open>simp_all add: SubtreeMask_iff\<close>)
  with no [of i s] no [of s i] assms show False by auto
qed

lemma rest_nth:
  assumes bl: "bl = filter ((!) mv) [0 ..< length ns]" and t: "t < length ns" "\<not> mv ! t"
  shows "rest_count mv t < length (nths ns (- set bl)) \<and> nths ns (- set bl) ! rest_count mv t = ns ! t"
proof -
  have "nths (take (Suc t) ns) (- set bl) = nths (take t ns) (- set bl) @ [ns ! t]"
    using t by (simp add: take_Suc_conv_app_nth nths_append bl)
  moreover have "length (nths (take t ns) (- set bl)) = rest_count mv t"
    using length_nths_rest [OF _ bl] t(1) by simp
  moreover obtain r where "nths ns (- set bl) = nths (take (Suc t) ns) (- set bl) @ r"
    by (metis append_take_drop_id nths_append)
  ultimately show ?thesis by (simp add: nth_append)
qed

lemma rest_count_mono: "s \<le> t \<Longrightarrow> rest_count mv s \<le> rest_count mv t"
  by (metis le_add_diff_inverse length_append filter_append upt_add_eq_append le0 le_add1)

lemma move_lands:
  assumes d: "distinct_ids ns" and w: "wfs {} ns" and mv: "MoveAmongSiblings ns i up = Some m"
  obtains sib t where "(if up then PrevSibling ns i else NextSibling ns i) = Some sib"
    and "t < length ns" and "\<not> SubtreeMask ns i ! t" and "t = (if up then sib else SubtreeEnd ns sib)"
    and "bm_insertAt m = (if up then rest_count (SubtreeMask ns i) t else Suc (rest_count (SubtreeMask ns i) t))"
    and "sib < length ns" "sib \<noteq> i" "n_parentId (ns ! sib) = n_parentId (ns ! i)" "i < length ns"
proof -
  let ?mv = "SubtreeMask ns i"
  from mv obtain sib where
    sib: "(if up then PrevSibling ns i else NextSibling ns i) = Some sib"
    and m: "m = move_loop ?mv (SubtreeMask ns sib) sib up [0 ..< length ns] 0 \<lparr>bm_block = [], bm_insertAt = 0\<rparr>"
    by (auto simp: MoveAmongSiblings_def split: option.splits)
  let ?L = "lands ?mv (SubtreeMask ns sib) sib up" and ?t = "if up then sib else SubtreeEnd ns sib"
  from sib have i: "i < length ns" and sp: "n_parentId (ns ! sib) = n_parentId (ns ! i)"
    and sl: "sib < length ns" and ne: "i \<noteq> sib"
    by (auto simp: PrevSibling_def NextSibling_def find_down_Some_iff find_up_Some_iff split: if_splits)
  have t: "?t < length ns" "SubtreeMask ns sib ! ?t" using SubtreeEnd_spec [OF sl] sl by (auto simp: SubtreeMask_root)
  have nm: "\<not> ?mv ! ?t" using sibling_subtrees_disjoint [OF d w i sl ne sp t(1)] t(2) by blast
  have "find_down ?L (length ns) = Some ?t"
    using SubtreeEnd_spec [OF sl] t nm by (auto simp: find_down_Some_iff lands_def)
  then have ins: "bm_insertAt m = (if up then rest_count ?mv ?t else rest_count ?mv (Suc ?t))"
    using move_loop_insertAt [of 0 "length ns" ?mv "SubtreeMask ns sib" sib up] by (simp add: m)
  show ?thesis
    by (rule that [OF sib t(1) nm]) (use ins nm sl ne sp i in \<open>simp_all split: if_splits\<close>)
qed

lemma drag_ids_mset:
  assumes d: "distinct_ids after" and h: "h < length after" and hid: "hid = n_id (after ! h)" and "hid \<in> B"
    and r: "res = filter (\<lambda>n. n_id n \<notin> B) (take h after) @ set_parent p (after ! h) #
       filter (\<lambda>n. n_id n \<in> B - {hid}) after @ filter (\<lambda>n. n_id n \<notin> B) (drop h after)"
  shows "mset (map n_id res) = mset (map n_id after)"
proof -
  let ?post = "drop (Suc h) after"
  have a: "after = take h after @ after ! h # ?post" using h by (rule id_take_nth_drop)
  have dp: "drop h after = after ! h # ?post" using h by (simp add: Cons_nth_drop_Suc)
  have ne: "n_id n \<noteq> hid" if "n \<in> set (take h after) \<union> set ?post" for n
  proof -
    have "distinct_ids (take h after @ after ! h # ?post)" using d a by simp
    then have "hid \<notin> n_id ` (set (take h after) \<union> set ?post)" using hid by auto
    with that show ?thesis by blast
  qed
  let ?D = "\<lambda>xs. filter (\<lambda>n. n_id n \<in> B) xs" and ?R = "\<lambda>xs. filter (\<lambda>n. n_id n \<notin> B) xs"
  have "filter (\<lambda>n. n_id n \<in> B - {hid}) after
      = filter (\<lambda>n. n_id n \<in> B - {hid}) (take h after) @ filter (\<lambda>n. n_id n \<in> B - {hid}) ?post"
    using hid by (subst a) simp
  also have "\<dots> = ?D (take h after) @ ?D ?post"
    using ne by (auto intro!: arg_cong2 [of _ _ _ _ append] filter_cong)
  finally have e: "filter (\<lambda>n. n_id n \<in> B - {hid}) after = ?D (take h after) @ ?D ?post" .
  have part: "image_mset n_id (mset (?D xs)) + image_mset n_id (mset (?R xs)) = image_mset n_id (mset xs)" for xs
    by (induction xs) auto
  have "mset (map n_id res) = image_mset n_id (mset (take h after)) + {# hid #} + image_mset n_id (mset ?post)"
    unfolding r dp e part [of "take h after", symmetric] part [of ?post, symmetric] using assms(4) hid by (simp add: ac_simps del: mset_filter)
  also have "\<dots> = mset (map n_id (take h after @ after ! h # ?post))" using hid by simp
  finally show ?thesis using a by simp
qed

subsection \<open>Properties\<close>

text \<open>
  A sibling move (\<^verbatim>\<open>MoveAmongSiblings\<close>) of a well-formed tree with distinct ids loses and
  invents no row, gives a well-formed tree, and moves nothing but the row's own subtree: the other
  rows stay in their order, and the subtree (the rows reachable over the child relation) stays in
  its order as one run.
\<close>

lemma sibling_move_sound:
  assumes "distinct_ids ns" and "IsWellFormed ns" and "MoveAmongSiblings ns i up = Some m"
  shows "IsWellFormed (apply_move ns m) \<and> mset (apply_move ns m) = mset ns \<and>
    apply_move ns m =
      take (bm_insertAt m) (filter (\<lambda>n. n_id n \<notin> subtree_ids ns i) ns) @
      filter (\<lambda>n. n_id n \<in> subtree_ids ns i) ns @
      drop (bm_insertAt m) (filter (\<lambda>n. n_id n \<notin> subtree_ids ns i) ns) \<and>
    subtree_ids ns i = {n_id (ns ! j) | j. j < length ns \<and> (child ns)\<^sup>*\<^sup>* i j}"
proof (intro conjI)
  note bl = MoveAmongSiblings_block [OF assms(3)]
  have w: "wfs {} ns" using assms by (simp add: IsWellFormed_wfs)
  show m: "mset (apply_move ns m) = mset ns" by (rule mset_apply_move) (auto simp: bl)
  then have "distinct_ids (apply_move ns m)" using assms(1) by (metis mset_eq_imp_distinct_iff mset_map)
  then show "IsWellFormed (apply_move ns m)" using move_wfs [OF assms(1) w assms(3)] by (simp add: IsWellFormed_wfs)
  show "apply_move ns m =
      take (bm_insertAt m) (filter (\<lambda>n. n_id n \<notin> subtree_ids ns i) ns) @
      filter (\<lambda>n. n_id n \<in> subtree_ids ns i) ns @
      drop (bm_insertAt m) (filter (\<lambda>n. n_id n \<notin> subtree_ids ns i) ns)"
    using subtree_split [OF assms(1) bl] by (simp add: apply_move_def Let_def)
  show "subtree_ids ns i = {n_id (ns ! j) | j. j < length ns \<and> (child ns)\<^sup>*\<^sup>* i j}"
    using MoveAmongSiblings_index [OF assms(3)] by (auto simp: mask_ids_def SubtreeMask_iff)
qed

text \<open>
  Where the moved subtree lands: a move up puts it right before the previous sibling, a move
  down right after the last row of the next sibling's whole subtree.
\<close>

lemma sibling_move_position:
  assumes d: "distinct_ids ns" and wf: "IsWellFormed ns" and mv: "MoveAmongSiblings ns i up = Some m"
    and R: "R = filter (\<lambda>n. n_id n \<notin> subtree_ids ns i) ns"
  shows "\<exists>sib. (if up then PrevSibling ns i else NextSibling ns i) = Some sib \<and>
    (if up then bm_insertAt m < length R \<and> R ! bm_insertAt m = ns ! sib
     else 0 < bm_insertAt m \<and> bm_insertAt m \<le> length R \<and>
          R ! (bm_insertAt m - 1) = ns ! SubtreeEnd ns sib \<and>
          subtree_ids ns sib \<subseteq> n_id ` set (take (bm_insertAt m) R))"
proof -
  note bl = MoveAmongSiblings_block [OF mv]
  have w: "wfs {} ns" using d wf by (simp add: IsWellFormed_wfs)
  have R': "R = nths ns (- set (bm_block m))" unfolding R subtree_split(1) [OF d bl] by simp
  obtain sib t where s: "(if up then PrevSibling ns i else NextSibling ns i) = Some sib"
    and t: "t < length ns" "\<not> SubtreeMask ns i ! t" "t = (if up then sib else SubtreeEnd ns sib)"
    and ins: "bm_insertAt m = (if up then rest_count (SubtreeMask ns i) t else Suc (rest_count (SubtreeMask ns i) t))"
    and sl: "sib < length ns" "sib \<noteq> i" "n_parentId (ns ! sib) = n_parentId (ns ! i)" "i < length ns"
    by (rule move_lands [OF d w mv])
  note at = rest_nth [OF bl, folded R']
  have "n_id (ns ! j) \<in> n_id ` set (take (bm_insertAt m) R)" if "\<not> up" "j < length ns" "SubtreeMask ns sib ! j" for j
  proof -
    have "\<not> SubtreeMask ns i ! j" using sibling_subtrees_disjoint [OF d w sl(4,1) sl(2) [symmetric] sl(3)] that by blast
    moreover have "j \<le> t" using SubtreeEnd_spec(4) [OF sl(1), of j] t(3) that by (auto simp: not_less [symmetric])
    then have "rest_count (SubtreeMask ns i) j < bm_insertAt m" using ins that(1) rest_count_mono [of j t] by (simp add: le_imp_less_Suc)
    ultimately have "ns ! j \<in> set (take (bm_insertAt m) R)"
      using at [of j] that by (auto simp: in_set_conv_nth intro!: exI [of _ "rest_count (SubtreeMask ns i) j"])
    then show ?thesis by simp
  qed
  then show ?thesis using s at [OF t(1,2)] ins t(3) by (intro exI [of _ sib]) (auto simp: mask_ids_def)
qed

definition demo_row :: "string \<Rightarrow> string \<Rightarrow> node" where
  "demo_row i p = \<lparr>n_id = wlit i, n_parentId = wlit p, n_separator = False\<rparr>"

definition demo_tree :: "node list" where
  "demo_tree = [demo_row ''a'' [], demo_row ''b'' ''a'', demo_row ''c'' [], demo_row ''d'' ''c'', demo_row ''e'' []]"

lemma demo_facts:
  "distinct_ids demo_tree" "IsWellFormed demo_tree"
  "MoveAmongSiblings demo_tree 0 False = Some \<lparr>bm_block = [0, 1], bm_insertAt = 2\<rparr>"
  by code_simp+

text \<open>
  C25. A sibling move (\<^verbatim>\<open>MoveAmongSiblings\<close>) of a well-formed tree with distinct ids loses and
  invents no row, gives a well-formed tree and moves nothing but the row's own subtree, in its order
  and as one run. A move up puts it right before the previous sibling, a move down right after the
  last row of the next sibling's whole subtree.
\<close>

theorem MoveAmongSiblings_correct:
  assumes "distinct_ids ns" and "IsWellFormed ns" and "MoveAmongSiblings ns i up = Some m"
    and "R = filter (\<lambda>n. n_id n \<notin> subtree_ids ns i) ns"
  shows "IsWellFormed (apply_move ns m) \<and> mset (apply_move ns m) = mset ns \<and>
    apply_move ns m = take (bm_insertAt m) R @ filter (\<lambda>n. n_id n \<in> subtree_ids ns i) ns @ drop (bm_insertAt m) R \<and>
    subtree_ids ns i = {n_id (ns ! j) | j. j < length ns \<and> (child ns)\<^sup>*\<^sup>* i j} \<and>
    (\<exists>sib. (if up then PrevSibling ns i else NextSibling ns i) = Some sib \<and>
      (if up then bm_insertAt m < length R \<and> R ! bm_insertAt m = ns ! sib
       else 0 < bm_insertAt m \<and> bm_insertAt m \<le> length R \<and>
            R ! (bm_insertAt m - 1) = ns ! SubtreeEnd ns sib \<and>
            subtree_ids ns sib \<subseteq> n_id ` set (take (bm_insertAt m) R)))"
  using sibling_move_sound [OF assms(1-3)] sibling_move_position [OF assms] unfolding assms(4) by blast

theorem MoveAmongSiblings_correct_witness:
  "IsWellFormed (apply_move demo_tree \<lparr>bm_block = [0, 1], bm_insertAt = 2\<rparr>) \<and>
   (\<exists>sib. NextSibling demo_tree 0 = Some sib \<and>
     filter (\<lambda>n. n_id n \<notin> subtree_ids demo_tree 0) demo_tree ! 1 = demo_tree ! SubtreeEnd demo_tree sib)"
  using MoveAmongSiblings_correct [OF demo_facts refl] by auto

text \<open>
  C24. The drag fix-up (\<^verbatim>\<open>NormalizeAfterDrag\<close>). Take any well-formed tree with distinct ids and move
  one row, the head, to any place, as a list view does. Then the fix-up neither throws nor finds no
  row; applying it keeps every row and gives a well-formed tree in which the head stands where it
  was dropped relative to the rows outside its subtree, directly followed by its descendants in
  their old order.
\<close>

theorem NormalizeAfterDrag_sound:
  assumes d: "distinct_ids ns" and wf: "IsWellFormed ns" and m: "mset after = mset ns"
    and h: "h < length after" and hid: "hid = n_id (after ! h)"
    and same: "filter (\<lambda>n. n_id n \<noteq> hid) after = filter (\<lambda>n. n_id n \<noteq> hid) ns"
    and B: "B = closure_loop after {hid}"
  shows "\<exists>fix. NormalizeAfterDrag after h oldDepth = Fix fix \<and>
    (let head = set_parent (df_headParentId fix) (after ! h);
         result = apply_move (after[h := head]) (df_move fix)
     in IsWellFormed result \<and>
        result = filter (\<lambda>n. n_id n \<notin> B) (take h after) @ head #
          filter (\<lambda>n. n_id n \<in> B - {hid}) after @ filter (\<lambda>n. n_id n \<notin> B) (drop h after) \<and>
        mset (map n_id result) = mset (map n_id after))"
proof -
  have w: "wfs {} ns" using d wf by (simp add: IsWellFormed_wfs)
  obtain fix' B' where f: "NormalizeAfterDrag after h oldDepth = Fix fix'" and B': "B' = closure_loop after {hid}"
    and r: "apply_move (after[h := set_parent (df_headParentId fix') (after ! h)]) (df_move fix') =
       filter (\<lambda>n. n_id n \<notin> B') (take h after) @ set_parent (df_headParentId fix') (after ! h) #
       filter (\<lambda>n. n_id n \<in> B' - {hid}) after @ filter (\<lambda>n. n_id n \<notin> B') (drop h after)"
    and wr: "wfs {} (apply_move (after[h := set_parent (df_headParentId fix') (after ! h)]) (df_move fix'))"
    by (rule drag_wfs [OF d w m h hid same])
  let ?res = "apply_move (after[h := set_parent (df_headParentId fix') (after ! h)]) (df_move fix')"
  have "distinct_ids after" using d m by (metis mset_eq_imp_distinct_iff mset_map)
  moreover have "hid \<in> B'" using closure_loop_spec [of "{hid}" after] by (simp add: B')
  ultimately have ms: "mset (map n_id ?res) = mset (map n_id after)" using h hid r by (intro drag_ids_mset)
  have "distinct_ids ?res" using ms d m by (metis mset_eq_imp_distinct_iff mset_map)
  with wr have "IsWellFormed ?res" by (simp add: IsWellFormed_wfs)
  with f r ms show ?thesis unfolding B B' [symmetric] Let_def by blast
qed


theorem NormalizeAfterDrag_sound_witness:
  "\<exists>fix. NormalizeAfterDrag [demo_tree ! 1, demo_tree ! 2, demo_tree ! 3, demo_tree ! 0, demo_tree ! 4] 3 0 = Fix fix"
  using NormalizeAfterDrag_sound [OF demo_facts(1,2) _ _ refl _ refl,
    of "[demo_tree ! 1, demo_tree ! 2, demo_tree ! 3, demo_tree ! 0, demo_tree ! 4]" 3 0]
  by (simp add: demo_tree_def demo_row_def) blast

end
