(* ===== verification/Axan_StartupEditor.thy ===== *)
theory Axan_StartupEditor
  imports Complex_Main Axan_EntryTree
begin

text \<open>
  The startup-sessions page's view model,
  \<^verbatim>\<open>cascadia/TerminalSettingsEditor/StartupSessionsViewModel.cpp\<close>, with the row object it edits
  (\<^verbatim>\<open>LaunchEntryViewModel\<close> in \<^verbatim>\<open>ProfileViewModel.h/.cpp\<close>) and the settings entry it writes
  (\<^verbatim>\<open>LaunchEntry\<close>).

  Rows are shared objects: the list, the selection and the drag state all hold references. The
  model keeps a store from references to rows and lists of references, and a property setter
  updates the store and runs the handler \<^verbatim>\<open>_hookEntry\<close> installs. A WinRT vector access out of
  range and \<^verbatim>\<open>byId.at\<close> raise; here the operation is \<open>None\<close>. Change notifications to the view
  and log lines are left out. A fresh id (\<^verbatim>\<open>CreateGuid\<close>, the operating system) is an argument of
  the operations that draw one.

  Heights are \<^verbatim>\<open>double\<close> in the source; they are rationals with a \<open>NaN\<close> here, so rounding to
  tenths is exact.

  The lemmas show that the view model implements the tree rules of \<open>Axan_EntryTree\<close>: every
  operation keeps an invariant (distinct ids, a well-formed tree, displayed depths that agree with
  \<open>Depths\<close>, a settings tree equal to the rows), none of them raises under it, and the branch of
  \<open>NormalizeAfterDrag\<close> that the source calls unreachable is.
\<close>

subsection \<open>Rows and settings entries\<close>

datatype height = NaN | Num rat

record launch_entry =
  le_Id :: wstring
  le_ParentId :: wstring
  le_Profile :: wstring
  le_Name :: wstring
  le_Directory :: wstring
  le_Command :: wstring
  le_Icon :: wstring
  le_Color :: wstring
  le_ColorTarget :: wstring
  le_Kind :: wstring
  le_SeparatorStyle :: wstring
  le_Height :: height
  le_Placement :: wstring
  le_Collapsed :: bool
  le_Hoist :: wstring

definition empty_entry :: launch_entry where
  "empty_entry = \<lparr>le_Id = [], le_ParentId = [], le_Profile = [], le_Name = [], le_Directory = [],
     le_Command = [], le_Icon = [], le_Color = [], le_ColorTarget = [], le_Kind = [],
     le_SeparatorStyle = [], le_Height = Num 0, le_Placement = [], le_Collapsed = False, le_Hoist = []\<rparr>"

record row =
  r_Id :: wstring
  r_ParentId :: wstring
  r_Profile :: wstring
  r_Name :: wstring
  r_Directory :: wstring
  r_Command :: wstring
  r_Icon :: wstring
  r_Color :: wstring
  r_ColorTarget :: wstring
  r_Kind :: wstring
  r_SeparatorStyle :: wstring
  r_Height :: height
  r_Placement :: wstring
  r_Collapsed :: bool
  r_Hoist :: wstring
  r_Depth :: int

definition KindSeparatorW :: wstring where "KindSeparatorW = wlit ''separator''"
definition StyleLineW :: wstring where "StyleLineW = wlit ''line''"
definition PlacementInlineW :: wstring where "PlacementInlineW = wlit ''inline''"

definition NormalizeSeparatorHeight :: "height \<Rightarrow> height" where
  "NormalizeSeparatorHeight h =
     (case h of
        NaN \<Rightarrow> Num 1
      | Num x \<Rightarrow>
          if \<not> x > 0 then Num 1
          else let x' = (if x < 1 / 10 then 1 / 10 else if x > 10 then 10 else x)
               in Num (of_int \<lfloor>x' * 10 + 1 / 2\<rfloor> / 10))"

definition IsSeparator :: "row \<Rightarrow> bool" where
  "IsSeparator r \<longleftrightarrow> r_Kind r = KindSeparatorW"

definition rowFromModel :: "launch_entry \<Rightarrow> row" where
  "rowFromModel e = \<lparr>r_Id = le_Id e, r_ParentId = le_ParentId e, r_Profile = le_Profile e,
     r_Name = le_Name e, r_Directory = le_Directory e, r_Command = le_Command e, r_Icon = le_Icon e,
     r_Color = le_Color e, r_ColorTarget = le_ColorTarget e, r_Kind = le_Kind e,
     r_SeparatorStyle = le_SeparatorStyle e, r_Height = NormalizeSeparatorHeight (le_Height e),
     r_Placement = le_Placement e, r_Collapsed = le_Collapsed e, r_Hoist = le_Hoist e, r_Depth = 0\<rparr>"

definition modelFromRow :: "row \<Rightarrow> launch_entry" where
  "modelFromRow r = \<lparr>le_Id = r_Id r, le_ParentId = r_ParentId r, le_Profile = r_Profile r,
     le_Name = r_Name r, le_Directory = r_Directory r, le_Command = r_Command r, le_Icon = r_Icon r,
     le_Color = r_Color r, le_ColorTarget = r_ColorTarget r, le_Kind = r_Kind r,
     le_SeparatorStyle = r_SeparatorStyle r, le_Height = r_Height r, le_Placement = r_Placement r,
     le_Collapsed = r_Collapsed r, le_Hoist = (if IsSeparator r then [] else r_Hoist r)\<rparr>"

subsection \<open>The view model's state\<close>

type_synonym ref = nat

record settings =
  s_StartupSessions :: "launch_entry list option"
  s_DefaultProfile :: wstring

record editor =
  ed_store :: "ref \<Rightarrow> row"
  ed_next :: ref
  ed_settings :: "settings option"
  ed_Entries :: "ref list"
  ed_suspendCommit :: bool
  ed_selectedEntry :: "ref option"
  ed_dragging :: bool
  ed_dragWasSuspended :: bool
  ed_dragHead :: "ref option"
  ed_dragStartIndex :: "nat option"
  ed_dragOldDepth :: int

definition node_of :: "row \<Rightarrow> node" where
  "node_of r = \<lparr>n_id = r_Id r, n_parentId = r_ParentId r, n_separator = IsSeparator r\<rparr>"

definition rows :: "editor \<Rightarrow> row list" where
  "rows ed = map (ed_store ed) (ed_Entries ed)"

definition nodes :: "editor \<Rightarrow> node list" where
  "nodes ed = map node_of (rows ed)"

definition indexOf :: "editor \<Rightarrow> ref option \<Rightarrow> nat option" where
  "indexOf ed vm =
     (case vm of None \<Rightarrow> None
      | Some v \<Rightarrow> find_up (\<lambda>i. ed_Entries ed ! i = v) 0 (length (ed_Entries ed)))"

definition set_row :: "ref \<Rightarrow> (row \<Rightarrow> row) \<Rightarrow> editor \<Rightarrow> editor" where
  "set_row v f ed = ed\<lparr>ed_store := (ed_store ed)(v := f (ed_store ed v))\<rparr>"

definition new_row :: "row \<Rightarrow> editor \<Rightarrow> editor" where
  "new_row r ed = ed\<lparr>ed_store := (ed_store ed)(ed_next ed := r), ed_next := Suc (ed_next ed)\<rparr>"

definition select :: "ref option \<Rightarrow> editor \<Rightarrow> editor" where
  "select vm ed = ed\<lparr>ed_selectedEntry := vm\<rparr>"

definition commit :: "editor \<Rightarrow> editor" where
  "commit ed =
     (case ed_settings ed of
        None \<Rightarrow> ed
      | Some s \<Rightarrow> ed\<lparr>ed_settings := Some (s\<lparr>s_StartupSessions := Some (map modelFromRow (rows ed))\<rparr>)\<rparr>)"

text \<open>The handler of \<^verbatim>\<open>_hookEntry\<close>, run when a persisted field of a row changed.\<close>

definition row_changed :: "editor \<Rightarrow> editor" where
  "row_changed ed = (if ed_suspendCommit ed then ed else commit ed)"

definition set_ParentId :: "ref \<Rightarrow> wstring \<Rightarrow> editor \<Rightarrow> editor" where
  "set_ParentId v p ed =
     (if r_ParentId (ed_store ed v) \<noteq> p then row_changed (set_row v (\<lambda>r. r\<lparr>r_ParentId := p\<rparr>) ed) else ed)"

text \<open>\<^verbatim>\<open>_recomputeDepths\<close>; setting \<^verbatim>\<open>Depth\<close> raises only derived properties, so nothing commits.\<close>

fun recompute_loop :: "(wstring \<rightharpoonup> int) \<Rightarrow> ref list \<Rightarrow> editor \<Rightarrow> editor" where
  "recompute_loop depthById [] ed = ed"
| "recompute_loop depthById (v # vs) ed =
     (let r = ed_store ed v;
          depth = (if r_ParentId r \<noteq> [] then
                     (case depthById (r_ParentId r) of Some d \<Rightarrow> d + 1 | None \<Rightarrow> 0)
                   else 0)
      in recompute_loop (depthById(r_Id r \<mapsto> depth)) vs (set_row v (\<lambda>r. r\<lparr>r_Depth := depth\<rparr>) ed))"

definition recomputeDepths :: "editor \<Rightarrow> editor" where
  "recomputeDepths ed = recompute_loop Map.empty (ed_Entries ed) ed"

text \<open>Building rows for a list of model entries: the loop of the rebuild and of the capture.\<close>

fun append_rows :: "launch_entry list \<Rightarrow> ref list \<Rightarrow> editor \<Rightarrow> ref list \<times> editor" where
  "append_rows [] acc ed = (acc, ed)"
| "append_rows (e # es) acc ed = append_rows es (acc @ [ed_next ed]) (new_row (rowFromModel e) ed)"

definition rebuildFromSettings :: "editor \<Rightarrow> editor" where
  "rebuildFromSettings ed =
     (let entries = (case ed_settings ed of None \<Rightarrow> [] | Some s \<Rightarrow>
                       (case s_StartupSessions s of None \<Rightarrow> [] | Some es \<Rightarrow> es));
          (rws, ed1) = append_rows entries [] ed;
          ed2 = recomputeDepths (ed1\<lparr>ed_Entries := rws\<rparr>)
      in select (if rws \<noteq> [] then Some (rws ! 0) else None) ed2)"

definition init_editor :: "settings option \<Rightarrow> editor" where
  "init_editor s = rebuildFromSettings
     \<lparr>ed_store = (\<lambda>_. rowFromModel empty_entry), ed_next = 0, ed_settings = s, ed_Entries = [],
      ed_suspendCommit = False, ed_selectedEntry = None, ed_dragging = False,
      ed_dragWasSuspended = False, ed_dragHead = None, ed_dragStartIndex = None, ed_dragOldDepth = 0\<rparr>"

definition DefaultProfileGuid :: "editor \<Rightarrow> wstring" where
  "DefaultProfileGuid ed = (case ed_settings ed of None \<Rightarrow> [] | Some s \<Rightarrow> s_DefaultProfile s)"

subsection \<open>Block moves on the row vector\<close>

fun get_all :: "'a list \<Rightarrow> nat list \<Rightarrow> 'a list option" where
  "get_all xs [] = Some []"
| "get_all xs (i # is) =
     (case getAt xs i of None \<Rightarrow> None
      | Some x \<Rightarrow> (case get_all xs is of None \<Rightarrow> None | Some ys \<Rightarrow> Some (x # ys)))"

fun remove_all :: "'a list \<Rightarrow> nat list \<Rightarrow> 'a list option" where
  "remove_all xs [] = Some xs"
| "remove_all xs (i # is) = (case removeAt xs i of None \<Rightarrow> None | Some ys \<Rightarrow> remove_all ys is)"

fun insert_all :: "'a list \<Rightarrow> nat \<Rightarrow> 'a list \<Rightarrow> 'a list option" where
  "insert_all xs k [] = Some xs"
| "insert_all xs k (b # bs) =
     (case insertAt_list xs k b of None \<Rightarrow> None | Some ys \<Rightarrow> insert_all ys (Suc k) bs)"

definition applyBlockMove :: "'a list \<Rightarrow> block_move \<Rightarrow> 'a list option" where
  "applyBlockMove xs m =
     (case get_all xs (bm_block m) of None \<Rightarrow> None
      | Some block \<Rightarrow>
          (case remove_all xs (rev (sort (bm_block m))) of None \<Rightarrow> None
           | Some rest \<Rightarrow> insert_all rest (bm_insertAt m) block))"

subsection \<open>Operations\<close>

definition AddEntry :: "wstring \<Rightarrow> editor \<Rightarrow> editor" where
  "AddEntry newId ed =
     (let e = empty_entry\<lparr>le_Id := newId, le_Profile := DefaultProfileGuid ed\<rparr>;
          vm = ed_next ed;
          ed1 = new_row (rowFromModel e) ed;
          ed2 = ed1\<lparr>ed_Entries := ed_Entries ed1 @ [vm]\<rparr>
      in select (Some vm) (commit (recomputeDepths ed2)))"

definition AddSeparator :: "wstring \<Rightarrow> editor \<Rightarrow> editor" where
  "AddSeparator newId ed =
     (let e = empty_entry\<lparr>le_Id := newId, le_Kind := KindSeparatorW, le_SeparatorStyle := StyleLineW,
                le_Height := Num 1, le_Placement := PlacementInlineW\<rparr>;
          vm = ed_next ed;
          ed1 = new_row (rowFromModel e) ed;
          ed2 = ed1\<lparr>ed_Entries := ed_Entries ed1 @ [vm]\<rparr>
      in select (Some vm) (commit (recomputeDepths ed2)))"

fun promote_loop :: "wstring \<Rightarrow> wstring \<Rightarrow> ref list \<Rightarrow> editor \<Rightarrow> editor" where
  "promote_loop deletedId newParent [] ed = ed"
| "promote_loop deletedId newParent (v # vs) ed =
     promote_loop deletedId newParent vs
       (if r_ParentId (ed_store ed v) = deletedId then set_ParentId v newParent ed else ed)"

definition DeleteEntry :: "ref option \<Rightarrow> editor \<Rightarrow> editor option" where
  "DeleteEntry vm ed =
     (case (vm, indexOf ed vm) of
        (Some v, Some index) \<Rightarrow>
          (let ed1 = ed\<lparr>ed_suspendCommit := True\<rparr>;
               deletedId = r_Id (ed_store ed1 v);
               newParent = r_ParentId (ed_store ed1 v);
               ed2 = promote_loop deletedId newParent (ed_Entries ed1) ed1
           in case removeAt (ed_Entries ed2) index of
                None \<Rightarrow> None
              | Some es \<Rightarrow>
                  (let ed3 = commit ((recomputeDepths (ed2\<lparr>ed_Entries := es\<rparr>))\<lparr>ed_suspendCommit := False\<rparr>)
                   in case SelectionAfterDelete (nodes ed3) index newParent of
                        None \<Rightarrow> Some (select None ed3)
                      | Some next \<Rightarrow>
                          (case getAt (ed_Entries ed3) next of None \<Rightarrow> None
                           | Some w \<Rightarrow> Some (select (Some w) ed3))))
      | _ \<Rightarrow> Some ed)"

definition DuplicateEntry :: "wstring \<Rightarrow> ref option \<Rightarrow> editor \<Rightarrow> editor option" where
  "DuplicateEntry newId vm ed =
     (case (vm, indexOf ed vm) of
        (Some v, Some index) \<Rightarrow>
          (let model = (modelFromRow (ed_store ed v))\<lparr>le_Id := newId\<rparr>;
               copy = ed_next ed;
               ed1 = new_row (rowFromModel model) ed;
               pos = DuplicateInsertIndex (nodes ed1) index
           in case insertAt_list (ed_Entries ed1) pos copy of
                None \<Rightarrow> None
              | Some es \<Rightarrow> Some (select (Some copy) (commit (recomputeDepths (ed1\<lparr>ed_Entries := es\<rparr>)))))
      | _ \<Rightarrow> Some ed)"

definition reparent :: "ref \<Rightarrow> wstring \<Rightarrow> editor \<Rightarrow> editor" where
  "reparent v p ed =
     select (Some v)
       (commit ((recomputeDepths (set_ParentId v p (ed\<lparr>ed_suspendCommit := True\<rparr>)))\<lparr>ed_suspendCommit := False\<rparr>))"

definition IndentEntry :: "ref option \<Rightarrow> editor \<Rightarrow> editor" where
  "IndentEntry vm ed =
     (case (vm, indexOf ed vm) of
        (Some v, Some index) \<Rightarrow>
          (case IndentParent (nodes ed) index of None \<Rightarrow> ed | Some parent \<Rightarrow> reparent v parent ed)
      | _ \<Rightarrow> ed)"

definition OutdentEntry :: "ref option \<Rightarrow> editor \<Rightarrow> editor" where
  "OutdentEntry vm ed =
     (case (vm, indexOf ed vm) of
        (Some v, Some index) \<Rightarrow>
          (case OutdentParent (nodes ed) index of None \<Rightarrow> ed | Some parent \<Rightarrow> reparent v parent ed)
      | _ \<Rightarrow> ed)"

definition moveEntry :: "ref option \<Rightarrow> bool \<Rightarrow> editor \<Rightarrow> editor option" where
  "moveEntry vm up ed =
     (case indexOf ed vm of
        None \<Rightarrow> Some ed
      | Some index \<Rightarrow>
          (case MoveAmongSiblings (nodes ed) index up of
             None \<Rightarrow> Some ed
           | Some move \<Rightarrow>
               (case applyBlockMove (ed_Entries ed) move of
                  None \<Rightarrow> None
                | Some es \<Rightarrow> Some (select vm (commit (recomputeDepths (ed\<lparr>ed_Entries := es\<rparr>)))))))"

definition BeginDrag :: "ref option \<Rightarrow> editor \<Rightarrow> editor" where
  "BeginDrag head ed =
     (let ed1 = (if \<not> ed_dragging ed
                 then ed\<lparr>ed_dragWasSuspended := ed_suspendCommit ed, ed_suspendCommit := True, ed_dragging := True\<rparr>
                 else ed)
      in ed1\<lparr>ed_dragHead := head, ed_dragStartIndex := indexOf ed1 head,
             ed_dragOldDepth := (case head of Some h \<Rightarrow> r_Depth (ed_store ed1 h) | None \<Rightarrow> 0)\<rparr>)"

definition releaseCommit :: "bool \<Rightarrow> editor \<Rightarrow> editor" where
  "releaseCommit wasDragging ed = (if wasDragging then ed\<lparr>ed_suspendCommit := ed_dragWasSuspended ed\<rparr> else ed)"

text \<open>
  How \<open>NormalizeAfterDrag\<close> ended: nothing moved, the fix-up was applied, or the tree was restored
  from the settings. The view model only tells the last two apart in its log.
\<close>

datatype drag_outcome = NotMoved | Applied | Restored

definition NormalizeDrag :: "ref option \<Rightarrow> editor \<Rightarrow> (drag_outcome \<times> editor) option" where
  "NormalizeDrag head ed =
     (let startIndex = ed_dragStartIndex ed;
          oldDepth = ed_dragOldDepth ed;
          expected = ed_dragHead ed;
          wasDragging = ed_dragging ed;
          ed1 = ed\<lparr>ed_dragStartIndex := None, ed_dragHead := None, ed_dragging := False\<rparr>;
          index = indexOf ed1 head
      in case (head, index) of
           (Some h, Some i) \<Rightarrow>
             if head \<noteq> expected \<or> index = startIndex
             then Some (NotMoved, select (ed_selectedEntry ed1) (releaseCommit wasDragging ed1))
             else
               (let applied = (case NormalizeAfterDrag (nodes ed1) i oldDepth of
                                 Threw \<Rightarrow> None
                               | NoRow \<Rightarrow> Some ed1
                               | Fix fix' \<Rightarrow>
                                   (let ed2 = set_ParentId h (df_headParentId fix') ed1
                                    in case applyBlockMove (ed_Entries ed2) (df_move fix') of
                                         None \<Rightarrow> None
                                       | Some es \<Rightarrow> Some (ed2\<lparr>ed_Entries := es\<rparr>)))
                in case applied of
                     None \<Rightarrow> None
                   | Some ed3 \<Rightarrow>
                       (let ed4 = recomputeDepths ed3
                        in if \<not> IsWellFormed (nodes ed4)
                           then Some (Restored, rebuildFromSettings (releaseCommit wasDragging ed4))
                           else Some (Applied, select head (commit (releaseCommit wasDragging ed4)))))
         | _ \<Rightarrow> Some (NotMoved, select (ed_selectedEntry ed1) (releaseCommit wasDragging ed1)))"

text \<open>\<open>None\<close> from the provider is a null list (or no provider); the result is the count it returns.\<close>

definition CaptureLiveStartup :: "launch_entry list option \<Rightarrow> editor \<Rightarrow> nat \<times> editor" where
  "CaptureLiveStartup live ed =
     (case live of
        None \<Rightarrow> (0, ed)
      | Some [] \<Rightarrow> (0, ed)
      | Some entries \<Rightarrow>
          (let (rws, ed1) = append_rows entries [] ed;
               ed2 = commit (recomputeDepths (ed1\<lparr>ed_Entries := rws\<rparr>))
           in (length rws, select (Some (rws ! 0)) ed2)))"

definition CanMoveUp :: "editor \<Rightarrow> bool" where
  "CanMoveUp ed = (case indexOf ed (ed_selectedEntry ed) of None \<Rightarrow> False | Some i \<Rightarrow> PrevSibling (nodes ed) i \<noteq> None)"

definition CanMoveDown :: "editor \<Rightarrow> bool" where
  "CanMoveDown ed = (case indexOf ed (ed_selectedEntry ed) of None \<Rightarrow> False | Some i \<Rightarrow> NextSibling (nodes ed) i \<noteq> None)"

definition CanIndent :: "editor \<Rightarrow> bool" where
  "CanIndent ed = (case indexOf ed (ed_selectedEntry ed) of None \<Rightarrow> False | Some i \<Rightarrow> IndentParent (nodes ed) i \<noteq> None)"

definition CanOutdent :: "editor \<Rightarrow> bool" where
  "CanOutdent ed = (case indexOf ed (ed_selectedEntry ed) of None \<Rightarrow> False | Some i \<Rightarrow> OutdentParent (nodes ed) i \<noteq> None)"

subsection \<open>Block moves on the vector implement \<open>apply_move\<close>\<close>

lemma get_all_map: "\<forall>i \<in> set is. i < length xs \<Longrightarrow> get_all xs is = Some (map ((!) xs) is)"
  by (induction "is") (simp_all add: getAt_def)

lemma nths_minus_insert:
  assumes "i < length xs" and "S \<subseteq> {..< i}"
  shows "nths (take i xs @ drop (Suc i) xs) (- S) = nths xs (- insert i S)"
proof -
  have all: "{j. j + k \<in> - S} = UNIV" if "i \<le> k" for k using assms(2) that by auto
  have suf: "{j. Suc (j + i) \<in> - insert i S} = UNIV" using assms(2) by auto
  have pre: "nths (take i xs) (- S) = nths (take i xs) (- insert i S)"
    unfolding nths_conv_nth using assms(1) by (auto intro!: arg_cong [of _ _ "map _"] filter_cong)
  have "nths xs (- insert i S) = nths (take i xs @ xs ! i # drop (Suc i) xs) (- insert i S)"
    using assms(1) by (metis id_take_nth_drop)
  also have "\<dots> = nths (take i xs) (- insert i S) @ drop (Suc i) xs"
    using assms(1) suf by (simp add: nths_append nths_Cons nths_all)
  also have "\<dots> = nths (take i xs @ drop (Suc i) xs) (- S)"
    using assms(1) all [of i] by (simp add: nths_append nths_all pre)
  finally show ?thesis by simp
qed

lemma remove_all_descending:
  "sorted_wrt (>) is \<Longrightarrow> \<forall>i \<in> set is. i < length xs \<Longrightarrow> remove_all xs is = Some (nths xs (- set is))"
proof (induction "is" arbitrary: xs)
  case (Cons i is')
  let ?ys = "take i xs @ drop (Suc i) xs"
  from Cons.prems have "set is' \<subseteq> {..< i}" and i: "i < length xs" by auto
  moreover have "remove_all ?ys is' = Some (nths ?ys (- set is'))"
    by (rule Cons.IH) (use Cons.prems in auto)
  ultimately show ?case by (simp add: removeAt_def nths_minus_insert)
qed (simp add: nths_all)

lemma insert_all_run:
  "k \<le> length xs \<Longrightarrow> insert_all xs k bs = Some (take k xs @ bs @ drop k xs)"
  by (induction bs arbitrary: xs k) (simp_all add: insertAt_list_def)

lemma sorted_wrt_rev_sort: "distinct is \<Longrightarrow> sorted_wrt (>) (rev (sort (is :: nat list)))"
  by (simp add: sorted_wrt_rev strict_sorted_iff)

lemma applyBlockMove_eq:
  assumes "distinct (bm_block m)" and "\<forall>i \<in> set (bm_block m). i < length xs"
    and "bm_insertAt m \<le> length (nths xs (- set (bm_block m)))"
  shows "applyBlockMove xs m = Some (apply_move xs m)"
  using assms by (simp add: applyBlockMove_def get_all_map remove_all_descending sorted_wrt_rev_sort
      insert_all_run apply_move_def Let_def)

lemma apply_move_map:
  assumes "\<forall>i \<in> set (bm_block m). i < length xs"
  shows "map f (apply_move xs m) = apply_move (map f xs) m"
  using assms by (simp add: apply_move_def Let_def nths_map take_map drop_map)

lemma length_nths_map: "length (nths (map f xs) A) = length (nths xs A)"
  by (simp add: nths_map)

subsection \<open>Row bookkeeping\<close>

abbreviation keep_depth :: "row \<Rightarrow> row" where
  "keep_depth r \<equiv> r\<lparr>r_Depth := 0\<rparr>"

lemma node_of_depth [simp]: "node_of (r\<lparr>r_Depth := d\<rparr>) = node_of r"
  by (simp add: node_of_def IsSeparator_def)

lemma modelFromRow_depth [simp]: "modelFromRow (r\<lparr>r_Depth := d\<rparr>) = modelFromRow r"
  by (simp add: modelFromRow_def IsSeparator_def)

lemma node_of_simps [simp]:
  "n_id (node_of r) = r_Id r" "n_parentId (node_of r) = r_ParentId r" "n_separator (node_of r) = IsSeparator r"
  by (simp_all add: node_of_def)

lemma set_row_simps [simp]:
  "ed_store (set_row v f ed) = (ed_store ed)(v := f (ed_store ed v))"
  "ed_Entries (set_row v f ed) = ed_Entries ed" "ed_next (set_row v f ed) = ed_next ed"
  "ed_settings (set_row v f ed) = ed_settings ed" "ed_suspendCommit (set_row v f ed) = ed_suspendCommit ed"
  "ed_dragging (set_row v f ed) = ed_dragging ed" "ed_dragWasSuspended (set_row v f ed) = ed_dragWasSuspended ed"
  "ed_dragHead (set_row v f ed) = ed_dragHead ed" "ed_dragStartIndex (set_row v f ed) = ed_dragStartIndex ed"
  "ed_selectedEntry (set_row v f ed) = ed_selectedEntry ed" "ed_dragOldDepth (set_row v f ed) = ed_dragOldDepth ed"
  by (simp_all add: set_row_def)

text \<open>What a state shares with another when only the store's depths may differ.\<close>

definition same_but_depths :: "editor \<Rightarrow> editor \<Rightarrow> bool" where
  "same_but_depths a b \<longleftrightarrow> a\<lparr>ed_store := \<lambda>_. rowFromModel empty_entry\<rparr> = b\<lparr>ed_store := \<lambda>_. rowFromModel empty_entry\<rparr> \<and>
     (\<forall>v. keep_depth (ed_store a v) = keep_depth (ed_store b v))"

lemma recompute_loop_same: "same_but_depths (recompute_loop m vs ed) ed"
proof (induction vs arbitrary: m ed)
  case (Cons v vs)
  have "same_but_depths (set_row v (\<lambda>r. r\<lparr>r_Depth := d\<rparr>) ed) ed" for d
    by (simp add: same_but_depths_def set_row_def)
  with Cons.IH show ?case by (simp add: Let_def same_but_depths_def del: set_row_simps)
qed (simp add: same_but_depths_def)

lemma recompute_loop_out: "v \<notin> set vs \<Longrightarrow> ed_store (recompute_loop m vs ed) v = ed_store ed v"
  by (induction vs arbitrary: m ed) (simp_all add: Let_def)

lemma recompute_loop_depths:
  "distinct vs \<Longrightarrow> map (\<lambda>v. r_Depth (ed_store (recompute_loop m vs ed) v)) vs
     = depths_loop m (map (\<lambda>v. node_of (ed_store ed v)) vs)"
proof (induction vs arbitrary: m ed)
  case (Cons v vs)
  define d where "d = depth_step m (node_of (ed_store ed v))"
  define ed' where "ed' = set_row v (\<lambda>r. r\<lparr>r_Depth := d\<rparr>) ed"
  define m' where "m' = m(r_Id (ed_store ed v) \<mapsto> d)"
  have d: "(if r_ParentId (ed_store ed v) \<noteq> []
      then case m (r_ParentId (ed_store ed v)) of None \<Rightarrow> 0 | Some d \<Rightarrow> d + 1 else 0) = d"
    by (simp add: depth_step_def d_def)
  have r: "recompute_loop m (v # vs) ed = recompute_loop m' vs ed'"
    unfolding recompute_loop.simps Let_def d m'_def ed'_def ..
  have "map (\<lambda>w. node_of (ed_store ed' w)) vs = map (\<lambda>w. node_of (ed_store ed w)) vs"
    using Cons.prems by (auto simp: ed'_def)
  moreover have "r_Depth (ed_store (recompute_loop m' vs ed') v) = d"
    using Cons.prems by (subst recompute_loop_out) (simp_all add: ed'_def)
  moreover have "depths_loop m (map (\<lambda>v. node_of (ed_store ed v)) (v # vs)) = d # depths_loop m' (map (\<lambda>v. node_of (ed_store ed v)) vs)"
    unfolding list.map depths_loop.simps Let_def d_def [symmetric] m'_def node_of_simps ..
  ultimately show ?case using Cons.IH [of m' ed'] Cons.prems unfolding r by (simp del: map_eq_conv depths_loop.simps)
qed simp

lemma same_but_depthsD:
  assumes "same_but_depths a b"
  shows "ed_Entries a = ed_Entries b" "ed_next a = ed_next b" "ed_settings a = ed_settings b"
    "ed_suspendCommit a = ed_suspendCommit b" "ed_dragging a = ed_dragging b"
    "ed_dragWasSuspended a = ed_dragWasSuspended b" "ed_dragHead a = ed_dragHead b"
    "ed_dragStartIndex a = ed_dragStartIndex b" "nodes a = nodes b"
    "map modelFromRow (rows a) = map modelFromRow (rows b)" "ed_selectedEntry a = ed_selectedEntry b"
proof -
  have e: "a\<lparr>ed_store := \<lambda>_. rowFromModel empty_entry\<rparr> = b\<lparr>ed_store := \<lambda>_. rowFromModel empty_entry\<rparr>"
    and s: "keep_depth (ed_store a v) = keep_depth (ed_store b v)" for v
    using assms by (auto simp: same_but_depths_def)
  have n: "node_of (ed_store a v) = node_of (ed_store b v)" "modelFromRow (ed_store a v) = modelFromRow (ed_store b v)" for v
    using s [of v] by (metis node_of_depth, metis modelFromRow_depth)
  show "ed_Entries a = ed_Entries b" "ed_next a = ed_next b" "ed_settings a = ed_settings b"
    "ed_suspendCommit a = ed_suspendCommit b" "ed_dragging a = ed_dragging b"
    "ed_dragWasSuspended a = ed_dragWasSuspended b" "ed_dragHead a = ed_dragHead b"
    "ed_dragStartIndex a = ed_dragStartIndex b" "ed_selectedEntry a = ed_selectedEntry b"
    using e by (cases a; cases b; simp)+
  then show "nodes a = nodes b" "map modelFromRow (rows a) = map modelFromRow (rows b)"
    by (simp_all add: nodes_def rows_def n)
qed

lemmas recompute_same = same_but_depthsD [OF recompute_loop_same, of Map.empty "ed_Entries ed" ed for ed,
  folded recomputeDepths_def]

lemma recomputeDepths_depths:
  "distinct (ed_Entries ed) \<Longrightarrow> map r_Depth (rows (recomputeDepths ed)) = Depths (nodes ed)"
  using recompute_loop_depths [of "ed_Entries ed" Map.empty ed] same_but_depthsD(1) [OF recompute_loop_same]
  by (simp add: recomputeDepths_def rows_def nodes_def Depths_def o_def)

subsection \<open>The invariant\<close>

definition tree_ok :: "node list \<Rightarrow> bool" where
  "tree_ok ns \<longleftrightarrow> distinct_ids ns \<and> (\<forall>n \<in> set ns. n_id n \<noteq> []) \<and> wfs {} ns"

definition ed_inv :: "editor \<Rightarrow> bool" where
  "ed_inv ed \<longleftrightarrow> distinct (ed_Entries ed) \<and> (\<forall>v \<in> set (ed_Entries ed). v < ed_next ed) \<and>
     tree_ok (nodes ed) \<and> map r_Depth (rows ed) = Depths (nodes ed)"

text \<open>
  The settings hold what the page shows: reopening the page from them gives the same entries.
  Opening normalizes an entry (its height, and a separator carries no hoist rule), hence the
  \<open>modelFromRow (rowFromModel e)\<close>.
\<close>

definition reopened :: "launch_entry \<Rightarrow> launch_entry" where
  "reopened e = modelFromRow (rowFromModel e)"

definition saved :: "editor \<Rightarrow> bool" where
  "saved ed \<longleftrightarrow> (case ed_settings ed of None \<Rightarrow> True
     | Some s \<Rightarrow> map reopened (case s_StartupSessions s of None \<Rightarrow> [] | Some es \<Rightarrow> es) = map modelFromRow (rows ed))"

definition idle_ok :: "editor \<Rightarrow> bool" where
  "idle_ok ed \<longleftrightarrow> ed_inv ed \<and> saved ed \<and> (\<forall>v. \<exists>e. r_Height (ed_store ed v) = NormalizeSeparatorHeight e) \<and>
     \<not> ed_dragging ed \<and> \<not> ed_suspendCommit ed"

lemma Normalize_idem [simp]: "NormalizeSeparatorHeight (NormalizeSeparatorHeight h) = NormalizeSeparatorHeight h"
proof (cases h)
  case (Num x)
  show ?thesis
  proof (cases "x > 0")
    case True
    define y where "y = (if x < 1 / 10 then 1 / 10 else if x > 10 then 10 else x)"
    define k where "k = \<lfloor>y * 10 + 1 / 2\<rfloor>"
    have "1 / 10 \<le> y" "y \<le> 10" by (auto simp: y_def)
    then have k: "1 \<le> k" "k \<le> 100" by (auto simp: k_def le_floor_iff floor_le_iff)
    have n: "NormalizeSeparatorHeight h = Num (of_int k / 10)"
      using Num True by (simp add: NormalizeSeparatorHeight_def Let_def k_def y_def)
    have "(of_int k :: rat) \<ge> 1" "(of_int k :: rat) \<le> 100" using k by (simp_all add: of_int_le_iff [of k 100, simplified])
    moreover have "\<lfloor>(of_int k :: rat) + 1 / 2\<rfloor> = k" by (simp add: floor_eq_iff)
    ultimately have "NormalizeSeparatorHeight (Num (of_int k / 10)) = Num (of_int k / 10)"
      by (simp add: NormalizeSeparatorHeight_def Let_def)
    then show ?thesis by (simp only: n)
  qed (simp_all add: Num NormalizeSeparatorHeight_def floor_eq_iff)
qed (simp add: NormalizeSeparatorHeight_def floor_eq_iff)

lemma reopened_model:
  "r_Height r = NormalizeSeparatorHeight e \<Longrightarrow> reopened (modelFromRow r) = modelFromRow r"
  by (simp add: reopened_def rowFromModel_def modelFromRow_def IsSeparator_def)

lemma flag_simps [simp]:
  "rows (ed\<lparr>ed_suspendCommit := b\<rparr>) = rows ed" "nodes (ed\<lparr>ed_suspendCommit := b\<rparr>) = nodes ed"
  by (simp_all add: rows_def nodes_def)

lemma commit_simps [simp]:
  "ed_store (commit ed) = ed_store ed" "ed_Entries (commit ed) = ed_Entries ed" "ed_next (commit ed) = ed_next ed"
  "ed_suspendCommit (commit ed) = ed_suspendCommit ed" "ed_dragging (commit ed) = ed_dragging ed"
  "rows (commit ed) = rows ed" "nodes (commit ed) = nodes ed"
  by (simp_all add: commit_def rows_def nodes_def split: option.splits)

lemma select_simps [simp]:
  "ed_store (select v ed) = ed_store ed" "ed_Entries (select v ed) = ed_Entries ed" "ed_next (select v ed) = ed_next ed"
  "ed_suspendCommit (select v ed) = ed_suspendCommit ed" "ed_dragging (select v ed) = ed_dragging ed"
  "ed_settings (select v ed) = ed_settings ed"
  "rows (select v ed) = rows ed" "nodes (select v ed) = nodes ed"
  by (simp_all add: select_def rows_def nodes_def)

lemma recompute_simps [simp]:
  "ed_Entries (recomputeDepths ed) = ed_Entries ed" "ed_next (recomputeDepths ed) = ed_next ed"
  "ed_settings (recomputeDepths ed) = ed_settings ed" "ed_suspendCommit (recomputeDepths ed) = ed_suspendCommit ed"
  "ed_dragging (recomputeDepths ed) = ed_dragging ed" "nodes (recomputeDepths ed) = nodes ed"
  by (simp_all add: recompute_same del: map_eq_conv)

lemma recompute_height [simp]: "r_Height (ed_store (recomputeDepths ed) v) = r_Height (ed_store ed v)"
proof -
  have "keep_depth (ed_store (recomputeDepths ed) v) = keep_depth (ed_store ed v)"
    using recompute_loop_same [of Map.empty "ed_Entries ed" ed] by (simp add: recomputeDepths_def same_but_depths_def)
  then have "r_Height (keep_depth (ed_store (recomputeDepths ed) v)) = r_Height (keep_depth (ed_store ed v))" by simp
  then show ?thesis by simp
qed

text \<open>Every structural operation ends in this sequence; it establishes the invariant.\<close>

lemma finish_ok:
  assumes "distinct (ed_Entries ed)" and "\<forall>v \<in> set (ed_Entries ed). v < ed_next ed" and "tree_ok (nodes ed)"
    and "\<forall>v. \<exists>e. r_Height (ed_store ed v) = NormalizeSeparatorHeight e"
    and "\<not> ed_dragging ed"
  shows "idle_ok (select v (commit ((recomputeDepths ed)\<lparr>ed_suspendCommit := False\<rparr>)))"
proof -
  let ?e = "(recomputeDepths ed)\<lparr>ed_suspendCommit := False\<rparr>"
  have r: "rows ?e = rows (recomputeDepths ed)" and n: "nodes ?e = nodes ed" by simp_all
  have "saved (commit ?e)"
  proof (cases "ed_settings ed")
    case (Some s)
    have "reopened (modelFromRow r) = modelFromRow r" if "r \<in> set (rows ?e)" for r
    proof -
      from that obtain v where "r = ed_store ?e v" by (auto simp: rows_def)
      moreover from assms(4) obtain h where "r_Height (ed_store ed v) = NormalizeSeparatorHeight h" by blast
      ultimately have "r_Height r = NormalizeSeparatorHeight h" by simp
      then show ?thesis by (rule reopened_model)
    qed
    then have "map reopened (map modelFromRow (rows ?e)) = map modelFromRow (rows ?e)"
      by (intro map_idI) auto
    moreover have "ed_settings (commit ?e) = Some (s\<lparr>s_StartupSessions := Some (map modelFromRow (rows ?e))\<rparr>)"
      using Some by (simp add: commit_def)
    ultimately show ?thesis unfolding saved_def by simp
  qed (simp add: saved_def commit_def)
  then have "saved (select v (commit ?e))" unfolding saved_def select_simps .
  moreover have "ed_inv (select v (commit ?e))"
    using assms recomputeDepths_depths [OF assms(1)] by (simp add: ed_inv_def n r)
  ultimately show ?thesis using assms(4,5) by (simp add: idle_ok_def)
qed


lemma finish_ok':
  assumes "distinct (ed_Entries ed)" and "\<forall>v \<in> set (ed_Entries ed). v < ed_next ed" and "tree_ok (nodes ed)"
    and "\<forall>v. \<exists>e. r_Height (ed_store ed v) = NormalizeSeparatorHeight e"
    and "\<not> ed_dragging ed" and "\<not> ed_suspendCommit ed"
  shows "idle_ok (select v (commit (recomputeDepths ed)))"
proof -
  have "(recomputeDepths ed)\<lparr>ed_suspendCommit := False\<rparr> = recomputeDepths ed"
    using assms(6) recompute_simps(4) [of ed] by (cases "recomputeDepths ed") simp
  with finish_ok [OF assms(1-5), of v] show ?thesis by simp
qed

lemma indexOf_Some:
  "indexOf ed (Some v) = Some i \<Longrightarrow> i < length (ed_Entries ed) \<and> ed_Entries ed ! i = v"
  by (auto simp: indexOf_def find_up_Some_iff)

lemma indexOf_None: "indexOf ed (Some v) = None \<longleftrightarrow> v \<notin> set (ed_Entries ed)"
  by (auto simp: indexOf_def find_up_None_iff in_set_conv_nth)

lemma indexOf_nth: "distinct (ed_Entries ed) \<Longrightarrow> i < length (ed_Entries ed) \<Longrightarrow> indexOf ed (Some (ed_Entries ed ! i)) = Some i"
  by (auto simp: indexOf_def find_up_Some_iff nth_eq_iff_index_eq)

lemma length_nodes [simp]: "length (nodes ed) = length (ed_Entries ed)"
  by (simp add: nodes_def rows_def)

lemma nodes_nth: "i < length (ed_Entries ed) \<Longrightarrow> nodes ed ! i = node_of (ed_store ed (ed_Entries ed ! i))"
  by (simp add: nodes_def rows_def)

lemma map_fun_upd_nth:
  "distinct xs \<Longrightarrow> i < length xs \<Longrightarrow> map (f(xs ! i := y)) xs = (map f xs)[i := y]"
  by (auto simp: list_eq_iff_nth_eq nth_list_update nth_eq_iff_index_eq)

lemma set_ParentId_suspended:
  "ed_suspendCommit ed \<Longrightarrow> set_ParentId v p ed = set_row v (\<lambda>r. r\<lparr>r_ParentId := p\<rparr>) ed"
  by (auto simp: set_ParentId_def row_changed_def set_row_def)

lemma node_of_parent [simp]: "node_of (r\<lparr>r_ParentId := p\<rparr>) = set_parent p (node_of r)"
  by (simp add: node_of_def IsSeparator_def)

lemma nodes_set_parent:
  assumes "distinct (ed_Entries ed)" and "i < length (ed_Entries ed)" and "ed_Entries ed ! i = v"
  shows "nodes (set_row v (\<lambda>r. r\<lparr>r_ParentId := p\<rparr>) ed) = (nodes ed)[i := set_parent p (nodes ed ! i)]"
  using assms map_fun_upd_nth [OF assms(1,2), of "ed_store ed"]
  by (simp add: nodes_def rows_def map_update)

lemma idle_okD:
  assumes "idle_ok ed"
  shows "distinct (ed_Entries ed)" "\<forall>v \<in> set (ed_Entries ed). v < ed_next ed" "tree_ok (nodes ed)"
    "\<forall>v. \<exists>e. r_Height (ed_store ed v) = NormalizeSeparatorHeight e" "\<not> ed_dragging ed" "\<not> ed_suspendCommit ed"
    "map r_Depth (rows ed) = Depths (nodes ed)" "saved ed"
  using assms by (auto simp: idle_ok_def ed_inv_def)

lemma reparent_ok:
  assumes ok: "idle_ok ed" and i: "indexOf ed (Some v) = Some i"
    and w: "wfs {} ((nodes ed)[i := set_parent p (nodes ed ! i)])"
  shows "idle_ok (reparent v p ed)"
proof -
  note I = idle_okD [OF ok] and ix = indexOf_Some [OF i]
  let ?ed = "set_row v (\<lambda>r. r\<lparr>r_ParentId := p\<rparr>) (ed\<lparr>ed_suspendCommit := True\<rparr>)"
  have n: "nodes ?ed = (nodes ed)[i := set_parent p (nodes ed ! i)]"
    using nodes_set_parent [of "ed\<lparr>ed_suspendCommit := True\<rparr>" i v p] I(1) ix by simp
  have "map n_id ((nodes ed)[i := set_parent p (nodes ed ! i)]) = map n_id (nodes ed)"
    using ix by (simp add: map_update list_update_same_conv)
  moreover have "n_id n \<noteq> []" if "n \<in> set ((nodes ed)[i := set_parent p (nodes ed ! i)])" for n
  proof -
    have "n_id n \<in> n_id ` set (nodes ed)" using that calculation by (metis imageI list.set_map)
    then show ?thesis using I(3) by (auto simp: tree_ok_def)
  qed
  ultimately have "tree_ok (nodes ?ed)" using I(3) w by (simp add: tree_ok_def n)
  then show ?thesis
    unfolding reparent_def by (subst set_ParentId_suspended, simp) (rule finish_ok, use I in auto)
qed

text \<open>
  The interface between the two reparenting commands and the tree rules: a rule that names a new
  parent for a row keeps the tree well formed. The command built on any such rule keeps the
  editor's invariant.
\<close>

locale reparent_rule =
  fixes newParent :: "node list \<Rightarrow> nat \<Rightarrow> wstring option"
  assumes newParent_wfs: "distinct_ids ns \<Longrightarrow> wfs {} ns \<Longrightarrow> newParent ns i = Some p
    \<Longrightarrow> wfs {} (ns[i := set_parent p (ns ! i)])"
begin

lemma reparent_command_ok:
  assumes "idle_ok ed"
  shows "idle_ok (case (vm, indexOf ed vm) of
        (Some v, Some index) \<Rightarrow>
          (case newParent (nodes ed) index of None \<Rightarrow> ed | Some parent \<Rightarrow> reparent v parent ed)
      | _ \<Rightarrow> ed)"
  using assms idle_okD(3) [OF assms] newParent_wfs [of "nodes ed"]
  by (auto simp: tree_ok_def intro: reparent_ok split: option.splits)

end

interpretation indent: reparent_rule IndentParent
  by unfold_locales (rule indent_wfs)

interpretation outdent: reparent_rule OutdentParent
  by unfold_locales (rule outdent_wfs)

lemma IndentEntry_ok: "idle_ok ed \<Longrightarrow> idle_ok (IndentEntry vm ed)"
  unfolding IndentEntry_def by (rule indent.reparent_command_ok)

lemma OutdentEntry_ok: "idle_ok ed \<Longrightarrow> idle_ok (OutdentEntry vm ed)"
  unfolding OutdentEntry_def by (rule outdent.reparent_command_ok)

subsection \<open>The operations keep the invariant\<close>

lemma new_row_simps [simp]:
  "ed_store (new_row r ed) = (ed_store ed)(ed_next ed := r)" "ed_next (new_row r ed) = Suc (ed_next ed)"
  "ed_Entries (new_row r ed) = ed_Entries ed" "ed_settings (new_row r ed) = ed_settings ed"
  "ed_suspendCommit (new_row r ed) = ed_suspendCommit ed" "ed_dragging (new_row r ed) = ed_dragging ed"
  by (simp_all add: new_row_def)

lemma nodes_Entries: "nodes (ed\<lparr>ed_Entries := es\<rparr>) = map (\<lambda>v. node_of (ed_store ed v)) es"
  by (simp add: nodes_def rows_def)

lemma nodes_map: "nodes ed = map (\<lambda>v. node_of (ed_store ed v)) (ed_Entries ed)"
  by (simp add: nodes_def rows_def)

lemma height_rowFromModel: "r_Height (rowFromModel e) = NormalizeSeparatorHeight (le_Height e)"
  by (simp add: rowFromModel_def)

lemma node_rowFromModel:
  "node_of (rowFromModel e) = \<lparr>n_id = le_Id e, n_parentId = le_ParentId e, n_separator = (le_Kind e = KindSeparatorW)\<rparr>"
  by (simp add: node_of_def rowFromModel_def IsSeparator_def)

text \<open>
  Inserting one freshly built row at position \<open>k\<close>, then recomputing, committing and selecting:
  the tail of the two add commands and of duplicate.
\<close>

lemma insert_row_ok:
  assumes ok: "idle_ok ed" and r: "r = rowFromModel e"
    and t: "tree_ok (take k (nodes ed) @ node_of r # drop k (nodes ed))"
  shows "idle_ok (select v (commit (recomputeDepths
    ((new_row r ed)\<lparr>ed_Entries := take k (ed_Entries ed) @ ed_next ed # drop k (ed_Entries ed)\<rparr>))))"
proof -
  note I = idle_okD [OF ok]
  let ?es = "take k (ed_Entries ed) @ ed_next ed # drop k (ed_Entries ed)"
  have nw: "ed_next ed \<notin> set (ed_Entries ed)" using I(2) by auto
  then have nt: "ed_next ed \<notin> set (take k (ed_Entries ed))" "ed_next ed \<notin> set (drop k (ed_Entries ed))"
    by (auto dest: in_set_takeD in_set_dropD)
  have d: "distinct ?es"
    using I(1) nt set_take_disj_set_drop_if_distinct [OF I(1), of k k] by (simp add: Int_commute)
  have s: "set ?es = insert (ed_next ed) (set (ed_Entries ed))"
    by (metis Un_insert_right append_take_drop_id list.simps(15) set_append)
  have "nodes ((new_row r ed)\<lparr>ed_Entries := ?es\<rparr>) = take k (nodes ed) @ node_of r # drop k (nodes ed)"
    using nt by (auto simp: nodes_map take_map drop_map)
  with t d s I show ?thesis
    by (intro finish_ok') (auto simp: r height_rowFromModel less_Suc_eq)
qed

lemma tree_ok_append_root:
  assumes "tree_ok ns" and "n_id n \<notin> n_id ` set ns" and "n_id n \<noteq> []" and "n_parentId n = []"
  shows "tree_ok (ns @ [n])"
  using assms by (auto simp: tree_ok_def)

definition fresh_id :: "wstring \<Rightarrow> editor \<Rightarrow> bool" where
  "fresh_id i ed \<longleftrightarrow> i \<noteq> [] \<and> i \<notin> n_id ` set (nodes ed)"

lemma AddEntry_ok: "idle_ok ed \<Longrightarrow> fresh_id i ed \<Longrightarrow> idle_ok (AddEntry i ed)"
  using insert_row_ok [of ed _ _ "length (ed_Entries ed)", OF _ refl]
  by (simp add: AddEntry_def Let_def node_rowFromModel tree_ok_append_root fresh_id_def idle_okD empty_entry_def)

lemma AddSeparator_ok: "idle_ok ed \<Longrightarrow> fresh_id i ed \<Longrightarrow> idle_ok (AddSeparator i ed)"
  using insert_row_ok [of ed _ _ "length (ed_Entries ed)", OF _ refl]
  by (simp add: AddSeparator_def Let_def node_rowFromModel tree_ok_append_root fresh_id_def idle_okD empty_entry_def)

lemma DuplicateEntry_ok:
  assumes ok: "idle_ok ed" and f: "fresh_id newId ed"
  shows "\<exists>ed'. DuplicateEntry newId vm ed = Some ed' \<and> idle_ok ed'"
proof (cases "\<exists>v i. vm = Some v \<and> indexOf ed vm = Some i")
  case True
  then obtain v i where v: "vm = Some v" "indexOf ed (Some v) = Some i" by auto
  note I = idle_okD [OF ok] and ix = indexOf_Some [OF v(2)]
  define k where "k = DuplicateInsertIndex (nodes ed) i"
  define e where "e = (modelFromRow (ed_store ed v))\<lparr>le_Id := newId\<rparr>"
  have n: "nodes (new_row (rowFromModel e) ed) = nodes ed" using I(2) by (auto simp: nodes_map)
  have kl: "k \<le> length (ed_Entries ed)" using DuplicateInsertIndex_le [of "nodes ed" i] by (simp add: k_def)
  have p: "node_of (rowFromModel e) = (nodes ed ! i)\<lparr>n_id := newId\<rparr>"
    using ix by (simp add: rowFromModel_def e_def modelFromRow_def nodes_nth node_of_def IsSeparator_def)
  have s: "set (take k (nodes ed)) \<union> set (drop k (nodes ed)) = set (nodes ed)"
    by (metis append_take_drop_id set_append)
  have di: "distinct_ids (take k (nodes ed) @ node_of (rowFromModel e) # drop k (nodes ed))"
  proof -
    have "distinct (take k (map n_id (nodes ed)) @ drop k (map n_id (nodes ed)))" using I(3) by (simp add: tree_ok_def)
    moreover have "newId \<notin> n_id ` (set (take k (nodes ed)) \<union> set (drop k (nodes ed)))" using f unfolding s by (simp add: fresh_id_def)
    ultimately show ?thesis by (auto simp: p take_map drop_map)
  qed
  have "wfs {} (take k (nodes ed) @ node_of (rowFromModel e) # drop k (nodes ed))"
    unfolding k_def by (rule duplicate_wfs) (use I(3) ix p in \<open>auto simp: tree_ok_def\<close>)
  with di s f I(3) have "tree_ok (take k (nodes ed) @ node_of (rowFromModel e) # drop k (nodes ed))"
    by (auto simp: tree_ok_def fresh_id_def p dest: in_set_takeD in_set_dropD)
  from insert_row_ok [OF ok refl this] show ?thesis
    using kl by (simp add: DuplicateEntry_def v Let_def e_def [symmetric] n k_def [symmetric] insertAt_list_def)
qed (use ok in \<open>auto simp: DuplicateEntry_def split: option.splits\<close>)

lemma moveEntry_ok:
  assumes ok: "idle_ok ed"
  shows "\<exists>ed'. moveEntry vm up ed = Some ed' \<and> idle_ok ed'"
proof (cases "indexOf ed vm")
  case None
  with ok show ?thesis by (simp add: moveEntry_def)
next
  case (Some i)
  note I = idle_okD [OF ok]
  show ?thesis
  proof (cases "MoveAmongSiblings (nodes ed) i up")
    case None
    with ok Some show ?thesis by (simp add: moveEntry_def)
  next
    case m: (Some m)
    have T: "distinct_ids (nodes ed)" "wfs {} (nodes ed)" using I(3) by (auto simp: tree_ok_def)
    note bl = MoveAmongSiblings_block [OF m]
    have b: "distinct (bm_block m)" "\<forall>i \<in> set (bm_block m). i < length (ed_Entries ed)" by (auto simp: bl)
    obtain t where "t \<le> length (nodes ed)" "bm_insertAt m = rest_count (SubtreeMask (nodes ed) i) t"
      using move_target [OF T m] by blast
    then have "bm_insertAt m \<le> length (nths (nodes ed) (- set (bm_block m)))"
      using length_nths_rest [of "length (nodes ed)" "nodes ed" "bm_block m"] bl rest_count_mono by fastforce
    then have a: "applyBlockMove (ed_Entries ed) m = Some (apply_move (ed_Entries ed) m)"
      using b by (intro applyBlockMove_eq) (simp_all add: nodes_map length_nths_map)
    have ms: "mset (apply_move (ed_Entries ed) m) = mset (ed_Entries ed)" using b by (intro mset_apply_move) auto
    have n: "nodes (ed\<lparr>ed_Entries := apply_move (ed_Entries ed) m\<rparr>) = apply_move (nodes ed) m"
      using apply_move_map [OF b(2)] by (simp add: nodes_map)
    have "mset (apply_move (nodes ed) m) = mset (nodes ed)" using b by (intro mset_apply_move) auto
    then have "tree_ok (apply_move (nodes ed) m)"
      using I(3) move_wfs [OF T m] by (auto simp: tree_ok_def dest: mset_eq_setD)
        (metis mset_eq_imp_distinct_iff mset_map)
    then have "idle_ok (select vm (commit (recomputeDepths (ed\<lparr>ed_Entries := apply_move (ed_Entries ed) m\<rparr>))))"
      using I ms by (intro finish_ok') (auto simp: n dest: mset_eq_setD mset_eq_imp_distinct_iff)
    then show ?thesis using Some m a by (simp add: moveEntry_def)
  qed
qed


lemma promote_loop_suspended:
  assumes "ed_suspendCommit ed" and "distinct vs"
  shows "promote_loop d p vs ed = ed\<lparr>ed_store := \<lambda>v. if v \<in> set vs \<and> r_ParentId (ed_store ed v) = d
    then (ed_store ed v)\<lparr>r_ParentId := p\<rparr> else ed_store ed v\<rparr>"
  using assms
proof (induction vs arbitrary: ed)
  case (Cons v vs)
  let ?ed = "if r_ParentId (ed_store ed v) = d then set_ParentId v p ed else ed"
  have s: "ed_suspendCommit ?ed" and st: "?ed = ed\<lparr>ed_store := (ed_store ed)(v := ed_store ?ed v)\<rparr>"
    and u: "ed_store ?ed v = (if r_ParentId (ed_store ed v) = d then (ed_store ed v)\<lparr>r_ParentId := p\<rparr> else ed_store ed v)"
    using Cons.prems(1) by (auto simp: set_ParentId_suspended set_row_def)
  have "promote_loop d p (v # vs) ed = promote_loop d p vs ?ed" by simp
  also have "\<dots> = ?ed\<lparr>ed_store := \<lambda>w. if w \<in> set vs \<and> r_ParentId (ed_store ?ed w) = d
      then (ed_store ?ed w)\<lparr>r_ParentId := p\<rparr> else ed_store ?ed w\<rparr>"
    by (rule Cons.IH) (use s Cons.prems in auto)
  also have "\<dots> = ed\<lparr>ed_store := \<lambda>w. if w \<in> set (v # vs) \<and> r_ParentId (ed_store ed w) = d
      then (ed_store ed w)\<lparr>r_ParentId := p\<rparr> else ed_store ed w\<rparr>"
  proof -
    have "ed_store ?ed w = ((ed_store ed)(v := ed_store ?ed v)) w" for w by (subst st) simp
    then have "(\<lambda>w. if w \<in> set vs \<and> r_ParentId (ed_store ?ed w) = d
        then (ed_store ?ed w)\<lparr>r_ParentId := p\<rparr> else ed_store ?ed w) =
      (\<lambda>w. if w \<in> set (v # vs) \<and> r_ParentId (ed_store ed w) = d
        then (ed_store ed w)\<lparr>r_ParentId := p\<rparr> else ed_store ed w)"
      using Cons.prems(2) u by (auto simp: fun_eq_iff)
    then show ?thesis by (subst st) simp
  qed
  finally show ?case .
qed simp

lemma promote_loop_nodes:
  assumes "ed_suspendCommit ed" and "distinct (ed_Entries ed)"
  shows "nodes (promote_loop d p (ed_Entries ed) ed) = map (promote d p) (nodes ed)"
  using assms by (auto simp: promote_loop_suspended nodes_map promote_def)

lemma SelectionAfterDelete_less: "SelectionAfterDelete ns i p = Some k \<Longrightarrow> k < length ns"
  by (auto simp: SelectionAfterDelete_def find_up_Some_iff min_less_iff_disj split: option.splits if_splits)

lemma tree_ok_delete:
  assumes "tree_ok ns" and "i < length ns"
  shows "tree_ok (map (promote (n_id (ns ! i)) (n_parentId (ns ! i))) (take i ns @ drop (Suc i) ns))"
proof -
  let ?f = "promote (n_id (ns ! i)) (n_parentId (ns ! i))"
  have "map n_id (map ?f (take i ns @ drop (Suc i) ns)) = take i (map n_id ns) @ drop (Suc i) (map n_id ns)"
    by (simp add: take_map drop_map o_def)
  moreover have "distinct (take i (map n_id ns) @ drop (Suc i) (map n_id ns))"
    using assms set_take_disj_set_drop_if_distinct [of "map n_id ns" i "Suc i"] by (simp add: tree_ok_def)
  moreover have "wfs {} (map ?f (take i ns @ drop (Suc i) ns))"
    using assms by (intro delete_wfs) (auto simp: tree_ok_def)
  ultimately show ?thesis using assms(1) unfolding tree_ok_def by (auto dest: in_set_takeD in_set_dropD)
qed

lemma DeleteEntry_ok:
  assumes ok: "idle_ok ed"
  shows "\<exists>ed'. DeleteEntry vm ed = Some ed' \<and> idle_ok ed'"
proof (cases "\<exists>v i. vm = Some v \<and> indexOf ed vm = Some i")
  case True
  then obtain v i where v: "vm = Some v" "indexOf ed (Some v) = Some i" by auto
  note I = idle_okD [OF ok] and ix = indexOf_Some [OF v(2)]
  define ed2 where "ed2 = promote_loop (r_Id (ed_store ed v)) (r_ParentId (ed_store ed v)) (ed_Entries ed) (ed\<lparr>ed_suspendCommit := True\<rparr>)"
  define es where "es = take i (ed_Entries ed) @ drop (Suc i) (ed_Entries ed)"
  define ed3 where "ed3 = commit ((recomputeDepths (ed2\<lparr>ed_Entries := es\<rparr>))\<lparr>ed_suspendCommit := False\<rparr>)"
  have e2: "ed_Entries ed2 = ed_Entries ed" "ed_next ed2 = ed_next ed" "ed_dragging ed2 = ed_dragging ed"
    and h2: "r_Height (ed_store ed2 w) = r_Height (ed_store ed w)" for w
    using I(1) by (simp_all add: ed2_def promote_loop_suspended)
  have n2: "nodes ed2 = map (promote (n_id (nodes ed ! i)) (n_parentId (nodes ed ! i))) (nodes ed)"
    using promote_loop_nodes [of "ed\<lparr>ed_suspendCommit := True\<rparr>"] I(1) ix by (simp add: ed2_def nodes_nth)
  have "nodes (ed2\<lparr>ed_Entries := es\<rparr>) = take i (nodes ed2) @ drop (Suc i) (nodes ed2)"
    by (simp add: nodes_map es_def e2 take_map drop_map)
  then have t: "tree_ok (nodes (ed2\<lparr>ed_Entries := es\<rparr>))"
    using tree_ok_delete [OF I(3), of i] ix by (simp add: n2 take_map drop_map)
  have de: "distinct es" using I(1) set_take_disj_set_drop_if_distinct [of "ed_Entries ed" i "Suc i"] by (simp add: es_def)
  have "\<forall>w. \<exists>e. r_Height (ed_store ed2 w) = NormalizeSeparatorHeight e" using I(4) h2 by simp
  then have ok3: "idle_ok (select w ed3)" for w
    unfolding ed3_def using I(2,5) t de e2 by (intro finish_ok) (auto simp: es_def dest: in_set_takeD in_set_dropD)
  have "DeleteEntry vm ed = (case SelectionAfterDelete (nodes ed3) i (r_ParentId (ed_store ed v)) of
       None \<Rightarrow> Some (select None ed3)
     | Some next \<Rightarrow> (case getAt (ed_Entries ed3) next of None \<Rightarrow> None | Some w \<Rightarrow> Some (select (Some w) ed3)))"
  proof -
    have pl: "promote_loop (r_Id (ed_store (ed\<lparr>ed_suspendCommit := True\<rparr>) v))
        (r_ParentId (ed_store (ed\<lparr>ed_suspendCommit := True\<rparr>) v)) (ed_Entries (ed\<lparr>ed_suspendCommit := True\<rparr>))
        (ed\<lparr>ed_suspendCommit := True\<rparr>) = ed2" by (simp add: ed2_def)
    have rm: "removeAt (ed_Entries ed2) i = Some es" using ix by (simp add: e2 removeAt_def es_def)
    show ?thesis
      unfolding DeleteEntry_def Let_def v prod.case option.case pl rm ed3_def [symmetric] by simp
  qed
  then show ?thesis
    using ok3 SelectionAfterDelete_less [of "nodes ed3"] by (auto simp: getAt_def split: option.splits)
qed (use ok in \<open>auto simp: DeleteEntry_def split: option.splits\<close>)

lemma append_rows_spec:
  assumes "append_rows es acc ed = (rs, ed')"
  shows "rs = acc @ [ed_next ed ..< ed_next ed + length es]" and "ed_next ed' = ed_next ed + length es"
    and "map (ed_store ed') [ed_next ed ..< ed_next ed + length es] = map rowFromModel es"
    and "\<And>v. v < ed_next ed \<Longrightarrow> ed_store ed' v = ed_store ed v"
    and "ed_dragging ed' = ed_dragging ed" and "ed_suspendCommit ed' = ed_suspendCommit ed"
    and "ed_settings ed' = ed_settings ed"
    and "\<forall>v. \<exists>e. r_Height (ed_store ed v) = NormalizeSeparatorHeight e \<Longrightarrow>
         \<forall>v. \<exists>e. r_Height (ed_store ed' v) = NormalizeSeparatorHeight e"
proof -
  have "rs = acc @ [ed_next ed ..< ed_next ed + length es] \<and> ed_next ed' = ed_next ed + length es \<and>
    map (ed_store ed') [ed_next ed ..< ed_next ed + length es] = map rowFromModel es \<and>
    (\<forall>v < ed_next ed. ed_store ed' v = ed_store ed v) \<and> ed_dragging ed' = ed_dragging ed \<and>
    ed_suspendCommit ed' = ed_suspendCommit ed \<and> ed_settings ed' = ed_settings ed \<and>
    ((\<forall>v. \<exists>e. r_Height (ed_store ed v) = NormalizeSeparatorHeight e) \<longrightarrow>
     (\<forall>v. \<exists>e. r_Height (ed_store ed' v) = NormalizeSeparatorHeight e))"
    using assms
  proof (induction es arbitrary: acc ed)
    case (Cons e es)
    let ?ed = "new_row (rowFromModel e) ed"
    from Cons.prems have "append_rows es (acc @ [ed_next ed]) ?ed = (rs, ed')" by simp
    note IH = Cons.IH [OF this]
    have "(\<forall>v. \<exists>e. r_Height (ed_store ed v) = NormalizeSeparatorHeight e) \<longrightarrow>
        (\<forall>v. \<exists>e. r_Height (ed_store ?ed v) = NormalizeSeparatorHeight e)"
      by (auto simp: height_rowFromModel)
    moreover have "[ed_next ed ..< ed_next ed + length (e # es)] = ed_next ed # [Suc (ed_next ed) ..< Suc (ed_next ed) + length es]"
      by (subst upt_conv_Cons) simp_all
    ultimately show ?case using IH by (simp del: upt_Suc)
  qed simp
  then show "rs = acc @ [ed_next ed ..< ed_next ed + length es]" and "ed_next ed' = ed_next ed + length es"
    and "map (ed_store ed') [ed_next ed ..< ed_next ed + length es] = map rowFromModel es"
    and "\<And>v. v < ed_next ed \<Longrightarrow> ed_store ed' v = ed_store ed v"
    and "ed_dragging ed' = ed_dragging ed" and "ed_suspendCommit ed' = ed_suspendCommit ed"
    and "ed_settings ed' = ed_settings ed"
    and "\<forall>v. \<exists>e. r_Height (ed_store ed v) = NormalizeSeparatorHeight e \<Longrightarrow>
         \<forall>v. \<exists>e. r_Height (ed_store ed' v) = NormalizeSeparatorHeight e"
    by blast+
qed

definition entry_node :: "launch_entry \<Rightarrow> node" where
  "entry_node e = node_of (rowFromModel e)"

lemma append_rows_nodes:
  assumes "append_rows es [] ed = (rs, ed')"
  shows "nodes (ed'\<lparr>ed_Entries := rs\<rparr>) = map entry_node es" "distinct rs" "\<forall>v \<in> set rs. v < ed_next ed'"
    "length rs = length es" "map modelFromRow (rows (ed'\<lparr>ed_Entries := rs\<rparr>)) = map reopened es"
proof -
  note S = append_rows_spec [OF assms]
  have m: "map (ed_store ed') rs = map rowFromModel es" using S(1,3) by simp
  then have "rows (ed'\<lparr>ed_Entries := rs\<rparr>) = map rowFromModel es" by (simp add: rows_def del: map_eq_conv)
  then show "nodes (ed'\<lparr>ed_Entries := rs\<rparr>) = map entry_node es"
    and "map modelFromRow (rows (ed'\<lparr>ed_Entries := rs\<rparr>)) = map reopened es"
    by (simp_all add: nodes_def entry_node_def reopened_def)
  show "distinct rs" "\<forall>v \<in> set rs. v < ed_next ed'" "length rs = length es" using S(1,2) by auto
qed

lemma CaptureLiveStartup_ok:
  assumes ok: "idle_ok ed" and t: "\<And>es. live = Some es \<Longrightarrow> tree_ok (map entry_node es)"
  shows "idle_ok (snd (CaptureLiveStartup live ed))"
proof (cases "live = None \<or> live = Some []")
  case True
  with ok show ?thesis by (auto simp: CaptureLiveStartup_def)
next
  case False
  then obtain e es where l: "live = Some (e # es)" by (metis neq_Nil_conv not_None_eq)
  obtain rs ed1 where a: "append_rows (e # es) [] ed = (rs, ed1)" by (cases "append_rows (e # es) [] ed")
  note S = append_rows_spec [OF a] and N = append_rows_nodes [OF a] and I = idle_okD [OF ok]
  have "idle_ok (select (Some (rs ! 0)) (commit (recomputeDepths (ed1\<lparr>ed_Entries := rs\<rparr>))))"
    by (rule finish_ok') (use N S I t [OF l] in auto)
  then show ?thesis using l a by (simp add: CaptureLiveStartup_def del: append_rows.simps)
qed

lemma recompute_idle_ok:
  assumes "distinct (ed_Entries ed)" "\<forall>v \<in> set (ed_Entries ed). v < ed_next ed" "tree_ok (nodes ed)" "saved ed"
    "\<forall>v. \<exists>e. r_Height (ed_store ed v) = NormalizeSeparatorHeight e" "\<not> ed_dragging ed" "\<not> ed_suspendCommit ed"
  shows "idle_ok (select v (recomputeDepths ed))"
proof -
  have "map modelFromRow (rows (recomputeDepths ed)) = map modelFromRow (rows ed)" by (rule recompute_same(10))
  then have "saved (select v (recomputeDepths ed))"
    using assms(4) unfolding saved_def select_simps recompute_simps by (simp only:)
  with assms recomputeDepths_depths [OF assms(1)] show ?thesis by (simp add: idle_ok_def ed_inv_def)
qed

lemma init_editor_ok:
  assumes "\<And>s es. st = Some s \<Longrightarrow> s_StartupSessions s = Some es \<Longrightarrow> tree_ok (map entry_node es)"
  shows "idle_ok (init_editor st)"
proof -
  define es where "es = (case st of None \<Rightarrow> [] | Some s \<Rightarrow> (case s_StartupSessions s of None \<Rightarrow> [] | Some es \<Rightarrow> es))"
  have t: "tree_ok (map entry_node es)"
    using assms by (auto simp: es_def tree_ok_def split: option.splits)
  let ?ed = "\<lparr>ed_store = (\<lambda>_. rowFromModel empty_entry), ed_next = 0, ed_settings = st, ed_Entries = [],
      ed_suspendCommit = False, ed_selectedEntry = None, ed_dragging = False,
      ed_dragWasSuspended = False, ed_dragHead = None, ed_dragStartIndex = None, ed_dragOldDepth = 0\<rparr>"
  obtain rs ed1 where a: "append_rows es [] ?ed = (rs, ed1)" by (cases "append_rows es [] ?ed")
  note S = append_rows_spec [OF a] and N = append_rows_nodes [OF a]
  have "saved (ed1\<lparr>ed_Entries := rs\<rparr>)"
    using N(5) S(7) unfolding saved_def by (auto simp: es_def split: option.splits simp del: map_eq_conv)
  moreover have "\<forall>v. \<exists>e. r_Height (ed_store ed1 v) = NormalizeSeparatorHeight e"
    by (rule S(8)) (auto simp: height_rowFromModel)
  ultimately have "idle_ok (select v (recomputeDepths (ed1\<lparr>ed_Entries := rs\<rparr>)))" for v
    using S N t by (intro recompute_idle_ok) auto
  then show ?thesis using a by (simp add: init_editor_def rebuildFromSettings_def es_def)
qed

subsection \<open>Dragging\<close>

text \<open>The row list with the row \<open>h\<close> taken out and put in at \<open>k\<close>.\<close>

definition put_at :: "ref \<Rightarrow> nat \<Rightarrow> ref list \<Rightarrow> ref list" where
  "put_at h k es = take k (remove1 h es) @ h # drop k (remove1 h es)"

text \<open>
  While a drag runs, the rows with the dragged head put back where the drag started form a good
  idle state: the list view has moved nothing else, and nothing was committed.
\<close>

definition drag_ok :: "editor \<Rightarrow> bool" where
  "drag_ok ed \<longleftrightarrow> ed_dragging ed \<and> ed_suspendCommit ed \<and> \<not> ed_dragWasSuspended ed \<and>
     (\<exists>h k. ed_dragHead ed = Some h \<and> h \<in> set (ed_Entries ed) \<and> ed_dragStartIndex ed = Some k \<and>
        k < length (ed_Entries ed) \<and>
        idle_ok (ed\<lparr>ed_Entries := put_at h k (ed_Entries ed), ed_dragging := False, ed_suspendCommit := False\<rparr>))"

lemma idle_ok_cong:
  assumes "ed_store a = ed_store b" "ed_next a = ed_next b" "ed_settings a = ed_settings b"
    "ed_Entries a = ed_Entries b" "ed_dragging a = ed_dragging b" "ed_suspendCommit a = ed_suspendCommit b"
  shows "idle_ok a = idle_ok b"
proof -
  have "rows a = rows b" using assms by (simp add: rows_def)
  moreover from this have "nodes a = nodes b" by (simp add: nodes_def)
  ultimately show ?thesis unfolding idle_ok_def ed_inv_def saved_def assms by (simp only:)
qed

lemma mset_put_at: "h \<in> set es \<Longrightarrow> mset (put_at h k es) = mset es"
proof -
  assume "h \<in> set es"
  have "mset (take k (remove1 h es)) + mset (drop k (remove1 h es)) = mset (remove1 h es)"
    by (metis append_take_drop_id mset_append)
  then show ?thesis using \<open>h \<in> set es\<close> by (simp add: put_at_def)
qed

lemma put_at_same:
  assumes "distinct es" and "i < length es"
  shows "put_at (es ! i) i es = es"
proof -
  have e: "es = take i es @ es ! i # drop (Suc i) es" using assms(2) by (rule id_take_nth_drop)
  have "es ! i \<notin> set (take i es)"
    using assms by (auto simp: in_set_conv_nth nth_eq_iff_index_eq)
  then have "remove1 (es ! i) es = take i es @ drop (Suc i) es"
    using assms(2) by (subst e) (simp add: remove1_append)
  then show ?thesis using assms e by (simp add: put_at_def)
qed

lemma remove1_put_at: "distinct es \<Longrightarrow> remove1 h (put_at h k es) = remove1 h es"
  by (simp add: put_at_def remove1_append) (metis append_take_drop_id in_set_takeD set_remove1_eq Diff_iff singletonI)

lemma put_at_put_at: "distinct es \<Longrightarrow> put_at h k (put_at h j es) = put_at h k es"
  unfolding put_at_def [of h k "put_at h j es"] by (simp add: remove1_put_at) (simp add: put_at_def)

lemma BeginDrag_ok:
  assumes ok: "idle_ok ed" and i: "h \<in> set (ed_Entries ed)"
  shows "drag_ok (BeginDrag (Some h) ed)"
proof -
  note I = idle_okD [OF ok]
  from i obtain k where k: "k < length (ed_Entries ed)" "ed_Entries ed ! k = h" by (auto simp: in_set_conv_nth)
  let ?ed1 = "ed\<lparr>ed_dragWasSuspended := ed_suspendCommit ed, ed_suspendCommit := True, ed_dragging := True\<rparr>"
  have "indexOf ?ed1 (Some h) = Some k" using indexOf_nth [of ?ed1 k] I(1) k by simp
  moreover have "put_at h k (ed_Entries ed) = ed_Entries ed" using put_at_same [OF I(1) k(1)] k(2) by simp
  moreover from this have "idle_ok ((BeginDrag (Some h) ed)
     \<lparr>ed_Entries := put_at h k (ed_Entries ed), ed_dragging := False, ed_suspendCommit := False\<rparr>)"
    using I(5,6) ok by (subst idle_ok_cong [of _ ed]) (auto simp: BeginDrag_def Let_def)
  ultimately show ?thesis using I(5,6) k i by (auto simp: drag_ok_def BeginDrag_def Let_def)
qed

definition list_reorder :: "nat \<Rightarrow> editor \<Rightarrow> editor" where
  "list_reorder j ed = (case ed_dragHead ed of None \<Rightarrow> ed | Some h \<Rightarrow> ed\<lparr>ed_Entries := put_at h j (ed_Entries ed)\<rparr>)"

lemma drag_distinct: "drag_ok ed \<Longrightarrow> distinct (ed_Entries ed)"
  using mset_put_at mset_eq_imp_distinct_iff by (fastforce simp: drag_ok_def dest: idle_okD(1))

lemma list_reorder_ok:
  assumes "drag_ok ed"
  shows "drag_ok (list_reorder j ed)"
proof -
  obtain h k where h: "ed_dragHead ed = Some h" "h \<in> set (ed_Entries ed)" "ed_dragStartIndex ed = Some k"
    "k < length (ed_Entries ed)"
    and ok: "idle_ok (ed\<lparr>ed_Entries := put_at h k (ed_Entries ed), ed_dragging := False, ed_suspendCommit := False\<rparr>)"
    using assms by (auto simp: drag_ok_def)
  have "length (put_at h j (ed_Entries ed)) = length (ed_Entries ed)" "set (put_at h j (ed_Entries ed)) = set (ed_Entries ed)"
    using mset_put_at [OF h(2), of j] by (metis size_mset, metis mset_eq_setD)
  then show ?thesis
    using assms h ok drag_distinct [OF assms] by (auto simp: drag_ok_def list_reorder_def put_at_put_at)
qed

lemma filter_put_at:
  assumes "distinct (map g es)" and "h \<in> set es"
  shows "filter (\<lambda>x. g x \<noteq> g h) (put_at h k es) = remove1 h es"
proof -
  have "g v \<noteq> g h" if "v \<in> set (remove1 h es)" for v
    using that assms by (metis distinct_map inj_on_eq_iff notin_set_remove1 set_remove1_eq Diff_iff singletonI)
  then have "filter (\<lambda>x. g x \<noteq> g h) (take k (remove1 h es)) = take k (remove1 h es)"
    "filter (\<lambda>x. g x \<noteq> g h) (drop k (remove1 h es)) = drop k (remove1 h es)"
    by (auto simp: filter_id_conv dest: in_set_takeD in_set_dropD)
  then show ?thesis by (simp add: put_at_def)
qed

lemma NormalizeDrag_ok:
  assumes ok: "drag_ok ed"
  shows "\<exists>out ed'. NormalizeDrag (ed_dragHead ed) ed = Some (out, ed') \<and> out \<noteq> Restored \<and> idle_ok ed'"
proof -
  obtain h k where h: "ed_dragHead ed = Some h" "h \<in> set (ed_Entries ed)" "ed_dragStartIndex ed = Some k"
    "k < length (ed_Entries ed)" "ed_dragging ed" "ed_suspendCommit ed" "\<not> ed_dragWasSuspended ed"
    and base: "idle_ok (ed\<lparr>ed_Entries := put_at h k (ed_Entries ed), ed_dragging := False, ed_suspendCommit := False\<rparr>)"
      (is "idle_ok ?base")
    using ok by (auto simp: drag_ok_def)
  note I = idle_okD [OF base]
  define es where "es = ed_Entries ed"
  have de: "distinct es" using drag_distinct [OF ok] by (simp add: es_def)
  from h(2) obtain i where i: "i < length es" "es ! i = h" by (auto simp: in_set_conv_nth es_def)
  define ed1 where "ed1 = ed\<lparr>ed_dragStartIndex := None, ed_dragHead := None, ed_dragging := False\<rparr>"
  have e1: "ed_Entries ed1 = es" "ed_store ed1 = ed_store ed" "ed_suspendCommit ed1" "\<not> ed_dragWasSuspended ed1"
    "\<not> ed_dragging ed1" "ed_next ed1 = ed_next ed" "ed_settings ed1 = ed_settings ed" using h by (simp_all add: ed1_def es_def)
  have ix: "indexOf ed1 (Some h) = Some i" using indexOf_nth [of ed1 i] de i e1 by simp
  show ?thesis
  proof (cases "i = k")
    case True
    have "put_at h k es = es" using put_at_same [OF de i(1)] i(2) True by simp
    then have "idle_ok (select s (releaseCommit True ed1))" for s
      using base e1 h by (subst idle_ok_cong [of _ ?base]) (auto simp: releaseCommit_def es_def)
    moreover have "NormalizeDrag (ed_dragHead ed) ed = Some (NotMoved, select (ed_selectedEntry ed1) (releaseCommit True ed1))"
      unfolding NormalizeDrag_def ed1_def [symmetric] Let_def h(1,3,5) prod.case option.case ix using True h by simp
    ultimately show ?thesis by blast
  next
    case False
    let ?after = "nodes ed1" and ?ns = "nodes ?base"
    have T: "distinct_ids ?ns" "wfs {} ?ns" and ne: "\<forall>n \<in> set ?ns. n_id n \<noteq> []" using I(3) by (auto simp: tree_ok_def)
    define f where "f = (\<lambda>v. node_of (ed_store ed v))"
    have af: "?after = map f es" and nsf: "?ns = map f (put_at h k es)"
      by (simp_all add: nodes_map e1 f_def es_def)
    have mp: "mset (put_at h k es) = mset es" using h(2) by (simp add: mset_put_at es_def)
    have m: "mset ?after = mset ?ns" unfolding af nsf using mp by simp
    have hid: "n_id (?after ! i) = n_id (f h)" using i by (simp add: af)
    have dg: "distinct (map (\<lambda>v. n_id (f v)) es)"
    proof -
      have "mset (map (\<lambda>v. n_id (f v)) es) = mset (map n_id ?ns)" unfolding nsf using mp by (simp add: image_mset.compositionality o_def)
      from mset_eq_imp_distinct_iff [OF this] show ?thesis using T(1) by simp
    qed
    have same: "filter (\<lambda>n. n_id n \<noteq> n_id (f h)) ?after = filter (\<lambda>n. n_id n \<noteq> n_id (f h)) ?ns"
      using filter_put_at [OF dg, of h k] filter_put_at [OF dg, of h i] put_at_same [OF de i(1)] i h(2)
      unfolding af nsf by (simp add: filter_map o_def es_def)
    obtain fx B where fx: "NormalizeAfterDrag ?after i (ed_dragOldDepth ed) = Fix fx"
      and wr: "wfs {} (apply_move (?after[i := set_parent (df_headParentId fx) (?after ! i)]) (df_move fx))"
      and bl: "distinct (bm_block (df_move fx))" "\<forall>j \<in> set (bm_block (df_move fx)). j < length ?after"
        "bm_insertAt (df_move fx) \<le> length (nths ?after (- set (bm_block (df_move fx))))"
      by (rule drag_wfs [OF T m _ hid [symmetric] same]) (use i in \<open>simp add: af\<close>)
    define ed2 where "ed2 = set_ParentId h (df_headParentId fx) ed1"
    have e2: "ed2 = set_row h (\<lambda>r. r\<lparr>r_ParentId := df_headParentId fx\<rparr>) ed1"
      using e1(3) by (simp add: ed2_def set_ParentId_suspended)
    define es' where "es' = apply_move es (df_move fx)"
    have ap: "applyBlockMove (ed_Entries ed2) (df_move fx) = Some es'"
      unfolding es'_def using bl by (subst applyBlockMove_eq) (simp_all add: e2 e1 af length_nths_map)
    define ed3 where "ed3 = ed2\<lparr>ed_Entries := es'\<rparr>"
    have n2: "nodes ed2 = ?after[i := set_parent (df_headParentId fx) (?after ! i)]"
      unfolding e2 by (rule nodes_set_parent) (use de i e1 in simp_all)
    have n3: "nodes ed3 = apply_move (nodes ed2) (df_move fx)"
      using apply_move_map [of "df_move fx" "ed_Entries ed2" "\<lambda>v. node_of (ed_store ed2 v)"] bl(2)
      by (simp add: ed3_def nodes_map es'_def e2 e1)
    have ms: "mset es' = mset es" unfolding es'_def using bl by (intro mset_apply_move) (auto simp: af)
    have ids: "mset (map n_id (nodes ed3)) = mset (map n_id ?ns)"
    proof -
      have "mset (nodes ed3) = mset (nodes ed2)" unfolding n3 using bl by (intro mset_apply_move) (auto simp: n2)
      moreover have "map n_id (nodes ed2) = map n_id ?after"
        unfolding n2 using i by (simp add: map_update af list_update_same_conv)
      ultimately show ?thesis using m by (metis mset_map)
    qed
    have t3: "tree_ok (nodes ed3)"
      using T(1) ne ids wr mset_eq_imp_distinct_iff [OF ids] mset_eq_setD [OF ids] unfolding tree_ok_def n3 n2
      by (metis (no_types, lifting) imageE imageI list.set_map)
    have "idle_ok (select (Some h) (commit ((recomputeDepths ed3)\<lparr>ed_suspendCommit := False\<rparr>)))"
      by (rule finish_ok)
        (use I t3 de ms e1 mp mset_eq_setD [OF ms] mset_eq_setD [OF mp] mset_eq_imp_distinct_iff [OF ms]
          in \<open>auto simp: ed3_def e2 es_def [symmetric]\<close>)
    moreover have "releaseCommit True (recomputeDepths ed3) = (recomputeDepths ed3)\<lparr>ed_suspendCommit := False\<rparr>"
      using e1(4) by (simp add: releaseCommit_def recompute_same(6) ed3_def e2)
    moreover have "IsWellFormed (nodes (recomputeDepths ed3))" using t3 by (simp add: tree_ok_def IsWellFormed_wfs)
    moreover have "NormalizeDrag (ed_dragHead ed) ed = Some (Applied, select (Some h) (commit (releaseCommit True (recomputeDepths ed3))))"
      unfolding NormalizeDrag_def ed1_def [symmetric] Let_def h(1,3,5) prod.case option.case ix fx drag_result.case
        ed2_def [symmetric] ap ed3_def [symmetric] using False calculation(3) h(5) by simp
    ultimately show ?thesis by force
  qed
qed


subsection \<open>Sequences of edits\<close>

text \<open>
  A run of the page: any sequence of commands, field edits and drags. While a drag is on, the list
  view only moves the dragged row (\<open>list_reorder\<close>), and the drag ends with the row it started with,
  as the page's handlers call it. Ids drawn for new rows are fresh, and a captured live tree is
  well formed.
\<close>

definition edit_row :: "ref \<Rightarrow> (row \<Rightarrow> row) \<Rightarrow> editor \<Rightarrow> editor" where
  "edit_row v f ed = row_changed (set_row v f ed)"

definition field_edit :: "(row \<Rightarrow> row) \<Rightarrow> bool" where
  "field_edit f \<longleftrightarrow> (\<forall>r. node_of (f r) = node_of r \<and> r_Depth (f r) = r_Depth r \<and>
     (\<exists>h. r_Height (f r) = r_Height r \<or> r_Height (f r) = NormalizeSeparatorHeight h))"

inductive ed_step :: "editor \<Rightarrow> editor \<Rightarrow> bool" where
  add: "\<not> ed_dragging ed \<Longrightarrow> fresh_id i ed \<Longrightarrow> ed_step ed (AddEntry i ed)"
| add_separator: "\<not> ed_dragging ed \<Longrightarrow> fresh_id i ed \<Longrightarrow> ed_step ed (AddSeparator i ed)"
| delete: "\<not> ed_dragging ed \<Longrightarrow> DeleteEntry vm ed = Some ed' \<Longrightarrow> ed_step ed ed'"
| duplicate: "\<not> ed_dragging ed \<Longrightarrow> fresh_id i ed \<Longrightarrow> DuplicateEntry i vm ed = Some ed' \<Longrightarrow> ed_step ed ed'"
| indent: "\<not> ed_dragging ed \<Longrightarrow> ed_step ed (IndentEntry vm ed)"
| outdent: "\<not> ed_dragging ed \<Longrightarrow> ed_step ed (OutdentEntry vm ed)"
| move: "\<not> ed_dragging ed \<Longrightarrow> moveEntry vm up ed = Some ed' \<Longrightarrow> ed_step ed ed'"
| capture: "\<not> ed_dragging ed \<Longrightarrow> (\<And>es. live = Some es \<Longrightarrow> tree_ok (map entry_node es))
    \<Longrightarrow> ed_step ed (snd (CaptureLiveStartup live ed))"
| select: "\<not> ed_dragging ed \<Longrightarrow> ed_step ed (select vm ed)"
| edit: "\<not> ed_dragging ed \<Longrightarrow> field_edit f \<Longrightarrow> ed_step ed (edit_row v f ed)"
| drag_begin: "\<not> ed_dragging ed \<Longrightarrow> h \<in> set (ed_Entries ed) \<Longrightarrow> ed_step ed (BeginDrag (Some h) ed)"
| drag_move: "ed_dragging ed \<Longrightarrow> ed_step ed (list_reorder j ed)"
| drag_end: "ed_dragging ed \<Longrightarrow> NormalizeDrag (ed_dragHead ed) ed = Some (out, ed') \<Longrightarrow> ed_step ed ed'"

inductive_cases ed_stepE: "ed_step ed ed'"

lemma edit_row_ok:
  assumes ok: "idle_ok ed" and f: "field_edit f"
  shows "idle_ok (edit_row v f ed)"
proof -
  note I = idle_okD [OF ok]
  let ?ed = "set_row v f ed"
  have F: "node_of (f r) = node_of r" "r_Depth (f r) = r_Depth r"
    "\<exists>h. r_Height (f r) = r_Height r \<or> r_Height (f r) = NormalizeSeparatorHeight h" for r
    using f by (simp_all add: field_edit_def)
  have n: "nodes ?ed = nodes ed" by (auto simp: nodes_map F)
  have d: "map r_Depth (rows ?ed) = map r_Depth (rows ed)" by (auto simp: rows_def F)
  have h: "\<forall>w. \<exists>e. r_Height (ed_store ?ed w) = NormalizeSeparatorHeight e"
    using I(4) F(3) [of "ed_store ed v"] by (metis fun_upd_apply set_row_simps(1))
  have "map reopened (map modelFromRow (rows ?ed)) = map modelFromRow (rows ?ed)"
  proof (rule map_idI)
    fix e assume "e \<in> set (map modelFromRow (rows ?ed))"
    then obtain w where "e = modelFromRow (ed_store ?ed w)" unfolding rows_def by auto
    with h reopened_model show "reopened e = e" by metis
  qed
  then have "saved (commit ?ed)" by (auto simp: saved_def commit_def rows_def split: option.splits)
  with I n d h show ?thesis
    by (simp add: edit_row_def row_changed_def idle_ok_def ed_inv_def)
qed

lemma select_ok: "idle_ok ed \<Longrightarrow> idle_ok (select vm ed)"
  by (subst idle_ok_cong [of _ ed]) simp_all

lemma ed_step_ok:
  assumes "ed_step ed ed'" and "idle_ok ed \<or> drag_ok ed"
  shows "idle_ok ed' \<or> drag_ok ed'"
proof (cases "ed_dragging ed")
  case True
  with assms(2) have ok: "drag_ok ed" by (auto simp: idle_ok_def)
  from assms(1) show ?thesis
  proof cases
    case drag_move
    with ok show ?thesis by (simp add: list_reorder_ok)
  next
    case drag_end
    with NormalizeDrag_ok [OF ok] show ?thesis by auto
  qed (use True in simp_all)
next
  case False
  with assms(2) have ok: "idle_ok ed" by (auto simp: drag_ok_def)
  note cmds = AddEntry_ok [OF ok] AddSeparator_ok [OF ok] IndentEntry_ok [OF ok] OutdentEntry_ok [OF ok]
    CaptureLiveStartup_ok [OF ok] select_ok [OF ok] edit_row_ok [OF ok] BeginDrag_ok [OF ok]
  from assms(1) show ?thesis
  proof cases
    case (delete vm)
    with DeleteEntry_ok [OF ok, of vm] show ?thesis by auto
  next
    case (duplicate i vm)
    with DuplicateEntry_ok [OF ok, of i vm] show ?thesis by auto
  next
    case (move vm up)
    with moveEntry_ok [OF ok, of vm up] show ?thesis by auto
  qed (use False cmds in simp_all)
qed

lemma ed_reachable_ok:
  "ed_step\<^sup>*\<^sup>* ed ed' \<Longrightarrow> idle_ok ed \<or> drag_ok ed \<Longrightarrow> idle_ok ed' \<or> drag_ok ed'"
  by (induction rule: rtranclp_induct) (auto dest: ed_step_ok)

subsection \<open>Properties\<close>

lemma tree_okD: "tree_ok ns \<Longrightarrow> IsWellFormed ns \<and> distinct_ids ns"
  by (simp add: tree_ok_def IsWellFormed_wfs)


definition demo_settings :: settings where
  "demo_settings = \<lparr>s_StartupSessions = Some [empty_entry\<lparr>le_Id := wlit ''a''\<rparr>, empty_entry\<lparr>le_Id := wlit ''b'', le_ParentId := wlit ''a''\<rparr>],
     s_DefaultProfile = wlit ''p''\<rparr>"

lemma demo_settings_ok: "s_StartupSessions demo_settings = Some es \<Longrightarrow> tree_ok (map entry_node es)"
  by (auto simp: demo_settings_def tree_ok_def entry_node_def node_rowFromModel empty_entry_def KindSeparatorW_def)

lemma demo_fresh: "fresh_id (wlit ''c'') (init_editor (Some demo_settings))" "\<not> ed_dragging (init_editor (Some demo_settings))"
  unfolding fresh_id_def by code_simp+




text \<open>
  C26. An edit made during a drag is lost when the row is dropped where it started: the drop
  releases the commit suspension but does not commit, so the settings keep the old value while the
  page shows the new one.
\<close>

theorem drag_in_place_drops_edit:
  assumes ok: "idle_ok ed" and s: "ed_settings ed = Some s" and h: "h \<in> set (ed_Entries ed)"
    and v: "v \<in> set (ed_Entries ed)" and f: "field_edit f"
    and ch: "modelFromRow (f (ed_store ed v)) \<noteq> modelFromRow (ed_store ed v)"
  shows "\<exists>ed'. NormalizeDrag (Some h) (edit_row v f (BeginDrag (Some h) ed)) = Some (NotMoved, ed') \<and>
    \<not> ed_suspendCommit ed' \<and> ed_settings ed' = ed_settings ed \<and> \<not> saved ed'"
proof -
  note I = idle_okD [OF ok]
  from h obtain k where k: "k < length (ed_Entries ed)" "ed_Entries ed ! k = h" by (auto simp: in_set_conv_nth)
  define ed1 where "ed1 = edit_row v f (BeginDrag (Some h) ed)"
  have ix: "indexOf e (Some h) = Some k" if "ed_Entries e = ed_Entries ed" for e
    using indexOf_nth [of e k] I(1) k that by simp
  have e1: "ed_Entries ed1 = ed_Entries ed" "ed_dragging ed1" "\<not> ed_dragWasSuspended ed1" "ed_dragHead ed1 = Some h"
    "ed_dragStartIndex ed1 = Some k" "ed_settings ed1 = Some s" "ed_store ed1 = (ed_store ed)(v := f (ed_store ed v))"
    using I(5,6) s by (simp_all add: ed1_def edit_row_def row_changed_def BeginDrag_def Let_def ix set_row_def)
  define ed' where "ed' = select (ed_selectedEntry ed1)
    (ed1\<lparr>ed_dragStartIndex := None, ed_dragHead := None, ed_dragging := False, ed_suspendCommit := False\<rparr>)"
  have N: "NormalizeDrag (Some h) ed1 = Some (NotMoved, ed')"
    using e1 by (simp add: NormalizeDrag_def Let_def ix releaseCommit_def ed'_def)
  have "map modelFromRow (rows ed') \<noteq> map modelFromRow (rows ed)"
    using v ch by (auto simp: rows_def ed'_def e1 select_def)
  moreover have "map reopened (case s_StartupSessions s of None \<Rightarrow> [] | Some es \<Rightarrow> es) = map modelFromRow (rows ed)"
    using I(8) s by (simp add: saved_def)
  moreover have "ed_settings ed' = Some s" "\<not> ed_suspendCommit ed'" by (simp_all add: ed'_def e1)
  ultimately have "\<not> saved ed'" by (simp add: saved_def del: map_eq_conv)
  then show ?thesis using N \<open>ed_settings ed' = Some s\<close> \<open>\<not> ed_suspendCommit ed'\<close> s unfolding ed1_def by auto
qed

theorem drag_in_place_drops_edit_witness:
  "\<exists>ed'. NormalizeDrag (Some 0) (edit_row 1 (\<lambda>r. r\<lparr>r_Name := wlit ''x''\<rparr>)
     (BeginDrag (Some 0) (init_editor (Some demo_settings)))) = Some (NotMoved, ed') \<and> \<not> saved ed'"
proof -
  have ok: "idle_ok (init_editor (Some demo_settings))" by (rule init_editor_ok) (use demo_settings_ok in auto)
  have f: "field_edit (\<lambda>r. r\<lparr>r_Name := wlit ''x''\<rparr>)"
    by (simp add: field_edit_def node_of_def IsSeparator_def)
  have e: "ed_settings (init_editor (Some demo_settings)) = Some demo_settings" by code_simp
  have m: "0 \<in> set (ed_Entries (init_editor (Some demo_settings)))" "1 \<in> set (ed_Entries (init_editor (Some demo_settings)))"
    by code_simp+
  have "modelFromRow ((\<lambda>r. r\<lparr>r_Name := wlit ''x''\<rparr>) (ed_store (init_editor (Some demo_settings)) 1))
      \<noteq> modelFromRow (ed_store (init_editor (Some demo_settings)) 1)" by code_simp
  from drag_in_place_drops_edit [OF ok e m f this] show ?thesis by blast
qed

text \<open>
  Opening the page on a session entry that carries no height stores the height 1 on its row:
  the separator-only fields do not stay at their defaults.
\<close>

lemma session_row_height:
  "r_Height (rowFromModel empty_entry) = Num 1 \<and> \<not> IsSeparator (rowFromModel empty_entry) \<and>
   le_Height empty_entry = Num 0"
  by (simp add: rowFromModel_def empty_entry_def NormalizeSeparatorHeight_def IsSeparator_def KindSeparatorW_def)

end
