(* ===== verification/Axan_LabelTemplate.thy ===== *)
theory Axan_LabelTemplate
  imports Axan_Prelude
begin

text \<open>
  The label templates of the session sidebar, \<^verbatim>\<open>cascadia/TerminalApp/AxanLabelTemplate.cpp\<close>: the
  expansion of \<^verbatim>\<open>$name\<close>, \<^verbatim>\<open>$~\<close> and \<^verbatim>\<open>${file:path}\<close> against the state of a shell, with the walk
  that looks for a git repository.

  Everything outside the program is a field of the parameter \<open>label_world\<close>: the environment
  variables, the file system (existence of a path and the bytes of a readable file) and
  \<^verbatim>\<open>MultiByteToWideChar\<close>. The file system is consulted with paths that terminal output can choose,
  so an operation returns, beside its value, the list of paths it consulted, in order. The
  decompositions of \<^verbatim>\<open>std::filesystem::path\<close> that the code uses are those of the Windows standard
  library: a root name is a drive letter with its colon, a device prefix or \<^verbatim>\<open>\\server\<close>.

  Shown: the walk ends and its result is the nearest directory above that holds \<^verbatim>\<open>.git\<close>; no label
  consults a path outside the drive letters and the two WSL providers, except the paths the
  template itself names by \<^verbatim>\<open>${file:...}\<close>; a template printed from its parts expands to the
  concatenation of their values.
\<close>

subsection \<open>Paths of the Windows standard library\<close>

definition is_slash :: "wchar \<Rightarrow> bool" where
  "is_slash c \<longleftrightarrow> c = 0x5C \<or> c = 0x2F"

definition is_drive_letter :: "wchar \<Rightarrow> bool" where
  "is_drive_letter c \<longleftrightarrow> (0x41 \<le> c \<and> c \<le> 0x5A) \<or> (0x61 \<le> c \<and> c \<le> 0x7A)"

fun device_prefix :: "wstring \<Rightarrow> bool" where
  "device_prefix (a # b # c # d # r) \<longleftrightarrow>
     is_slash a \<and> is_slash d \<and> (r = [] \<or> \<not> is_slash (hd r)) \<and>
     ((is_slash b \<and> (c = 0x3F \<or> c = 0x2E)) \<or> (b = 0x3F \<and> c = 0x3F))"
| "device_prefix _ \<longleftrightarrow> False"

fun root_name_length :: "wstring \<Rightarrow> nat" where
  "root_name_length (a # b # r) =
     (if is_drive_letter a \<and> b = 0x3A then 2
      else if device_prefix (a # b # r) then 3
      else if is_slash a \<and> is_slash b \<and> r \<noteq> [] \<and> \<not> is_slash (hd r)
        then 2 + length (takeWhile (\<lambda>c. \<not> is_slash c) r)
      else 0)"
| "root_name_length _ = 0"

definition root_name :: "wstring \<Rightarrow> wstring" where
  "root_name p = take (root_name_length p) p"

definition root_path :: "wstring \<Rightarrow> wstring" where
  "root_path p = root_name p @ takeWhile is_slash (drop (root_name_length p) p)"

definition relative_path :: "wstring \<Rightarrow> wstring" where
  "relative_path p = dropWhile is_slash (drop (root_name_length p) p)"

definition filename :: "wstring \<Rightarrow> wstring" where
  "filename p = rev (takeWhile (\<lambda>c. \<not> is_slash c) (rev (relative_path p)))"

definition parent_path :: "wstring \<Rightarrow> wstring" where
  "parent_path p =
     root_path p @ rev (dropWhile is_slash (dropWhile (\<lambda>c. \<not> is_slash c) (rev (relative_path p))))"

definition is_absolute :: "wstring \<Rightarrow> bool" where
  "is_absolute p \<longleftrightarrow>
     (case p of
        a # b # r \<Rightarrow> if is_drive_letter a \<and> b = 0x3A then r \<noteq> [] \<and> is_slash (hd r) else root_name_length p \<noteq> 0
      | _ \<Rightarrow> False)"

text \<open>\<^verbatim>\<open>p / q\<close> for a relative \<open>q\<close>: a separator is added unless \<open>p\<close> is empty, ends in one or is a bare drive.\<close>

definition path_append :: "wstring \<Rightarrow> wstring \<Rightarrow> wstring" where
  "path_append p q =
     (if p = [] \<or> is_slash (last p) \<or> (length p = 2 \<and> root_name_length p = 2) then p @ q else p @ 0x5C # q)"

text \<open>\<^verbatim>\<open>operator==\<close> reads any run of separators as one.\<close>

fun squeeze :: "wstring \<Rightarrow> wstring" where
  "squeeze [] = []"
| "squeeze (c # cs) =
     (if is_slash c then (if cs \<noteq> [] \<and> is_slash (hd cs) then squeeze cs else 0x5C # squeeze cs) else c # squeeze cs)"

definition path_eq :: "wstring \<Rightarrow> wstring \<Rightarrow> bool" where
  "path_eq p q \<longleftrightarrow> root_name p = root_name q \<and>
     (root_path p = root_name p) = (root_path q = root_name q) \<and>
     squeeze (relative_path p) = squeeze (relative_path q)"

subsection \<open>The world of a label\<close>

record label_world =
  lw_env :: "wstring \<Rightarrow> wstring option"
  lw_exists :: "wstring \<Rightarrow> bool"
  lw_file :: "wstring \<Rightarrow> bstring option"
  lw_utf8 :: "bstring \<Rightarrow> wstring"

record LabelContext =
  lc_cwd :: wstring
  lc_title :: wstring
  lc_shell :: wstring

type_synonym probes = "wstring list"

definition env :: "label_world \<Rightarrow> wstring \<Rightarrow> wstring" where
  "env w name = (case lw_env w name of None \<Rightarrow> [] | Some v \<Rightarrow> v)"

definition asciiLower :: "wchar \<Rightarrow> wchar" where
  "asciiLower c = (if c \<ge> 0x41 \<and> c \<le> 0x5A then c - 0x41 + 0x61 else c)"

definition foldPathChar :: "wchar \<Rightarrow> wchar" where
  "foldPathChar c = (if c = 0x2F then 0x5C else if c \<ge> 0x41 \<and> c \<le> 0x5A then c - 0x41 + 0x61 else c)"

definition stripFileScheme :: "wstring \<Rightarrow> wstring" where
  "stripFileScheme path =
     (let scheme = wlit ''file://''
      in if take (length scheme) path = scheme
         then let rest = drop (length scheme) path
              in if 0x2F \<in> set rest then dropWhile (\<lambda>c. c \<noteq> 0x2F) rest else rest
         else path)"

fun trim_separators :: "wstring \<Rightarrow> wstring" where
  "trim_separators [] = []"
| "trim_separators (c # cs) = (if cs \<noteq> [] \<and> is_slash c then trim_separators cs else c # cs)"

text \<open>The loop that removes trailing separators works on the reversed path; one character always stays.\<close>

definition basename :: "wstring \<Rightarrow> wstring" where
  "basename path0 =
     (let path = rev (trim_separators (rev (stripFileScheme path0)))
      in if path = [] then [] else filename path)"

definition collapseHome :: "label_world \<Rightarrow> wstring \<Rightarrow> wstring" where
  "collapseHome w cwd0 =
     (let cwd = stripFileScheme cwd0
      in if cwd = [] then []
         else
           (let home = env w (wlit ''USERPROFILE'')
            in if home = [] \<or> length cwd < length home then cwd
               else if \<not> list_all2 (\<lambda>a b. foldPathChar a = foldPathChar b) (take (length home) cwd) home then cwd
               else if length cwd \<noteq> length home \<and> cwd ! length home \<noteq> 0x5C \<and> cwd ! length home \<noteq> 0x2F then cwd
               else wlit ''~'' @ drop (length home) cwd))"

subsection \<open>The git walk\<close>

definition isAllowedGitWalkRoot :: "wstring \<Rightarrow> bool" where
  "isAllowedGitWalkRoot p =
     (let root = map foldPathChar (root_name p)
      in (length root = 2 \<and> root ! 1 = 0x3A \<and> root ! 0 \<ge> 0x61 \<and> root ! 0 \<le> 0x7A)
         \<or> root = 0x5C # 0x5C # wlit ''wsl$'' \<or> root = 0x5C # 0x5C # wlit ''wsl.localhost'')"

lemma root_relative_path: "root_path p @ relative_path p = p"
  by (simp add: root_path_def root_name_def relative_path_def)

lemma parent_path_shorter: "parent_path p = p \<or> length (parent_path p) < length p"
proof -
  define kept where "kept = dropWhile is_slash (dropWhile (\<lambda>c. \<not> is_slash c) (rev (relative_path p)))"
  have "suffix kept (rev (relative_path p))"
    unfolding kept_def by (meson suffix_dropWhile suffix_order.trans)
  then consider "kept = rev (relative_path p)" | "length kept < length (relative_path p)"
    by (metis length_rev suffix_length_less suffix_order.le_less)
  moreover have parent: "parent_path p = root_path p @ rev kept"
    by (simp add: parent_path_def kept_def)
  moreover have "length p = length (root_path p) + length (relative_path p)"
    using arg_cong [OF root_relative_path, of length p] by simp
  ultimately show ?thesis by cases (simp_all add: root_relative_path)
qed

lemma path_eq_refl [simp]: "path_eq p p"
  by (simp add: path_eq_def)

function git_walk :: "label_world \<Rightarrow> wstring \<Rightarrow> wstring \<times> probes" where
  "git_walk w cur =
     (let dotgit = path_append cur (wlit ''.git'')
      in if lw_exists w dotgit then (cur, [dotgit])
         else
           (let parent = parent_path cur
            in if parent = [] \<or> path_eq parent cur then ([], [dotgit])
               else (case git_walk w parent of (toplevel, ps) \<Rightarrow> (toplevel, dotgit # ps))))"
  by pat_completeness auto
termination
proof (relation "measure (\<lambda>(w, cur). length cur)", goal_cases)
  case (2 w cur dotgit parent)
  then show ?case using parent_path_shorter [of cur] by auto
qed simp

declare git_walk.simps [simp del]

definition findGitToplevel :: "label_world \<Rightarrow> wstring \<Rightarrow> wstring \<times> probes" where
  "findGitToplevel w startDir0 =
     (let startDir = stripFileScheme startDir0
      in if startDir = [] then ([], [])
         else if root_name_length startDir = 0 \<and> \<not> is_absolute startDir then ([], [])
         else if \<not> isAllowedGitWalkRoot startDir then ([], [])
         else git_walk w startDir)"

subsection \<open>Files\<close>

definition readFirstLine :: "label_world \<Rightarrow> wstring \<Rightarrow> nat \<Rightarrow> wstring \<times> probes" where
  "readFirstLine w path maxBytes =
     (case lw_file w path of
        None \<Rightarrow> ([], [path])
      | Some content \<Rightarrow>
          (let line = takeWhile (\<lambda>b. b \<noteq> 0x0A) (take maxBytes content);
               buf = rev (dropWhile (\<lambda>b. b = 0x20 \<or> b = 0x09 \<or> b = 0x0D) (rev line))
           in (if buf = [] then [] else lw_utf8 w buf, [path])))"

definition gitBranchAt :: "label_world \<Rightarrow> wstring \<Rightarrow> wstring \<times> probes" where
  "gitBranchAt w gitToplevel =
     (if gitToplevel = [] then ([], [])
      else
        (let head = path_append (path_append gitToplevel (wlit ''.git'')) (wlit ''HEAD'');
             pre = wlit ''ref: refs/heads/''
         in case readFirstLine w head 256 of
              (line, ps) \<Rightarrow> (if take (length pre) line = pre then drop (length pre) line else [], ps)))"

definition resolve_file_var :: "label_world \<Rightarrow> wstring \<Rightarrow> wstring" where
  "resolve_file_var w path =
     (if path ! 0 = 0x7E \<and> (length path = 1 \<or> path ! 1 = 0x2F \<or> path ! 1 = 0x5C)
      then env w (wlit ''USERPROFILE'') @ drop 1 path else path)"

definition readFileVar :: "label_world \<Rightarrow> wstring \<Rightarrow> wstring \<times> probes" where
  "readFileVar w path = (if path = [] then ([], []) else readFirstLine w (resolve_file_var w path) 128)"

subsection \<open>Variables and expansion\<close>

definition normalize_name :: "wstring \<Rightarrow> wstring" where
  "normalize_name rawName = map asciiLower (filter (\<lambda>c. c \<noteq> 0x5F \<and> c \<noteq> 0x2D) rawName)"

definition lookupVar :: "label_world \<Rightarrow> LabelContext \<Rightarrow> wstring \<Rightarrow> wstring option \<times> probes" where
  "lookupVar w ctx rawName =
     (if rawName = wlit ''~'' then (Some (collapseHome w (lc_cwd ctx)), [])
      else
        (let key = normalize_name rawName
         in if key = wlit ''pwd'' \<or> key = wlit ''cwd'' then (Some (stripFileScheme (lc_cwd ctx)), [])
            else if key = wlit ''dir'' then (Some (basename (lc_cwd ctx)), [])
            else if key = wlit ''user'' then (Some (env w (wlit ''USERNAME'')), [])
            else if key = wlit ''host'' \<or> key = wlit ''hostname'' then (Some (env w (wlit ''COMPUTERNAME'')), [])
            else if key = wlit ''shell'' then (Some (lc_shell ctx), [])
            else if key = wlit ''cmd'' \<or> key = wlit ''title'' then (Some (lc_title ctx), [])
            else if key = wlit ''branch'' \<or> key = wlit ''gitbranch'' then
              (case findGitToplevel w (lc_cwd ctx) of (toplevel, ps) \<Rightarrow>
                 (case gitBranchAt w toplevel of (b, qs) \<Rightarrow> (Some b, ps @ qs)))
            else if key = wlit ''repo'' \<or> key = wlit ''gitrepo'' then
              (case findGitToplevel w (lc_cwd ctx) of (toplevel, ps) \<Rightarrow> (Some (basename toplevel), ps))
            else (None, [])))"

definition isIdent :: "wchar \<Rightarrow> bool" where
  "isIdent c \<longleftrightarrow> (c \<ge> 0x41 \<and> c \<le> 0x5A) \<or> (c \<ge> 0x61 \<and> c \<le> 0x7A) \<or> (c \<ge> 0x30 \<and> c \<le> 0x39) \<or> c = 0x5F \<or> c = 0x2D"

definition emit :: "wstring \<times> probes \<Rightarrow> wstring \<times> probes \<Rightarrow> wstring \<times> probes" where
  "emit a b = (fst a @ fst b, snd a @ snd b)"

definition brace_value :: "label_world \<Rightarrow> wstring \<Rightarrow> wstring \<times> probes" where
  "brace_value w body =
     (let filePrefix = wlit ''file:''
      in if take (length filePrefix) body = filePrefix then readFileVar w (drop (length filePrefix) body)
         else (wlit ''${'' @ body @ wlit ''}'', []))"

definition tilde_value :: "label_world \<Rightarrow> LabelContext \<Rightarrow> wstring \<times> probes" where
  "tilde_value w ctx = (case lookupVar w ctx (wlit ''~'') of (None, ps) \<Rightarrow> ([], ps) | (Some v, ps) \<Rightarrow> (v, ps))"

definition name_value :: "label_world \<Rightarrow> LabelContext \<Rightarrow> wstring \<Rightarrow> wstring \<times> probes" where
  "name_value w ctx name =
     (case lookupVar w ctx name of (None, ps) \<Rightarrow> (wlit ''$'' @ name, ps) | (Some v, ps) \<Rightarrow> (v, ps))"

function expand_loop :: "label_world \<Rightarrow> LabelContext \<Rightarrow> wstring \<Rightarrow> wstring \<times> probes" where
  "expand_loop w ctx [] = ([], [])"
| "expand_loop w ctx (c # cs) =
     (if c \<noteq> 0x24 then emit ([c], []) (expand_loop w ctx cs)
      else if cs \<noteq> [] \<and> hd cs = 0x7B then
        (if 0x7D \<notin> set (tl cs) then emit (wlit ''${'', []) (expand_loop w ctx (tl cs))
         else emit (brace_value w (takeWhile (\<lambda>x. x \<noteq> 0x7D) (tl cs)))
                   (expand_loop w ctx (tl (dropWhile (\<lambda>x. x \<noteq> 0x7D) (tl cs)))))
      else if cs \<noteq> [] \<and> hd cs = 0x7E then emit (tilde_value w ctx) (expand_loop w ctx (tl cs))
      else if takeWhile isIdent cs = [] then emit (wlit ''$'', []) (expand_loop w ctx cs)
      else emit (name_value w ctx (takeWhile isIdent cs)) (expand_loop w ctx (dropWhile isIdent cs)))"
  by pat_completeness auto
termination
proof (relation "measure (\<lambda>(w, ctx, cs). length cs)", goal_cases)
  case (4 w ctx c cs)
  have "length (dropWhile (\<lambda>x. x \<noteq> 0x7D) (tl cs)) \<le> length (tl cs)" by (rule length_dropWhile_le)
  then show ?case by simp
qed (auto simp: le_imp_less_Suc length_dropWhile_le)

declare expand_loop.simps(2) [simp del]

definition ExpandLabelTemplate :: "label_world \<Rightarrow> wstring \<Rightarrow> LabelContext \<Rightarrow> wstring \<times> probes" where
  "ExpandLabelTemplate w tmpl ctx = expand_loop w ctx tmpl"

definition DefaultLabel :: "LabelContext \<Rightarrow> wstring" where
  "DefaultLabel ctx =
     (if lc_title ctx \<noteq> [] then lc_title ctx
      else
        (let base = basename (lc_cwd ctx)
         in if base \<noteq> [] \<and> base \<noteq> wlit ''/'' \<and> base \<noteq> [0x5C] then base else wlit ''shell''))"

definition ComputeLabel :: "label_world \<Rightarrow> wstring \<Rightarrow> LabelContext \<Rightarrow> wstring \<times> probes" where
  "ComputeLabel w tmpl ctx = (if tmpl \<noteq> [] then ExpandLabelTemplate w tmpl ctx else (DefaultLabel ctx, []))"

subsection \<open>The paths a label consults\<close>

lemma foldPathChar_letter: "(foldPathChar a \<ge> 0x61 \<and> foldPathChar a \<le> 0x7A) \<longleftrightarrow> is_drive_letter a"
  unfolding foldPathChar_def is_drive_letter_def by uint_arith (simp, arith)

lemma foldPathChar_colon: "foldPathChar b = 0x3A \<longleftrightarrow> b = 0x3A"
  unfolding foldPathChar_def by uint_arith

lemma foldPathChar_slash: "foldPathChar c = 0x5C \<longleftrightarrow> is_slash c"
  unfolding foldPathChar_def is_slash_def by uint_arith

definition wsl_hosts :: "wstring set" where
  "wsl_hosts = {wlit ''wsl$'', wlit ''wsl.localhost''}"

definition host_part :: "wstring \<Rightarrow> wstring" where
  "host_part r = map foldPathChar (takeWhile (\<lambda>c. \<not> is_slash c) r)"

lemma allowed_root_iff:
  "isAllowedGitWalkRoot (a # b # r) \<longleftrightarrow>
     (is_drive_letter a \<and> b = 0x3A) \<or> (is_slash a \<and> is_slash b \<and> host_part r \<in> wsl_hosts)"
proof -
  consider (drive) "is_drive_letter a \<and> b = 0x3A"
    | (device) "\<not> (is_drive_letter a \<and> b = 0x3A)" "device_prefix (a # b # r)"
    | (unc) "\<not> (is_drive_letter a \<and> b = 0x3A)" "\<not> device_prefix (a # b # r)" "is_slash a" "is_slash b" "r \<noteq> []" "\<not> is_slash (hd r)"
    | (none) "root_name_length (a # b # r) = 0" "\<not> (is_drive_letter a \<and> b = 0x3A)" "\<not> (is_slash a \<and> is_slash b \<and> r \<noteq> [] \<and> \<not> is_slash (hd r))"
    by (cases "is_drive_letter a \<and> b = 0x3A"; cases "device_prefix (a # b # r)";
        cases "is_slash a \<and> is_slash b \<and> r \<noteq> [] \<and> \<not> is_slash (hd r)") (simp_all del: device_prefix.simps)
  then show ?thesis
  proof cases
    case drive
    then show ?thesis using foldPathChar_letter [of a]
      by (simp add: isAllowedGitWalkRoot_def root_name_def Let_def foldPathChar_colon)
  next
    case device
    then obtain c d s where r: "r = c # d # s" by (cases r; cases "tl r") auto
    have nd: "\<not> is_drive_letter a" "a \<noteq> 0x2F \<longrightarrow> a = 0x5C" using device by (auto simp: r is_slash_def is_drive_letter_def)
    have h: "is_slash a \<and> is_slash b \<and> host_part r \<in> wsl_hosts \<longleftrightarrow> False"
      using device by (auto simp: r host_part_def wsl_hosts_def is_slash_def foldPathChar_def)
    show ?thesis unfolding h using device
      by (simp add: isAllowedGitWalkRoot_def root_name_def Let_def r nd(1))
  next
    case unc
    then have "b \<noteq> 0x3A" by (auto simp: is_slash_def)
    with unc show ?thesis
      by (auto simp: isAllowedGitWalkRoot_def root_name_def Let_def foldPathChar_slash foldPathChar_colon host_part_def wsl_hosts_def
          takeWhile_eq_take [symmetric])
  next
    case none
    have "host_part r \<notin> wsl_hosts" if "r = [] \<or> is_slash (hd r)"
      using that by (cases r) (auto simp: host_part_def wsl_hosts_def)
    with none show ?thesis
      by (auto simp: isAllowedGitWalkRoot_def root_name_def Let_def)
  qed
qed


lemma allowed_cases:
  assumes "isAllowedGitWalkRoot p"
  obtains (drive) a r where "p = a # 0x3A # r" "is_drive_letter a"
  | (wsl) a b r where "p = a # b # r" "is_slash a" "is_slash b" "host_part r \<in> wsl_hosts"
proof -
  have "\<not> isAllowedGitWalkRoot []" "\<not> isAllowedGitWalkRoot [c]" for c
    by (simp_all add: isAllowedGitWalkRoot_def root_name_def Let_def)
  with assms obtain a b r where "p = a # b # r" by (metis neq_Nil_conv)
  with assms allowed_root_iff that show thesis by blast
qed

lemma host_part_append: "x = [] \<or> is_slash (hd x) \<or> (\<exists>c\<in>set r. is_slash c) \<Longrightarrow> host_part (r @ x) = host_part r"
  by (cases x) (auto simp: host_part_def takeWhile_append takeWhile_eq_all_conv [THEN iffD2])

lemma host_part_takeWhile: "x = [] \<or> is_slash (hd x) \<Longrightarrow> host_part (takeWhile (\<lambda>c. \<not> is_slash c) r @ x) = host_part r"
  by (subst host_part_append) (auto simp: host_part_def)

lemma wsl_host_nonempty: "host_part r \<in> wsl_hosts \<Longrightarrow> r \<noteq> [] \<and> \<not> is_slash (hd r)"
  by (cases r) (auto simp: host_part_def wsl_hosts_def)

lemma not_drive_slash: "is_slash a \<Longrightarrow> \<not> is_drive_letter a"
  by (auto simp: is_slash_def is_drive_letter_def)

lemma wsl_not_device: "is_slash b \<Longrightarrow> host_part r \<in> wsl_hosts \<Longrightarrow> \<not> device_prefix (a # b # r)"
  by (cases r rule: list.exhaust; cases "tl r" rule: list.exhaust)
     (auto simp: host_part_def wsl_hosts_def is_slash_def foldPathChar_def)

lemma allowed_append:
  assumes "isAllowedGitWalkRoot p"
  shows "isAllowedGitWalkRoot (path_append p q)"
  using assms
proof (cases rule: allowed_cases)
  case (drive a r)
  then show ?thesis by (auto simp: path_append_def allowed_root_iff)
next
  case (wsl a b r)
  from wsl(4) have r: "r \<noteq> []" by (simp add: wsl_host_nonempty)
  with wsl have "path_append p q = a # b # (r @ (if is_slash (last r) then q else 0x5C # q))"
    by (simp add: path_append_def)
  moreover have "host_part (r @ (if is_slash (last r) then q else 0x5C # q)) = host_part r"
    using r by (intro host_part_append) (auto simp: is_slash_def intro: last_in_set)
  ultimately show ?thesis using wsl by (simp only: allowed_root_iff simp_thms)
qed

lemma takeWhile_stop: "v = [] \<or> \<not> P (hd v) \<Longrightarrow> takeWhile P (takeWhile P u @ v) = takeWhile P u"
  by (subst takeWhile_append2) (auto dest: set_takeWhileD, cases v, auto)

lemma root_name_length_le: "root_name_length p \<le> length p"
proof (cases p rule: root_name_length.cases)
  case (1 a b r)
  have "length (takeWhile (\<lambda>c. \<not> is_slash c) r) \<le> length r" by (rule length_takeWhile_le)
  moreover have "device_prefix (a # b # r) \<longrightarrow> r \<noteq> []" by (cases r) auto
  ultimately show ?thesis by (cases r) (auto simp del: device_prefix.simps simp: 1)
qed auto

lemma wsl_root_length:
  "is_slash a \<Longrightarrow> is_slash b \<Longrightarrow> host_part r \<in> wsl_hosts \<Longrightarrow>
     root_name_length (a # b # r) = 2 + length (takeWhile (\<lambda>c. \<not> is_slash c) r)"
  by (simp del: device_prefix.simps add: not_drive_slash wsl_host_nonempty wsl_not_device)

lemma allowed_extend:
  assumes "isAllowedGitWalkRoot p" and x: "x = [] \<or> relative_path p \<noteq> []"
  shows "isAllowedGitWalkRoot (root_path p @ x) \<and> root_name_length (root_path p @ x) = root_name_length p"
  using assms(1)
proof (cases rule: allowed_cases)
  case (drive a r)
  then show ?thesis by (auto simp: root_path_def root_name_def allowed_root_iff)
next
  case (wsl a b r)
  define d where "d = dropWhile (\<lambda>c. \<not> is_slash c) r"
  have "root_name p = a # b # takeWhile (\<lambda>c. \<not> is_slash c) r" "drop (root_name_length p) p = d"
    using wsl by (simp_all del: root_name_length.simps
        add: wsl_root_length root_name_def d_def takeWhile_eq_take [symmetric] dropWhile_eq_drop)
  then have root: "root_path p @ x = a # b # (takeWhile (\<lambda>c. \<not> is_slash c) r @ takeWhile is_slash d @ x)"
    and rel: "relative_path p = dropWhile is_slash d"
    by (simp_all add: root_path_def relative_path_def)
  have "d = [] \<or> is_slash (hd d)" unfolding d_def using hd_dropWhile [of "\<lambda>c. \<not> is_slash c" r] by blast
  then have y: "takeWhile is_slash d @ x = [] \<or> is_slash (hd (takeWhile is_slash d @ x))"
    using x rel by (cases d) auto
  from y have "takeWhile (\<lambda>c. \<not> is_slash c) (takeWhile (\<lambda>c. \<not> is_slash c) r @ takeWhile is_slash d @ x)
      = takeWhile (\<lambda>c. \<not> is_slash c) r"
    by (intro takeWhile_stop) simp
  with wsl host_part_takeWhile [OF y, of r] show ?thesis
    unfolding root by (simp only: allowed_root_iff wsl_root_length simp_thms)
qed

lemma parent_path_split:
  obtains x z where "parent_path p = root_path p @ x" "relative_path p = x @ z" "x = [] \<or> \<not> is_slash (last x)"
proof
  define x where "x = rev (dropWhile is_slash (dropWhile (\<lambda>c. \<not> is_slash c) (rev (relative_path p))))"
  show "parent_path p = root_path p @ x" by (simp add: parent_path_def x_def)
  have "prefix x (relative_path p)"
    unfolding x_def suffix_to_prefix [symmetric] rev_rev_ident by (metis rev_rev_ident suffix_dropWhile suffix_order.trans suffix_to_prefix)
  then show "relative_path p = x @ drop (length x) (relative_path p)" by (metis append_eq_conv_conj prefixE)
  show "x = [] \<or> \<not> is_slash (last x)"
    unfolding x_def using hd_dropWhile [of is_slash "dropWhile (\<lambda>c. \<not> is_slash c) (rev (relative_path p))"] by (auto simp: last_rev)
qed

lemma allowed_parent: "isAllowedGitWalkRoot p \<Longrightarrow> isAllowedGitWalkRoot (parent_path p)"
  by (rule parent_path_split [of p]) (metis allowed_extend append_is_Nil_conv)

lemma git_walk_allowed:
  "isAllowedGitWalkRoot cur \<Longrightarrow>
     list_all isAllowedGitWalkRoot (snd (git_walk w cur)) \<and>
     (fst (git_walk w cur) = [] \<or> isAllowedGitWalkRoot (fst (git_walk w cur)))"
proof (induction w cur rule: git_walk.induct)
  case (1 w cur)
  then show ?case
    by (subst (1 2 3) git_walk.simps) (auto simp: Let_def allowed_append allowed_parent split: prod.splits)
qed

lemma findGitToplevel_allowed:
  "list_all isAllowedGitWalkRoot (snd (findGitToplevel w d)) \<and>
   (fst (findGitToplevel w d) = [] \<or> isAllowedGitWalkRoot (fst (findGitToplevel w d)))"
  using git_walk_allowed [of "stripFileScheme d" w] by (simp add: findGitToplevel_def Let_def)

lemma gitBranchAt_allowed:
  "t = [] \<or> isAllowedGitWalkRoot t \<Longrightarrow> list_all isAllowedGitWalkRoot (snd (gitBranchAt w t))"
  by (auto simp: gitBranchAt_def readFirstLine_def Let_def allowed_append split: option.splits)

lemma lookupVar_allowed: "list_all isAllowedGitWalkRoot (snd (lookupVar w ctx name))"
  using findGitToplevel_allowed [of w "lc_cwd ctx"] gitBranchAt_allowed [of "fst (findGitToplevel w (lc_cwd ctx))" w]
  by (auto simp: lookupVar_def Let_def split: prod.splits)


subsection \<open>The walk finds the nearest repository\<close>

lemma squeeze_Nil [simp]: "squeeze z = [] \<longleftrightarrow> z = []"
  by (induction z) (auto split: if_splits)

lemma squeeze_append: "x = [] \<or> \<not> is_slash (last x) \<Longrightarrow> squeeze (x @ z) = squeeze x @ squeeze z"
proof (induction x)
  case (Cons c x)
  then show ?case by (cases x) (auto split: if_splits)
qed simp

lemma path_eq_parent:
  assumes "isAllowedGitWalkRoot p" and "path_eq (parent_path p) p"
  shows "parent_path p = p"
proof (rule parent_path_split [of p])
  fix x z assume parent: "parent_path p = root_path p @ x" and z: "relative_path p = x @ z"
    and last: "x = [] \<or> \<not> is_slash (last x)"
  have head: "x = [] \<or> \<not> is_slash (hd x)"
    using z by (cases x) (auto simp: relative_path_def dropWhile_eq_Cons_conv)
  have len: "root_name_length (parent_path p) = root_name_length p"
    unfolding parent using allowed_extend [OF assms(1), of x] z by auto
  have "drop (root_name_length p) (root_path p @ x) = takeWhile is_slash (drop (root_name_length p) p) @ x"
    using root_name_length_le [of p] by (simp add: root_path_def root_name_def)
  then have "relative_path (parent_path p) = dropWhile is_slash (takeWhile is_slash (drop (root_name_length p) p) @ x)"
    unfolding relative_path_def len by (simp only: parent)
  also have "\<dots> = dropWhile is_slash x" by (rule dropWhile_append2) (auto dest: set_takeWhileD)
  also have "\<dots> = x" using head by (cases x) auto
  finally have "relative_path (parent_path p) = x" .
  with assms(2) have "squeeze x = squeeze (x @ z)" by (simp add: path_eq_def z)
  with last have "z = []" by (simp add: squeeze_append)
  then show ?thesis using root_relative_path [of p] by (simp add: parent z)
qed

text \<open>The directories above \<open>d\<close>, nearest first, are its iterated parents.\<close>

definition holds_git :: "label_world \<Rightarrow> wstring \<Rightarrow> bool" where
  "holds_git w d \<longleftrightarrow> lw_exists w (path_append d (wlit ''.git''))"

lemma git_walk_step:
  assumes "isAllowedGitWalkRoot cur"
  shows "fst (git_walk w cur) =
    (if holds_git w cur then cur else if parent_path cur = cur then [] else fst (git_walk w (parent_path cur)))"
proof -
  have "parent_path cur \<noteq> []" using allowed_parent [OF assms]
    by (auto simp: isAllowedGitWalkRoot_def root_name_def)
  moreover have "path_eq (parent_path cur) cur \<longleftrightarrow> parent_path cur = cur"
    using path_eq_parent [OF assms] by (metis path_eq_refl)
  ultimately show ?thesis by (subst git_walk.simps) (auto simp: Let_def holds_git_def split: prod.splits)
qed

lemma git_walk_nearest:
  assumes "isAllowedGitWalkRoot cur"
  shows "(\<exists>n. holds_git w ((parent_path ^^ n) cur) \<and> fst (git_walk w cur) = (parent_path ^^ n) cur \<and>
            (\<forall>m < n. \<not> holds_git w ((parent_path ^^ m) cur)))
       \<or> (fst (git_walk w cur) = [] \<and> (\<forall>n. \<not> holds_git w ((parent_path ^^ n) cur)))"
  using assms
proof (induction "length cur" arbitrary: cur rule: less_induct)
  case less
  note step = git_walk_step [OF less.prems, of w]
  consider (here) "holds_git w cur" | (top) "\<not> holds_git w cur" "parent_path cur = cur"
    | (up) "\<not> holds_git w cur" "parent_path cur \<noteq> cur" by blast
  then show ?case
  proof cases
    case here
    then show ?thesis using step by (intro disjI1 exI [of _ 0]) simp
  next
    case top
    have "(parent_path ^^ n) cur = cur" for n by (induction n) (simp_all add: top)
    then show ?thesis using step top by simp
  next
    case up
    then have eq: "fst (git_walk w cur) = fst (git_walk w (parent_path cur))" using step by simp
    have "length (parent_path cur) < length cur" using up parent_path_shorter by blast
    from less.hyps [OF this allowed_parent [OF less.prems]] show ?thesis
    proof (elim disjE exE conjE)
      fix n assume "holds_git w ((parent_path ^^ n) (parent_path cur))"
        "fst (git_walk w (parent_path cur)) = (parent_path ^^ n) (parent_path cur)"
        "\<forall>m < n. \<not> holds_git w ((parent_path ^^ m) (parent_path cur))"
      then show ?thesis using eq up
        by (intro disjI1 exI [of _ "Suc n"]) (auto simp: funpow_swap1 less_Suc_eq_0_disj)
    next
      assume none: "fst (git_walk w (parent_path cur)) = []" "\<forall>n. \<not> holds_git w ((parent_path ^^ n) (parent_path cur))"
      have "\<not> holds_git w ((parent_path ^^ n) cur)" for n
        using none(2) up(1) by (cases n) (auto simp: funpow_swap1)
      then show ?thesis using eq none by simp
    qed
  qed
qed


subsection \<open>What a template consults\<close>

lemma file_probe: "p \<in> set (snd (readFileVar w b)) \<Longrightarrow> p = resolve_file_var w b"
  by (auto simp: readFileVar_def readFirstLine_def Let_def split: if_splits option.splits)

lemma brace_probe:
  assumes "p \<in> set (snd (brace_value w body))"
  shows "\<exists>b. body = wlit ''file:'' @ b \<and> p = resolve_file_var w b"
proof -
  from assms have "take (length (wlit ''file:'')) body = wlit ''file:''"
    and "p \<in> set (snd (readFileVar w (drop (length (wlit ''file:'')) body)))"
    by (auto simp: brace_value_def Let_def split: if_splits)
  then show ?thesis by (metis append_take_drop_id file_probe)
qed

subsection \<open>The grammar of a template\<close>

text \<open>
  A template is a sequence of parts. \<open>ok_part p rest\<close> says when \<open>p\<close> may stand before the text
  \<open>rest\<close>: a lone dollar must not be read as the start of a variable, an opened brace is never
  closed, a name is not continued.
\<close>

datatype part = Lit wchar | Dollar | Opened | Brace wstring | Home | Var wstring

fun print_part :: "part \<Rightarrow> wstring" where
  "print_part (Lit c) = [c]"
| "print_part Dollar = wlit ''$''"
| "print_part Opened = wlit ''${''"
| "print_part (Brace b) = wlit ''${'' @ b @ wlit ''}''"
| "print_part Home = wlit ''$~''"
| "print_part (Var n) = wlit ''$'' @ n"

fun ok_part :: "part \<Rightarrow> wstring \<Rightarrow> bool" where
  "ok_part (Lit c) rest \<longleftrightarrow> c \<noteq> 0x24"
| "ok_part Dollar rest \<longleftrightarrow> rest = [] \<or> (hd rest \<noteq> 0x7B \<and> hd rest \<noteq> 0x7E \<and> \<not> isIdent (hd rest))"
| "ok_part Opened rest \<longleftrightarrow> 0x7D \<notin> set rest"
| "ok_part (Brace b) rest \<longleftrightarrow> 0x7D \<notin> set b"
| "ok_part Home rest \<longleftrightarrow> True"
| "ok_part (Var n) rest \<longleftrightarrow> n \<noteq> [] \<and> list_all isIdent n \<and> (rest = [] \<or> \<not> isIdent (hd rest))"

fun part_value :: "label_world \<Rightarrow> LabelContext \<Rightarrow> part \<Rightarrow> wstring \<times> probes" where
  "part_value w ctx (Lit c) = ([c], [])"
| "part_value w ctx Dollar = (wlit ''$'', [])"
| "part_value w ctx Opened = (wlit ''${'', [])"
| "part_value w ctx (Brace b) = brace_value w b"
| "part_value w ctx Home = (collapseHome w (lc_cwd ctx), [])"
| "part_value w ctx (Var n) = name_value w ctx n"

fun print_parts :: "part list \<Rightarrow> wstring" where
  "print_parts [] = []"
| "print_parts (p # ps) = print_part p @ print_parts ps"

fun ok_parts :: "part list \<Rightarrow> bool" where
  "ok_parts [] \<longleftrightarrow> True"
| "ok_parts (p # ps) \<longleftrightarrow> ok_part p (print_parts ps) \<and> ok_parts ps"

lemma isIdent_plain: "isIdent c \<Longrightarrow> c \<noteq> 0x7B \<and> c \<noteq> 0x7E \<and> c \<noteq> 0x24"
  by (auto simp: isIdent_def)

lemma span_append:
  "list_all P n \<Longrightarrow> rest = [] \<or> \<not> P (hd rest) \<Longrightarrow> takeWhile P (n @ rest) = n \<and> dropWhile P (n @ rest) = rest"
  by (cases rest) (auto simp: list_all_iff takeWhile_append2 dropWhile_append2)

lemma notin_set_neq: "c \<notin> set b \<Longrightarrow> x \<in> set b \<Longrightarrow> x \<noteq> c"
  by blast

lemma expand_print_part:
  assumes "ok_part p rest"
  shows "expand_loop w ctx (print_part p @ rest) = emit (part_value w ctx p) (expand_loop w ctx rest)"
proof (cases p)
  case (Brace b)
  with assms have "takeWhile (\<lambda>x. x \<noteq> 0x7D) (b @ 0x7D # rest) = b" "dropWhile (\<lambda>x. x \<noteq> 0x7D) (b @ 0x7D # rest) = 0x7D # rest"
    by (simp_all add: takeWhile_append2 dropWhile_append2 notin_set_neq)
  with Brace show ?thesis by (simp add: expand_loop.simps)
next
  case Dollar
  with assms show ?thesis by (cases rest) (auto simp: expand_loop.simps)
next
  case (Var n)
  with assms have "takeWhile isIdent (n @ rest) = n" "dropWhile isIdent (n @ rest) = rest" "n \<noteq> []" "isIdent (hd (n @ rest))"
    using span_append [of isIdent n rest] by (auto simp: list_all_iff)
  with Var isIdent_plain show ?thesis by (auto simp: expand_loop.simps)
qed (use assms in \<open>simp_all add: expand_loop.simps tilde_value_def lookupVar_def\<close>)

lemma expand_parts:
  "ok_parts ps \<Longrightarrow> expand_loop w ctx (print_parts ps) = foldr emit (map (part_value w ctx) ps) ([], [])"
  by (induction ps) (simp_all add: expand_print_part)

lemma foldr_emit: "foldr emit xs ([], []) = (concat (map fst xs), concat (map snd xs))"
  by (induction xs) (simp_all add: emit_def)

lemma dollar_part:
  "\<exists>p rest. ok_part p rest \<and> 0x24 # cs = print_part p @ rest"
proof -
  consider (opened) r where "cs = 0x7B # r" "0x7D \<notin> set r" | (brace) r where "cs = 0x7B # r" "0x7D \<in> set r"
    | (tilde) r where "cs = 0x7E # r" | (dollar) "ok_part Dollar cs" | (name) "cs \<noteq> []" "isIdent (hd cs)"
    by (cases cs) auto
  then show ?thesis
  proof cases
    case (opened r)
    then show ?thesis by (intro exI [of _ Opened] exI [of _ r]) simp
  next
    case (brace r)
    then obtain b rest where "r = b @ 0x7D # rest" "0x7D \<notin> set b" by (meson split_list_first)
    with brace show ?thesis by (intro exI [of _ "Brace b"] exI [of _ rest]) simp
  next
    case (tilde r)
    then show ?thesis by (intro exI [of _ Home] exI [of _ r]) simp
  next
    case dollar
    then show ?thesis by (intro exI [of _ Dollar] exI [of _ cs]) simp
  next
    case name
    then have "takeWhile isIdent cs \<noteq> []" by (cases cs) auto
    moreover have "dropWhile isIdent cs = [] \<or> \<not> isIdent (hd (dropWhile isIdent cs))" using hd_dropWhile by blast
    ultimately show ?thesis
      by (intro exI [of _ "Var (takeWhile isIdent cs)"] exI [of _ "dropWhile isIdent cs"])
        (auto simp: list_all_iff dest: set_takeWhileD)
  qed
qed

lemma template_has_parts: "\<exists>ps. ok_parts ps \<and> print_parts ps = tmpl"
proof (induction "length tmpl" arbitrary: tmpl rule: less_induct)
  case less
  show ?case
  proof (cases tmpl)
    case Nil
    then show ?thesis by (intro exI [of _ "[]"]) simp
  next
    case (Cons c cs)
    have "\<exists>p rest. ok_part p rest \<and> tmpl = print_part p @ rest"
      using Cons dollar_part [of cs] by (cases "c = 0x24") (auto intro: exI [of _ "Lit c"])
    then obtain p rest where p: "ok_part p rest" "tmpl = print_part p @ rest" by blast
    have "print_part p \<noteq> []" by (cases p) auto
    with p less obtain ps where "ok_parts ps" "print_parts ps = rest" by (metis length_append length_greater_0_conv less_add_same_cancel2)
    with p show ?thesis by (intro exI [of _ "p # ps"]) simp
  qed
qed

lemma part_probe:
  assumes "q \<in> set (snd (part_value w ctx p))"
  shows "isAllowedGitWalkRoot q \<or> (\<exists>b. p = Brace (wlit ''file:'' @ b) \<and> q = resolve_file_var w b)"
proof (cases p)
  case (Brace b)
  with assms brace_probe [of q w b] show ?thesis by auto
next
  case (Var n)
  with assms have "q \<in> set (snd (lookupVar w ctx n))"
    by (auto simp: name_value_def split: prod.splits option.splits)
  with lookupVar_allowed [of w ctx n] show ?thesis by (auto simp: list_all_iff)
qed (use assms in simp_all)

lemma sublist_part: "p \<in> set ps \<Longrightarrow> sublist (print_part p) (print_parts ps)"
proof (induction ps)
  case (Cons a ps)
  then show ?case by (auto intro: sublist_append_leftI simp: sublist_append)
qed simp

subsection \<open>Properties\<close>

text \<open>
  C15. A label consults the file system only under a drive letter or one of the two WSL providers,
  whatever the working directory and the title that the terminal output set; the only other paths
  are those the user's own template names by \<^verbatim>\<open>${file:...}\<close>.
\<close>

theorem label_probes_confined:
  assumes "q \<in> set (snd (ComputeLabel w tmpl ctx))"
  shows "(\<exists>d r. q = d # 0x3A # r \<and> is_drive_letter d)
    \<or> (\<exists>a b r. q = a # b # r \<and> is_slash a \<and> is_slash b \<and> host_part r \<in> wsl_hosts)
    \<or> (\<exists>path. sublist (wlit ''${file:'' @ path @ wlit ''}'') tmpl \<and> q = resolve_file_var w path)"
proof -
  obtain ps where ps: "ok_parts ps" "print_parts ps = tmpl" using template_has_parts by blast
  with assms have "q \<in> set (snd (expand_loop w ctx (print_parts ps)))"
    by (simp add: ComputeLabel_def ExpandLabelTemplate_def split: if_splits)
  then obtain p where p: "p \<in> set ps" "q \<in> set (snd (part_value w ctx p))"
    unfolding expand_parts [OF ps(1)] foldr_emit by auto
  from part_probe [OF p(2)] show ?thesis
  proof (elim disjE exE conjE)
    assume "isAllowedGitWalkRoot q"
    then show ?thesis by (cases rule: allowed_cases) blast+
  next
    fix b assume "p = Brace (wlit ''file:'' @ b)" "q = resolve_file_var w b"
    with sublist_part [OF p(1)] ps(2) show ?thesis by auto
  qed
qed

definition sample_world :: label_world where
  "sample_world = \<lparr>lw_env = (\<lambda>n. if n = wlit ''USERPROFILE'' then Some (wlit ''C:/Users/me'') else None),
     lw_exists = (\<lambda>p. p = wlit ''C:/src/axan/.git'' \<or> p = wlit ''C:/src/axan'' @ 0x5C # wlit ''.git''),
     lw_file = (\<lambda>p. if p = wlit ''C:/src/axan'' @ 0x5C # wlit ''.git'' @ 0x5C # wlit ''HEAD'' then Some (blit ''ref: refs/heads/main'' @ [0x0D, 0x0A]) else None),
     lw_utf8 = map ucast\<rparr>"

definition sample_context :: LabelContext where
  "sample_context = \<lparr>lc_cwd = wlit ''C:/src/axan/core'', lc_title = wlit ''vim'', lc_shell = wlit ''pwsh.exe''\<rparr>"

theorem label_probes_confined_witness:
  "wlit ''C:/src/axan'' @ 0x5C # wlit ''.git'' \<in> set (snd (ComputeLabel sample_world (wlit ''$branch'') sample_context)) \<and>
   (let q = wlit ''C:/src/axan'' @ 0x5C # wlit ''.git'' in
    (\<exists>d r. q = d # 0x3A # r \<and> is_drive_letter d)
    \<or> (\<exists>a b r. q = a # b # r \<and> is_slash a \<and> is_slash b \<and> host_part r \<in> wsl_hosts)
    \<or> (\<exists>path. sublist (wlit ''${file:'' @ path @ wlit ''}'') (wlit ''$branch'') \<and> q = resolve_file_var sample_world path))"
proof -
  have "wlit ''C:/src/axan'' @ 0x5C # wlit ''.git'' \<in> set (snd (ComputeLabel sample_world (wlit ''$branch'') sample_context))"
    by code_simp
  from label_probes_confined [OF this] this show ?thesis unfolding Let_def by blast
qed

text \<open>
  C16. Parsing inverts printing: a template printed from parts that may stand beside each other expands
  to the texts of its parts in order, and every template is printed from such parts.
\<close>

theorem template_expansion:
  "(ok_parts ps \<longrightarrow> fst (ExpandLabelTemplate w (print_parts ps) ctx) = concat (map (fst \<circ> part_value w ctx) ps)) \<and>
   (\<exists>qs. ok_parts qs \<and> print_parts qs = tmpl)"
  by (simp add: ExpandLabelTemplate_def expand_parts foldr_emit template_has_parts comp_def)

theorem template_expansion_witness:
  "ok_parts [Var (wlit ''Git_Branch''), Lit 0x20, Var (wlit ''nope''), Dollar] \<and>
   fst (ExpandLabelTemplate sample_world (wlit ''$Git_Branch $nope$'') sample_context) = wlit ''main $nope$'' \<and>
   (\<exists>qs. ok_parts qs \<and> print_parts qs = wlit ''${'')"
proof -
  let ?ps = "[Var (wlit ''Git_Branch''), Lit 0x20, Var (wlit ''nope''), Dollar]"
  have ok: "ok_parts ?ps" by code_simp
  have "print_parts ?ps = wlit ''$Git_Branch $nope$''" by simp
  moreover have "concat (map (fst \<circ> part_value sample_world sample_context) ?ps) = wlit ''main $nope$''" by code_simp
  ultimately show ?thesis using ok template_expansion [of ?ps sample_world sample_context "wlit ''${''"] by simp
qed

text \<open>
  C17. The directory taken for a repository is the nearest one at or above the working directory that
  holds a \<^verbatim>\<open>.git\<close> entry, and none is taken exactly when none of them holds one; the walk always ends.
\<close>

theorem findGitToplevel_nearest:
  assumes "isAllowedGitWalkRoot (stripFileScheme cwd)"
  shows "(\<exists>n. holds_git w ((parent_path ^^ n) (stripFileScheme cwd)) \<and>
              fst (findGitToplevel w cwd) = (parent_path ^^ n) (stripFileScheme cwd) \<and>
              (\<forall>m < n. \<not> holds_git w ((parent_path ^^ m) (stripFileScheme cwd))))
       \<or> (fst (findGitToplevel w cwd) = [] \<and> (\<forall>n. \<not> holds_git w ((parent_path ^^ n) (stripFileScheme cwd))))"
proof -
  have "stripFileScheme cwd \<noteq> []" using assms by (auto simp: isAllowedGitWalkRoot_def root_name_def)
  moreover have "root_name_length (stripFileScheme cwd) \<noteq> 0"
    using assms by (intro notI) (simp add: isAllowedGitWalkRoot_def root_name_def Let_def)
  ultimately have "findGitToplevel w cwd = git_walk w (stripFileScheme cwd)"
    using assms by (simp add: findGitToplevel_def)
  then show ?thesis using git_walk_nearest [OF assms, of w] by simp
qed

theorem findGitToplevel_nearest_witness:
  "isAllowedGitWalkRoot (stripFileScheme (wlit ''C:/src/axan/core'')) \<and>
   fst (findGitToplevel sample_world (wlit ''C:/src/axan/core'')) = wlit ''C:/src/axan'' \<and>
   (\<exists>n. holds_git sample_world ((parent_path ^^ n) (wlit ''C:/src/axan/core'')) \<and>
      (parent_path ^^ n) (wlit ''C:/src/axan/core'') = wlit ''C:/src/axan'')"
proof -
  have a: "isAllowedGitWalkRoot (stripFileScheme (wlit ''C:/src/axan/core''))" by code_simp
  have r: "fst (findGitToplevel sample_world (wlit ''C:/src/axan/core'')) = wlit ''C:/src/axan''" by code_simp
  have s: "stripFileScheme (wlit ''C:/src/axan/core'') = wlit ''C:/src/axan/core''" by code_simp
  show ?thesis using findGitToplevel_nearest [OF a, of sample_world] a r unfolding s by auto
qed

end
