(* ===== verification/Axan_ShellIntegration.thy ===== *)
theory Axan_ShellIntegration
  imports Axan_LabelTemplate
begin

text \<open>
  The rewriting of a spawned command line so that the shell reports its working directory,
  \<^verbatim>\<open>cascadia/TerminalApp/AxanShellIntegration.cpp\<close>: the recognition of the shell, the flags that
  make a spawn a one-shot, the installation of the script and the rewritten command line.

  \<open>integration_world\<close> is what lies outside: the folder of the packaged application (\<open>None\<close> when
  asking for it throws), the outcome of writing a file, and the texts of the two emitted scripts,
  which the code only stores and compares. \<open>files\<close> is the state of the file system.

  Shown: an unapplied result is the input, an applied one extends it and its script is installed;
  a command line that was rewritten, or that runs a command of its own, is left alone.
\<close>

subsection \<open>The command line\<close>

datatype ShellFamily = Unknown | PowerShell | Cmd | Wsl

definition is_blank :: "wchar \<Rightarrow> bool" where
  "is_blank c \<longleftrightarrow> c = 0x20 \<or> c = 0x09"

definition skipws :: "wstring \<Rightarrow> wstring" where
  "skipws s = dropWhile is_blank s"

lemma skipws_hd: "skipws s \<noteq> [] \<Longrightarrow> \<not> is_blank (hd (skipws s))"
  unfolding skipws_def by (rule hd_dropWhile)

lemma skipws_length: "length (skipws s) \<le> length s"
  by (simp add: skipws_def length_dropWhile_le)

definition exeBasenameLower :: "wstring \<Rightarrow> wstring" where
  "exeBasenameLower cmdline0 =
     (let cmdline = skipws cmdline0
      in if cmdline = [] then []
         else
           (let exe = (if hd cmdline = 0x22 then takeWhile (\<lambda>c. c \<noteq> 0x22) (tl cmdline)
                       else takeWhile (\<lambda>c. \<not> is_blank c) cmdline)
            in if exe = [] then [] else map asciiLower (filename exe)))"

definition first_token :: "wstring \<Rightarrow> wstring" where
  "first_token s = (if s \<noteq> [] \<and> hd s = 0x22 then takeWhile (\<lambda>c. c \<noteq> 0x22) (tl s) else takeWhile (\<lambda>c. \<not> is_blank c) s)"

definition after_token :: "wstring \<Rightarrow> wstring" where
  "after_token s =
     (if s \<noteq> [] \<and> hd s = 0x22 then drop 1 (dropWhile (\<lambda>c. c \<noteq> 0x22) (tl s)) else dropWhile (\<lambda>c. \<not> is_blank c) s)"

lemma after_token_shorter: "s \<noteq> [] \<Longrightarrow> \<not> is_blank (hd s) \<Longrightarrow> length (after_token s) < length s"
proof (cases s)
  case (Cons c t)
  have "length (dropWhile P t) \<le> length t" for P by (rule length_dropWhile_le)
  moreover assume "\<not> is_blank (hd s)"
  ultimately show ?thesis by (auto simp: after_token_def Cons le_imp_less_Suc diff_le_self
      intro: le_less_trans [OF diff_le_self])
qed simp

lemma next_token_shorter: "skipws s \<noteq> [] \<Longrightarrow> length (after_token (skipws s)) < length s"
  using after_token_shorter [OF _ skipws_hd] skipws_length [of s] by fastforce

function token_loop :: "wstring \<Rightarrow> wstring list" where
  "token_loop s0 =
     (let s = skipws s0
      in if s = [] then [] else map asciiLower (first_token s) # token_loop (after_token s))"
  by pat_completeness auto
termination
  by (relation "measure length") (auto simp: next_token_shorter)

declare token_loop.simps [simp del]

definition argTokensLower :: "wstring \<Rightarrow> wstring list" where
  "argTokensLower cmdline = token_loop (after_token (skipws cmdline))"

definition hasToken :: "wstring list \<Rightarrow> wstring \<Rightarrow> bool" where
  "hasToken tokens target = list_ex (\<lambda>t. t = target) tokens"

definition runParams :: "wstring list" where
  "runParams = [wlit ''command'', wlit ''encodedcommand'', wlit ''file'']"

definition run_flag :: "wstring \<Rightarrow> bool" where
  "run_flag t =
     (if length t < 2 \<or> hd t \<noteq> 0x2D then False
      else
        (let stem = takeWhile (\<lambda>c. c \<noteq> 0x3A) (tl t)
         in if stem = [] then False
            else if stem = wlit ''ec'' then True
            else list_ex (\<lambda>full. length stem \<le> length full \<and> take (length stem) full = stem) runParams))"

definition powershellHasRunFlag :: "wstring list \<Rightarrow> bool" where
  "powershellHasRunFlag tokens = list_ex run_flag tokens"

definition wslHasOneShot :: "wstring list \<Rightarrow> bool" where
  "wslHasOneShot tokens \<longleftrightarrow>
     hasToken tokens (wlit ''--'') \<or> hasToken tokens (wlit ''-e'') \<or> hasToken tokens (wlit ''--exec'')"

fun psSingleQuoteEscape :: "wstring \<Rightarrow> wstring" where
  "psSingleQuoteEscape [] = []"
| "psSingleQuoteEscape (c # s) = (if c = 0x27 then c # 0x27 # psSingleQuoteEscape s else c # psSingleQuoteEscape s)"

definition toWslMntPath :: "wstring \<Rightarrow> wstring" where
  "toWslMntPath s =
     (if length s \<ge> 2 \<and> s ! 1 = 0x3A
      then wlit ''/mnt/'' @ asciiLower (s ! 0) # map (\<lambda>c. if c = 0x5C then 0x2F else c) (drop 2 s)
      else s)"

definition DetectShellFamily :: "wstring \<Rightarrow> ShellFamily" where
  "DetectShellFamily commandline =
     (let exe = exeBasenameLower commandline
      in if exe = wlit ''pwsh.exe'' \<or> exe = wlit ''powershell.exe'' then PowerShell
         else if exe = wlit ''cmd.exe'' then Cmd
         else if exe = wlit ''wsl.exe'' then Wsl
         else Unknown)"

subsection \<open>Installing the script\<close>

type_synonym files = "wstring \<rightharpoonup> bstring"

datatype write_result = OpenFailed | WriteFailed bstring | Written

record integration_world =
  iw_localFolder :: "wstring option"
  iw_write :: "wstring \<Rightarrow> write_result"
  iw_pwshScript :: bstring
  iw_bashRcfile :: bstring

definition shellIntegrationDir :: "integration_world \<Rightarrow> wstring option" where
  "shellIntegrationDir w = map_option (\<lambda>d. path_append d (wlit ''shell-integration'')) (iw_localFolder w)"

definition materialize :: "integration_world \<Rightarrow> wstring \<Rightarrow> bstring \<Rightarrow> files \<Rightarrow> bool \<times> files" where
  "materialize w path body fs =
     (if fs path = Some body then (True, fs)
      else case iw_write w path of
             OpenFailed \<Rightarrow> (False, fs)
           | WriteFailed partial \<Rightarrow> (False, fs(path \<mapsto> partial))
           | Written \<Rightarrow> (True, fs(path \<mapsto> body)))"

subsection \<open>The rewriting\<close>

record ShellIntegration =
  si_applied :: bool
  si_commandline :: wstring
  si_promptEnv :: "wstring option"

definition unmodified :: "wstring \<Rightarrow> ShellIntegration" where
  "unmodified commandline = \<lparr>si_applied = False, si_commandline = commandline, si_promptEnv = None\<rparr>"

definition rewritten :: "wstring \<Rightarrow> ShellIntegration" where
  "rewritten cl = \<lparr>si_applied = True, si_commandline = cl, si_promptEnv = None\<rparr>"

definition pwsh_script :: "wstring \<Rightarrow> wstring" where
  "pwsh_script dir = path_append (path_append dir (wlit ''pwsh'')) (wlit ''axan-shell-integration.ps1'')"

definition bash_script :: "wstring \<Rightarrow> wstring" where
  "bash_script dir = path_append (path_append dir (wlit ''bash'')) (wlit ''axan-rcfile.sh'')"

definition pwsh_suffix :: "bool \<Rightarrow> wstring \<Rightarrow> wstring" where
  "pwsh_suffix hasNoExit script =
     (if hasNoExit then [] else wlit '' -NoExit'') @ wlit '' -Command '' @ 0x22 # wlit ''. '' @ 0x27 #
     psSingleQuoteEscape script @ [0x27, 0x22]"

definition bash_suffix :: "wstring \<Rightarrow> wstring" where
  "bash_suffix script = wlit '' -- bash --rcfile '' @ 0x22 # toWslMntPath script @ 0x22 # wlit '' -i''"

definition cmd_prompt :: wstring where
  "cmd_prompt = wlit ''$E]9;9;'' @ 0x22 # wlit ''$P'' @ 0x22 # wlit ''$E'' @ 0x5C # wlit ''$P$G''"

definition ComputeShellIntegration ::
  "integration_world \<Rightarrow> wstring \<Rightarrow> bool \<Rightarrow> files \<Rightarrow> ShellIntegration \<times> files" where
  "ComputeShellIntegration w commandline enabled fs =
     (if \<not> enabled then (unmodified commandline, fs)
      else
        (let tokens = argTokensLower commandline
         in case DetectShellFamily commandline of
              Unknown \<Rightarrow> (unmodified commandline, fs)
            | PowerShell \<Rightarrow>
                (if powershellHasRunFlag tokens then (unmodified commandline, fs)
                 else case shellIntegrationDir w of
                        None \<Rightarrow> (unmodified commandline, fs)
                      | Some dir \<Rightarrow>
                          (case materialize w (pwsh_script dir) (iw_pwshScript w) fs of
                             (False, fs1) \<Rightarrow> (unmodified commandline, fs1)
                           | (True, fs1) \<Rightarrow>
                               (rewritten (commandline @ pwsh_suffix (hasToken tokens (wlit ''-noexit'')) (pwsh_script dir)), fs1)))
            | Cmd \<Rightarrow>
                (if hasToken tokens (wlit ''/c'') then (unmodified commandline, fs)
                 else (\<lparr>si_applied = True, si_commandline = commandline, si_promptEnv = Some cmd_prompt\<rparr>, fs))
            | Wsl \<Rightarrow>
                (if wslHasOneShot tokens then (unmodified commandline, fs)
                 else case shellIntegrationDir w of
                        None \<Rightarrow> (unmodified commandline, fs)
                      | Some dir \<Rightarrow>
                          (case materialize w (bash_script dir) (iw_bashRcfile w) fs of
                             (False, fs1) \<Rightarrow> (unmodified commandline, fs1)
                           | (True, fs1) \<Rightarrow> (rewritten (commandline @ bash_suffix (bash_script dir)), fs1)))))"

subsection \<open>Tokens of an extended command line\<close>

text \<open>\<open>closed s\<close>: reading the tokens of \<open>s\<close> does not end inside a quoted one.\<close>

function closed :: "wstring \<Rightarrow> bool" where
  "closed s0 =
     (let s = skipws s0
      in if s = [] then True else if hd s = 0x22 \<and> 0x22 \<notin> set (tl s) then False else closed (after_token s))"
  by pat_completeness auto
termination
  by (relation "measure length") (auto simp: next_token_shorter)

declare closed.simps [simp del]

lemma token_append:
  assumes "s \<noteq> []" "hd s = 0x22 \<longrightarrow> 0x22 \<in> set (tl s)" "is_blank b"
  shows "first_token (s @ b # t) = first_token s" "after_token (s @ b # t) = after_token s @ b # t"
proof -
  have w: "takeWhile (\<lambda>c. \<not> is_blank c) (s @ b # t) = takeWhile (\<lambda>c. \<not> is_blank c) s"
    "dropWhile (\<lambda>c. \<not> is_blank c) (s @ b # t) = dropWhile (\<lambda>c. \<not> is_blank c) s @ b # t"
    using assms(3) by (induction s) auto
  have q: "takeWhile (\<lambda>c. c \<noteq> 0x22) (u @ v) = takeWhile (\<lambda>c. c \<noteq> 0x22) u"
    "drop (Suc 0) (dropWhile (\<lambda>c. c \<noteq> 0x22) (u @ v)) = drop (Suc 0) (dropWhile (\<lambda>c. c \<noteq> 0x22) u) @ v"
    if "0x22 \<in> set u" for u v :: wstring
    using that by (induction u) auto
  show "first_token (s @ b # t) = first_token s" "after_token (s @ b # t) = after_token s @ b # t"
    using assms(1,2) w q [of "tl s"] by (auto simp: first_token_def after_token_def)
qed

lemma skipws_append:
  "is_blank b \<Longrightarrow> skipws (s @ b # t) = (if skipws s = [] then skipws t else skipws s @ b # t)"
  unfolding skipws_def by (induction s) auto

lemma token_loop_skip: "token_loop s = (if skipws s = [] then [] else map asciiLower (first_token (skipws s)) # token_loop (after_token (skipws s)))"
  by (subst token_loop.simps) (simp add: Let_def)

lemma closed_next:
  "closed s \<Longrightarrow> skipws s \<noteq> [] \<Longrightarrow>
     (hd (skipws s) = 0x22 \<longrightarrow> 0x22 \<in> set (tl (skipws s))) \<and> closed (after_token (skipws s))"
  by (subst (asm) closed.simps) (auto simp: Let_def split: if_splits)

lemma token_loop_append: "closed s \<Longrightarrow> is_blank b \<Longrightarrow> token_loop (s @ b # t) = token_loop s @ token_loop t"
proof (induction s rule: token_loop.induct)
  case (1 s)
  show ?case
  proof (cases "skipws s = []")
    case True
    then show ?thesis using 1(3) by (simp add: token_loop_skip [of "s @ b # t"] token_loop_skip [of s] token_loop_skip [of t] skipws_append)
  next
    case False
    note nxt = closed_next [OF 1(2) False]
    have "token_loop (s @ b # t) = map asciiLower (first_token (skipws s)) # token_loop (after_token (skipws s) @ b # t)"
      using False 1(3) nxt by (subst token_loop_skip) (simp add: skipws_append token_append)
    also have "token_loop (after_token (skipws s) @ b # t) = token_loop (after_token (skipws s)) @ token_loop t"
      using 1(1) [OF refl False _ 1(3)] nxt by blast
    finally show ?thesis using False by (simp add: token_loop_skip [of s])
  qed
qed

lemma exeBasename_first:
  "exeBasenameLower s =
     (if skipws s = [] \<or> first_token (skipws s) = [] then [] else map asciiLower (filename (first_token (skipws s))))"
  by (simp add: exeBasenameLower_def first_token_def Let_def)

lemma family_known: "DetectShellFamily s \<noteq> Unknown \<Longrightarrow> skipws s \<noteq> []"
  by (auto simp: DetectShellFamily_def exeBasename_first)

lemma extended_command_line:
  assumes "closed s" "is_blank b" "DetectShellFamily s \<noteq> Unknown"
  shows "DetectShellFamily (s @ b # t) = DetectShellFamily s"
    "argTokensLower (s @ b # t) = argTokensLower s @ token_loop t"
proof -
  note ne = family_known [OF assms(3)]
  note nxt = closed_next [OF assms(1) ne]
  have skip: "skipws (s @ b # t) = skipws s @ b # t" using ne assms(2) by (simp add: skipws_append)
  have "exeBasenameLower (s @ b # t) = exeBasenameLower s"
    using ne nxt assms(2) by (simp add: exeBasename_first skip token_append)
  then show "DetectShellFamily (s @ b # t) = DetectShellFamily s" by (simp add: DetectShellFamily_def)
  show "argTokensLower (s @ b # t) = argTokensLower s @ token_loop t"
    using ne nxt assms(2) by (simp add: argTokensLower_def skip token_append token_loop_append)
qed

lemma token_loop_word:
  assumes "s \<noteq> []" "list_all (\<lambda>c. \<not> is_blank c \<and> c \<noteq> 0x22) s" "is_blank b"
  shows "token_loop (s @ b # t) = map asciiLower s # token_loop (b # t)"
proof -
  from assms have s: "skipws (s @ b # t) = s @ b # t" "hd (s @ b # t) \<noteq> 0x22" by (cases s; simp add: skipws_def)+
  have "takeWhile (\<lambda>c. \<not> is_blank c) (s @ b # t) = s" "dropWhile (\<lambda>c. \<not> is_blank c) (s @ b # t) = b # t"
    using span_append [of "\<lambda>c. \<not> is_blank c" s "b # t"] assms by (auto simp: list_all_iff)
  with s assms(1) show ?thesis by (subst token_loop_skip) (simp add: first_token_def after_token_def)
qed


lemma token_loop_blank: "is_blank b \<Longrightarrow> token_loop (b # t) = token_loop t"
  by (subst (1 2) token_loop_skip) (simp add: skipws_def)

lemma injected_tokens:
  "token_loop (wlit ''-NoExit'' @ 0x20 # x) = wlit ''-noexit'' # token_loop x"
  "token_loop (wlit ''-Command'' @ 0x20 # x) = wlit ''-command'' # token_loop x"
  "token_loop (wlit ''--'' @ 0x20 # x) = wlit ''--'' # token_loop x"
  by (subst token_loop_word; simp add: is_blank_def token_loop_blank asciiLower_def)+

text \<open>A command line to which a command was appended is no longer a plain one.\<close>

lemma pwsh_command_appended:
  assumes "closed s" "DetectShellFamily s = PowerShell"
    and "t = wlit ''-Command'' @ 0x20 # x \<or> t = wlit ''-NoExit'' @ 0x20 # wlit ''-Command'' @ 0x20 # x"
  shows "ComputeShellIntegration w (s @ 0x20 # t) enabled fs = (unmodified (s @ 0x20 # t), fs)"
proof -
  have blank: "is_blank 0x20" by (simp add: is_blank_def)
  have "run_flag (wlit ''-command'')" by code_simp
  moreover have "wlit ''-command'' \<in> set (token_loop t)" using assms(3) by (auto simp only: injected_tokens list.set insert_iff)
  ultimately have "powershellHasRunFlag (argTokensLower s @ token_loop t)"
    by (auto simp: powershellHasRunFlag_def list_ex_iff)
  then show ?thesis
    using extended_command_line [OF assms(1) blank, of t] assms(2) by (simp add: ComputeShellIntegration_def Let_def)
qed

lemma wsl_command_appended:
  assumes "closed s" "DetectShellFamily s = Wsl"
  shows "ComputeShellIntegration w (s @ 0x20 # wlit ''--'' @ 0x20 # x) enabled fs = (unmodified (s @ 0x20 # wlit ''--'' @ 0x20 # x), fs)"
proof -
  have blank: "is_blank 0x20" by (simp add: is_blank_def)
  have "wslHasOneShot (argTokensLower s @ token_loop (wlit ''--'' @ 0x20 # x))"
    by (simp add: injected_tokens wslHasOneShot_def hasToken_def list_ex_iff del: wlit_simps)
  then show ?thesis
    using extended_command_line [OF assms(1) blank, of "wlit ''--'' @ 0x20 # x"] assms(2)
    by (simp add: ComputeShellIntegration_def Let_def del: wlit_simps)
qed

lemma suffix_shapes:
  "\<exists>x. pwsh_suffix b script = 0x20 # wlit ''-Command'' @ 0x20 # x \<or>
       pwsh_suffix b script = 0x20 # wlit ''-NoExit'' @ 0x20 # wlit ''-Command'' @ 0x20 # x"
  "\<exists>x. bash_suffix script = 0x20 # wlit ''--'' @ 0x20 # x"
  by (simp_all add: pwsh_suffix_def bash_suffix_def)

subsection \<open>Properties\<close>

text \<open>
  C33. What a spawn becomes. When nothing is applied, the command line is the given one and no prompt
  is set. When the rewriting is applied, it was enabled, the shell is a known one that was started
  without a command of its own, the given command line is kept as the beginning of the new one,
  only cmd gets a prompt, and the script that the new command line loads is installed with the
  current text.
\<close>

theorem shell_integration_result:
  assumes "ComputeShellIntegration w commandline enabled fs = (r, fs1)"
  shows "(\<not> si_applied r \<longrightarrow> r = unmodified commandline) \<and>
    (si_applied r \<longrightarrow> enabled \<and> (\<exists>suffix. si_commandline r = commandline @ suffix) \<and>
      (si_promptEnv r \<noteq> None \<longleftrightarrow> DetectShellFamily commandline = Cmd) \<and>
      (case DetectShellFamily commandline of
         Unknown \<Rightarrow> False
       | PowerShell \<Rightarrow> \<not> powershellHasRunFlag (argTokensLower commandline) \<and>
           (\<exists>dir. shellIntegrationDir w = Some dir \<and> fs1 (pwsh_script dir) = Some (iw_pwshScript w))
       | Cmd \<Rightarrow> \<not> hasToken (argTokensLower commandline) (wlit ''/c'') \<and> si_commandline r = commandline
       | Wsl \<Rightarrow> \<not> wslHasOneShot (argTokensLower commandline) \<and>
           (\<exists>dir. shellIntegrationDir w = Some dir \<and> fs1 (bash_script dir) = Some (iw_bashRcfile w))))"
proof (cases "DetectShellFamily commandline")
  case PowerShell
  then show ?thesis using assms
    by (auto simp: ComputeShellIntegration_def Let_def unmodified_def rewritten_def materialize_def
        split: if_splits option.splits write_result.splits)
next
  case Wsl
  then show ?thesis using assms
    by (auto simp: ComputeShellIntegration_def Let_def unmodified_def rewritten_def materialize_def
        split: if_splits option.splits write_result.splits)
qed (use assms in \<open>auto simp: ComputeShellIntegration_def Let_def unmodified_def split: if_splits\<close>)

definition sample_integration_world :: integration_world where
  "sample_integration_world = \<lparr>iw_localFolder = Some (wlit ''C:/L''), iw_write = (\<lambda>_. Written),
     iw_pwshScript = blit ''prompt'', iw_bashRcfile = blit ''rc''\<rparr>"

theorem shell_integration_result_witness:
  "si_applied (fst (ComputeShellIntegration sample_integration_world (wlit ''pwsh.exe -NoLogo'') True Map.empty)) \<and>
   DetectShellFamily (wlit ''pwsh.exe -NoLogo'') = PowerShell \<and>
   (\<exists>dir. shellIntegrationDir sample_integration_world = Some dir \<and>
      snd (ComputeShellIntegration sample_integration_world (wlit ''pwsh.exe -NoLogo'') True Map.empty) (pwsh_script dir)
        = Some (blit ''prompt''))"
proof -
  let ?c = "ComputeShellIntegration sample_integration_world (wlit ''pwsh.exe -NoLogo'') True Map.empty"
  have f: "DetectShellFamily (wlit ''pwsh.exe -NoLogo'') = PowerShell" by code_simp
  have a: "si_applied (fst ?c)" by code_simp
  have "iw_pwshScript sample_integration_world = blit ''prompt''" by (simp add: sample_integration_world_def)
  with shell_integration_result [of sample_integration_world "wlit ''pwsh.exe -NoLogo''" True Map.empty "fst ?c" "snd ?c"] f a
  show ?thesis by simp
qed

text \<open>
  A command line is rewritten at most once: computing the integration of its own result, in any
  later state, leaves the command line as it is. The given command line must not end inside a
  quoted token.
\<close>

lemma no_second_injection:
  assumes "closed commandline" and "ComputeShellIntegration w commandline enabled fs = (r, fs1)" and "si_applied r"
  shows "si_commandline (fst (ComputeShellIntegration w2 (si_commandline r) enabled2 fs2)) = si_commandline r"
proof (cases "DetectShellFamily commandline")
  case PowerShell
  with assms(2,3) obtain b script where "si_commandline r = commandline @ pwsh_suffix b script"
    by (auto simp: ComputeShellIntegration_def Let_def unmodified_def rewritten_def split: if_splits option.splits prod.splits bool.splits)
  with suffix_shapes(1) obtain x t where "si_commandline r = commandline @ 0x20 # t"
    "t = wlit ''-Command'' @ 0x20 # x \<or> t = wlit ''-NoExit'' @ 0x20 # wlit ''-Command'' @ 0x20 # x" by metis
  then show ?thesis using pwsh_command_appended [OF assms(1) PowerShell] by (simp only: fst_conv unmodified_def ShellIntegration.simps)
next
  case Wsl
  with assms(2,3) obtain script where "si_commandline r = commandline @ bash_suffix script"
    by (auto simp: ComputeShellIntegration_def Let_def unmodified_def rewritten_def split: if_splits option.splits prod.splits bool.splits)
  with suffix_shapes(2) obtain x where "si_commandline r = commandline @ 0x20 # wlit ''--'' @ 0x20 # x" by metis
  then show ?thesis using wsl_command_appended [OF assms(1) Wsl] by (simp only: fst_conv unmodified_def ShellIntegration.simps)
next
  case Cmd
  with assms(2,3) have "si_commandline r = commandline"
    by (auto simp: ComputeShellIntegration_def Let_def unmodified_def split: if_splits)
  then show ?thesis using Cmd by (simp add: ComputeShellIntegration_def Let_def unmodified_def)
qed (use assms(2,3) in \<open>auto simp: ComputeShellIntegration_def Let_def unmodified_def split: if_splits\<close>)

end
