(* ===== verification/Axan_SessionTree.thy ===== *)
theory Axan_SessionTree
  imports Axan_StartupEditor Axan_ShellIntegration
begin

text \<open>
  The expansion of the saved startup tree into the sessions to spawn,
  \<^verbatim>\<open>cascadia/TerminalApp/AxanSessionTree.cpp\<close>.

  The settings object is a parameter, \<open>startup_settings\<close>: the resolved default profile (\<open>None\<close> when
  there is none or asking for it throws), the startup entries, and the profile of a GUID text (\<open>None\<close>
  when the text is not a GUID or names no profile). \<^verbatim>\<open>std::unordered_map\<close>s that are only looked up
  are HOL maps. A spawn index is an \<open>int\<close>; \<^verbatim>\<open>-1\<close> is the root.

  Shown: positions are always valid (a parent is spawned before its children, a separator follows a
  session of its own scope); a well-formed tree is spawned completely and with its own nesting, hence
  so is every tree the settings page saves; the commands that startup entries run are not rewritten
  by the shell integration.
\<close>

subsection \<open>Data\<close>

record profile =
  p_Guid :: wstring
  p_Commandline :: wstring

record startup_settings =
  st_defaultProfile :: "profile option"
  st_StartupSessions :: "launch_entry list option"
  st_findProfile :: "wstring \<Rightarrow> profile option"
  st_userProfile :: "wstring option"

record NewTerminalArgs =
  nt_Profile :: wstring
  nt_StartingDirectory :: "wstring option"
  nt_Commandline :: "wstring option"

record StartupSession =
  ss_action :: NewTerminalArgs
  ss_labelTemplate :: wstring
  ss_id :: wstring
  ss_iconOverride :: wstring
  ss_iconColor :: wstring
  ss_colorTarget :: wstring
  ss_parentIndex :: int

record StartupSeparator =
  sp_id :: wstring
  sp_style :: wstring
  sp_height :: height
  sp_placement :: wstring
  sp_label :: wstring
  sp_collapsed :: bool
  sp_parentSpawnIndex :: int
  sp_afterSpawnIndex :: int

definition KindSessionW :: wstring where "KindSessionW = wlit ''session''"
definition StyleSpaceW :: wstring where "StyleSpaceW = wlit ''space''"
definition PlacementBottomW :: wstring where "PlacementBottomW = wlit ''bottom''"

definition MAX_PATH :: nat where "MAX_PATH = 260"

subsection \<open>Directory, command and profile of an entry\<close>

text \<open>
  \<^verbatim>\<open>GetEnvironmentVariableW\<close> into a buffer of \<open>MAX_PATH\<close> characters returns the length of a value
  that fits, and at least \<open>MAX_PATH\<close> for one that does not.
\<close>

definition expandDirectory :: "startup_settings \<Rightarrow> wstring \<Rightarrow> wstring" where
  "expandDirectory st dir =
     (if dir = [] then []
      else if hd dir = 0x7E \<and> (length dir = 1 \<or> dir ! 1 = 0x5C \<or> dir ! 1 = 0x2F) then
        (case st_userProfile st of
           None \<Rightarrow> dir
         | Some home \<Rightarrow> if length home > 0 \<and> length home < MAX_PATH then home @ drop 1 dir else dir)
      else dir)"

definition wrapCommandForSurvival :: "wstring \<Rightarrow> wstring \<Rightarrow> wstring" where
  "wrapCommandForSurvival shell cmd =
     (case DetectShellFamily shell of
        PowerShell \<Rightarrow> shell @ wlit '' -NoExit -Command '' @ 0x22 # cmd @ [0x22]
      | Cmd \<Rightarrow> shell @ wlit '' /k '' @ 0x22 # cmd @ [0x22]
      | Wsl \<Rightarrow> shell @ wlit '' -- bash -ic '' @ 0x22 # cmd @ wlit ''; exec bash -i'' @ [0x22]
      | Unknown \<Rightarrow> cmd)"

definition resolveProfile :: "startup_settings \<Rightarrow> wstring \<Rightarrow> profile \<Rightarrow> profile" where
  "resolveProfile st profileGuid fallback =
     (if profileGuid \<noteq> [] then (case st_findProfile st profileGuid of None \<Rightarrow> fallback | Some p \<Rightarrow> p) else fallback)"

subsection \<open>The loop over the entries\<close>

record load_state =
  ls_result :: "StartupSession list"
  ls_separators :: "StartupSeparator list"
  ls_indexById :: "wstring \<rightharpoonup> int"
  ls_separatorParentById :: "wstring \<rightharpoonup> int"
  ls_lastSessionInScope :: "int \<rightharpoonup> int"

definition load_start :: load_state where
  "load_start = \<lparr>ls_result = [], ls_separators = [], ls_indexById = Map.empty,
     ls_separatorParentById = Map.empty, ls_lastSessionInScope = Map.empty\<rparr>"

definition resolveParent :: "load_state \<Rightarrow> launch_entry \<Rightarrow> int" where
  "resolveParent ls entry =
     (let parentId = le_ParentId entry
      in if parentId = [] then - 1
         else case ls_indexById ls parentId of
                Some i \<Rightarrow> i
              | None \<Rightarrow> (case ls_separatorParentById ls parentId of Some i \<Rightarrow> i | None \<Rightarrow> - 1))"

definition separator_of :: "load_state \<Rightarrow> launch_entry \<Rightarrow> StartupSeparator" where
  "separator_of ls entry =
     (let parent = resolveParent ls entry
      in \<lparr>sp_id = le_Id entry,
          sp_style = (if le_SeparatorStyle entry = StyleSpaceW then StyleSpaceW else StyleLineW),
          sp_height = NormalizeSeparatorHeight (le_Height entry),
          sp_placement = (if le_Placement entry = PlacementBottomW then PlacementBottomW else PlacementInlineW),
          sp_label = le_Name entry,
          sp_collapsed = (le_Collapsed entry \<and> le_Name entry \<noteq> []),
          sp_parentSpawnIndex = parent,
          sp_afterSpawnIndex = (case ls_lastSessionInScope ls parent of Some i \<Rightarrow> i | None \<Rightarrow> - 1)\<rparr>)"

definition terminal_args :: "startup_settings \<Rightarrow> profile \<Rightarrow> launch_entry \<Rightarrow> NewTerminalArgs" where
  "terminal_args st defaultProfile entry =
     (let target = resolveProfile st (le_Profile entry) defaultProfile;
          dir = expandDirectory st (le_Directory entry)
      in \<lparr>nt_Profile = p_Guid target,
          nt_StartingDirectory = (if dir \<noteq> [] then Some dir else None),
          nt_Commandline = (if le_Command entry \<noteq> [] then Some (wrapCommandForSurvival (p_Commandline target) (le_Command entry)) else None)\<rparr>)"

definition load_separator :: "launch_entry \<Rightarrow> load_state \<Rightarrow> load_state" where
  "load_separator entry ls =
     (let sep = separator_of ls entry
      in ls\<lparr>ls_separatorParentById :=
              (if le_Id entry \<noteq> [] then (ls_separatorParentById ls)(le_Id entry \<mapsto> sp_parentSpawnIndex sep)
               else ls_separatorParentById ls),
            ls_separators := ls_separators ls @ [sep]\<rparr>)"

definition load_session :: "startup_settings \<Rightarrow> profile \<Rightarrow> launch_entry \<Rightarrow> load_state \<Rightarrow> load_state" where
  "load_session st defaultProfile entry ls =
     (let parentIndex = resolveParent ls entry;
          myIndex = int (length (ls_result ls));
          session = \<lparr>ss_action = terminal_args st defaultProfile entry, ss_labelTemplate = le_Name entry,
            ss_id = le_Id entry, ss_iconOverride = le_Icon entry, ss_iconColor = le_Color entry,
            ss_colorTarget = le_ColorTarget entry, ss_parentIndex = parentIndex\<rparr>
      in ls\<lparr>ls_indexById := (if le_Id entry \<noteq> [] then (ls_indexById ls)(le_Id entry \<mapsto> myIndex) else ls_indexById ls),
            ls_lastSessionInScope := (ls_lastSessionInScope ls)(parentIndex \<mapsto> myIndex),
            ls_result := ls_result ls @ [session]\<rparr>)"

definition load_entry :: "startup_settings \<Rightarrow> profile \<Rightarrow> launch_entry \<Rightarrow> load_state \<Rightarrow> load_state" where
  "load_entry st defaultProfile entry ls =
     (let kind = le_Kind entry
      in if kind \<noteq> [] \<and> kind \<noteq> KindSessionW \<and> kind \<noteq> KindSeparatorW then ls
         else if kind = KindSeparatorW then load_separator entry ls
         else load_session st defaultProfile entry ls)"

definition LoadStartupTree :: "startup_settings option \<Rightarrow> StartupSession list \<times> StartupSeparator list" where
  "LoadStartupTree settings =
     (case settings of
        None \<Rightarrow> ([], [])
      | Some st \<Rightarrow>
          (case st_defaultProfile st of
             None \<Rightarrow> ([], [])
           | Some defaultProfile \<Rightarrow>
               (case st_StartupSessions st of
                  None \<Rightarrow> ([], [])
                | Some entries \<Rightarrow>
                    if entries = [] then ([], [])
                    else
                      (let ls = fold (load_entry st defaultProfile) entries load_start
                       in (ls_result ls, if ls_result ls = [] then [] else ls_separators ls)))))"

subsection \<open>Positions\<close>

text \<open>
  \<open>in_scope ss i\<close>: \<open>i\<close> is the root or the index of a session. The invariant of the loop: every
  position that a map remembers is valid, and a remembered last session lies in its scope.
\<close>

definition in_scope :: "StartupSession list \<Rightarrow> int \<Rightarrow> bool" where
  "in_scope ss i \<longleftrightarrow> - 1 \<le> i \<and> i < int (length ss)"

definition sibling_of :: "StartupSession list \<Rightarrow> int \<Rightarrow> int \<Rightarrow> bool" where
  "sibling_of ss scope i \<longleftrightarrow> 0 \<le> i \<and> i < int (length ss) \<and> ss_parentIndex (ss ! nat i) = scope"

definition sessions_ok :: "StartupSession list \<Rightarrow> bool" where
  "sessions_ok ss \<longleftrightarrow> (\<forall>k < length ss. - 1 \<le> ss_parentIndex (ss ! k) \<and> ss_parentIndex (ss ! k) < int k)"

definition separator_ok :: "StartupSession list \<Rightarrow> StartupSeparator \<Rightarrow> bool" where
  "separator_ok ss s \<longleftrightarrow> in_scope ss (sp_parentSpawnIndex s) \<and>
     (sp_afterSpawnIndex s = - 1 \<or> sibling_of ss (sp_parentSpawnIndex s) (sp_afterSpawnIndex s)) \<and>
     sp_style s \<in> {StyleLineW, StyleSpaceW} \<and> sp_placement s \<in> {PlacementInlineW, PlacementBottomW} \<and>
     NormalizeSeparatorHeight (sp_height s) = sp_height s \<and> (sp_collapsed s \<longrightarrow> sp_label s \<noteq> [])"

definition load_inv :: "load_state \<Rightarrow> bool" where
  "load_inv ls \<longleftrightarrow> sessions_ok (ls_result ls) \<and>
     (\<forall>s \<in> set (ls_separators ls). separator_ok (ls_result ls) s) \<and>
     (\<forall>i \<in> ran (ls_indexById ls). in_scope (ls_result ls) i) \<and>
     (\<forall>i \<in> ran (ls_separatorParentById ls). in_scope (ls_result ls) i) \<and>
     (\<forall>scope i. ls_lastSessionInScope ls scope = Some i \<longrightarrow> sibling_of (ls_result ls) scope i)"

lemma resolveParent_in_scope: "load_inv ls \<Longrightarrow> in_scope (ls_result ls) (resolveParent ls e)"
  by (auto simp: resolveParent_def load_inv_def in_scope_def Let_def ran_def split: option.splits)

lemma separator_of_ok:
  assumes "load_inv ls"
  shows "separator_ok (ls_result ls) (separator_of ls e)"
  using resolveParent_in_scope [OF assms, of e] assms
  by (auto simp: separator_ok_def separator_of_def load_inv_def Let_def split: option.splits)

lemma in_scope_append: "in_scope ss i \<Longrightarrow> in_scope (ss @ [s]) i"
  by (simp add: in_scope_def)

lemma sibling_of_append: "sibling_of ss p i \<Longrightarrow> sibling_of (ss @ [s]) p i"
  by (auto simp: sibling_of_def nth_append)

lemma separator_ok_append: "separator_ok ss x \<Longrightarrow> separator_ok (ss @ [s]) x"
  by (auto simp: separator_ok_def in_scope_append sibling_of_append)

lemma load_separator_inv: "load_inv ls \<Longrightarrow> load_inv (load_separator e ls)"
  using separator_of_ok [of ls e]
  by (auto simp: load_separator_def load_inv_def Let_def separator_ok_def ran_def split: if_splits)

lemma load_session_inv:
  assumes "load_inv ls"
  shows "load_inv (load_session st p e ls)"
proof -
  obtain s where s: "ls_result (load_session st p e ls) = ls_result ls @ [s]" "ss_parentIndex s = resolveParent ls e"
    by (simp add: load_session_def Let_def)
  have "sessions_ok (ls_result ls @ [s])"
    using assms resolveParent_in_scope [OF assms, of e]
    by (auto simp: load_inv_def sessions_ok_def in_scope_def nth_append s(2) less_Suc_eq)
  moreover have "in_scope (ls_result ls @ [s]) (int (length (ls_result ls)))" by (simp add: in_scope_def)
  moreover have "sibling_of (ls_result ls @ [s]) (resolveParent ls e) (int (length (ls_result ls)))"
    by (simp add: sibling_of_def s(2))
  ultimately show ?thesis using assms
    unfolding load_inv_def s(1)
    by (auto simp: load_session_def Let_def ran_def separator_ok_append in_scope_append sibling_of_append)
qed

lemma load_entry_inv: "load_inv ls \<Longrightarrow> load_inv (load_entry st p e ls)"
  by (simp add: load_entry_def Let_def load_separator_inv load_session_inv)

lemma load_fold_inv: "load_inv ls \<Longrightarrow> load_inv (fold (load_entry st p) es ls)"
  by (induction es arbitrary: ls) (simp_all add: load_entry_inv)

lemma load_start_inv: "load_inv load_start"
  by (simp add: load_inv_def load_start_def sessions_ok_def)

text \<open>
  C34. Positions. Whatever the settings hold, also entries with unknown kinds, missing, forward or
  repeated ids: the parent of a session is the root or a session that is spawned before it, and a
  separator lies at the root or under a spawned session, after a session of that same scope or first
  in it, with a known style and placement and a normalized height, and is collapsed only under a
  label. Separators are returned only together with sessions.
\<close>

theorem startup_positions_valid:
  "sessions_ok (fst (LoadStartupTree settings)) \<and>
   (\<forall>s \<in> set (snd (LoadStartupTree settings)). separator_ok (fst (LoadStartupTree settings)) s) \<and>
   (fst (LoadStartupTree settings) = [] \<longrightarrow> snd (LoadStartupTree settings) = [])"
  using load_fold_inv [OF load_start_inv]
  by (auto simp: LoadStartupTree_def Let_def load_inv_def sessions_ok_def split: option.splits)

definition sample_startup :: startup_settings where
  "sample_startup = \<lparr>st_defaultProfile = Some \<lparr>p_Guid = wlit ''g'', p_Commandline = wlit ''pwsh.exe''\<rparr>,
     st_StartupSessions = Some [empty_entry\<lparr>le_Id := wlit ''a''\<rparr>,
       empty_entry\<lparr>le_Id := wlit ''s'', le_Kind := KindSeparatorW, le_ParentId := wlit ''a''\<rparr>,
       empty_entry\<lparr>le_Id := wlit ''b'', le_ParentId := wlit ''a'', le_Command := wlit ''htop'', le_Directory := wlit ''~/x''\<rparr>],
     st_findProfile = (\<lambda>_. None), st_userProfile = Some (wlit ''C:/Users/me'')\<rparr>"

theorem startup_positions_valid_witness:
  "length (fst (LoadStartupTree (Some sample_startup))) = 2 \<and> length (snd (LoadStartupTree (Some sample_startup))) = 1 \<and>
   ss_parentIndex (fst (LoadStartupTree (Some sample_startup)) ! 1) < 1 \<and>
   separator_ok (fst (LoadStartupTree (Some sample_startup))) (snd (LoadStartupTree (Some sample_startup)) ! 0)"
proof -
  have "length (fst (LoadStartupTree (Some sample_startup))) = 2" "length (snd (LoadStartupTree (Some sample_startup))) = 1"
    by code_simp+
  moreover have "ss_parentIndex (fst (LoadStartupTree (Some sample_startup)) ! 1) < int 1"
    using startup_positions_valid [of "Some sample_startup"] calculation(1) by (metis one_less_numeral_iff semiring_norm(76) sessions_ok_def)
  ultimately show ?thesis using startup_positions_valid [of "Some sample_startup"] by simp
qed

subsection \<open>A well-formed tree is spawned as it is\<close>

definition known_kind :: "launch_entry \<Rightarrow> bool" where
  "known_kind e \<longleftrightarrow> le_Kind e = [] \<or> le_Kind e = KindSessionW \<or> le_Kind e = KindSeparatorW"

definition session_entries :: "launch_entry list \<Rightarrow> launch_entry list" where
  "session_entries es = filter (\<lambda>e. le_Kind e \<noteq> KindSeparatorW) es"

text \<open>\<open>spawns st p ss e s\<close>: the session \<open>s\<close> is what the entry \<open>e\<close> asks for, under the session of its parent in \<open>ss\<close>.\<close>

definition spawns :: "startup_settings \<Rightarrow> profile \<Rightarrow> StartupSession list \<Rightarrow> launch_entry \<Rightarrow> StartupSession \<Rightarrow> bool" where
  "spawns st p ss e s \<longleftrightarrow>
     ss_id s = le_Id e \<and> ss_action s = terminal_args st p e \<and> ss_labelTemplate s = le_Name e \<and>
     ss_iconOverride s = le_Icon e \<and> ss_iconColor s = le_Color e \<and> ss_colorTarget s = le_ColorTarget e \<and>
     (if le_ParentId e = [] then ss_parentIndex s = - 1
      else 0 \<le> ss_parentIndex s \<and> ss_parentIndex s < int (length ss) \<and> ss_id (ss ! nat (ss_parentIndex s)) = le_ParentId e)"

definition spawned_so_far :: "startup_settings \<Rightarrow> profile \<Rightarrow> launch_entry list \<Rightarrow> load_state \<Rightarrow> bool" where
  "spawned_so_far st p es ls \<longleftrightarrow> list_all2 (spawns st p (ls_result ls)) (session_entries es) (ls_result ls) \<and>
     (\<forall>k < length (ls_result ls). ls_indexById ls (ss_id (ls_result ls ! k)) = Some (int k))"

lemma spawns_append: "spawns st p ss e s \<Longrightarrow> spawns st p (ss @ [x]) e s"
  by (auto simp: spawns_def nth_append)

lemma spawned_ids: "spawned_so_far st p es ls \<Longrightarrow> map ss_id (ls_result ls) = map le_Id (session_entries es)"
  by (auto simp: spawned_so_far_def list_all2_conv_all_nth spawns_def intro!: nth_equalityI)

lemma load_session_spawned:
  assumes "spawned_so_far st p es ls" and "le_Id e \<noteq> []" "le_Id e \<notin> set (map le_Id es)" "le_Kind e \<noteq> KindSeparatorW"
    and "le_ParentId e = [] \<or> le_ParentId e \<in> set (map le_Id (session_entries es))"
  shows "spawned_so_far st p (es @ [e]) (load_session st p e ls)"
proof -
  note ids = spawned_ids [OF assms(1)]
  define s where "s = last (ls_result (load_session st p e ls))"
  have r: "ls_result (load_session st p e ls) = ls_result ls @ [s]"
    and i: "ls_indexById (load_session st p e ls) = (ls_indexById ls)(le_Id e \<mapsto> int (length (ls_result ls)))"
    using assms(2) by (simp_all add: s_def load_session_def Let_def)
  have "spawns st p (ls_result ls @ [s]) e s"
  proof (cases "le_ParentId e = []")
    case True
    then show ?thesis by (simp add: spawns_def s_def load_session_def Let_def resolveParent_def)
  next
    case False
    with assms(5) ids have "le_ParentId e \<in> set (map ss_id (ls_result ls))" by simp
    then obtain k where k: "k < length (ls_result ls)" "ss_id (ls_result ls ! k) = le_ParentId e" by (auto simp: in_set_conv_nth)
    with assms(1) have "ls_indexById ls (le_ParentId e) = Some (int k)" by (metis spawned_so_far_def)
    with False k show ?thesis
      by (simp add: spawns_def s_def load_session_def Let_def resolveParent_def nth_append)
  qed
  moreover have "ss_id (ls_result ls ! k) \<noteq> le_Id e" if "k < length (ls_result ls)" for k
  proof -
    have "ss_id (ls_result ls ! k) \<in> set (map le_Id (session_entries es))" using that ids by (metis length_map nth_map nth_mem)
    then show ?thesis using assms(3) by (auto simp: session_entries_def)
  qed
  moreover have "ss_id s = le_Id e" by (simp add: s_def load_session_def Let_def)
  ultimately show ?thesis using assms(1,4) unfolding spawned_so_far_def r i
    by (auto simp: session_entries_def nth_append less_Suc_eq intro!: list_all2_appendI elim!: list_all2_mono intro: spawns_append)
qed

lemma load_separator_spawned:
  "spawned_so_far st p es ls \<Longrightarrow> le_Kind e = KindSeparatorW \<Longrightarrow> spawned_so_far st p (es @ [e]) (load_separator e ls)"
  by (simp add: spawned_so_far_def load_separator_def session_entries_def Let_def)

lemma load_fold_spawned:
  assumes "spawned_so_far st p es ls" "wfs (set (map le_Id (session_entries es))) (map entry_node fs)"
    and "distinct (map le_Id (es @ fs))" "\<forall>e \<in> set fs. known_kind e \<and> le_Id e \<noteq> []"
  shows "spawned_so_far st p (es @ fs) (fold (load_entry st p) fs ls)"
  using assms
proof (induction fs arbitrary: es ls)
  case (Cons e fs)
  have node: "n_id (entry_node e) = le_Id e" "n_parentId (entry_node e) = le_ParentId e"
    "n_separator (entry_node e) \<longleftrightarrow> le_Kind e = KindSeparatorW"
    by (simp_all add: entry_node_def node_of_def rowFromModel_def IsSeparator_def)
  have "spawned_so_far st p (es @ [e]) (load_entry st p e ls)"
    using Cons.prems load_session_spawned [of st p es ls e] load_separator_spawned [of st p es ls e]
    by (auto simp: load_entry_def Let_def known_kind_def node)
  moreover have "wfs (set (map le_Id (session_entries (es @ [e])))) (map entry_node fs)"
    using Cons.prems(2) by (simp add: node session_entries_def split: if_splits)
  ultimately show ?case using Cons.IH [of "es @ [e]" "load_entry st p e ls"] Cons.prems(3,4) by simp
qed simp

lemma tree_spawned:
  assumes "tree_ok (map entry_node es)" "\<forall>e \<in> set es. known_kind e"
    and "st_defaultProfile st = Some p" "st_StartupSessions st = Some es"
  shows "list_all2 (spawns st p (fst (LoadStartupTree (Some st)))) (session_entries es) (fst (LoadStartupTree (Some st)))"
proof -
  have ids: "n_id (entry_node e) = le_Id e" for e by (simp add: entry_node_def node_of_def rowFromModel_def)
  have "map n_id (map entry_node es) = map le_Id es" by (simp add: ids)
  with assms(1) have "distinct (map le_Id es)" "\<forall>e \<in> set es. le_Id e \<noteq> []" "wfs {} (map entry_node es)"
    by (auto simp: tree_ok_def ids simp del: map_map)
  with load_fold_spawned [of st p "[]" load_start es] assms(2)
  have "spawned_so_far st p es (fold (load_entry st p) es load_start)"
    by (simp add: session_entries_def spawned_so_far_def load_start_def)
  moreover have "fst (LoadStartupTree (Some st)) = ls_result (fold (load_entry st p) es load_start)"
    using assms(3,4) by (simp add: LoadStartupTree_def Let_def load_start_def)
  ultimately show ?thesis by (simp add: spawned_so_far_def)
qed

lemma saved_tree_nodes:
  assumes "map reopened es = map modelFromRow rs"
  shows "map entry_node es = map node_of rs"
proof -
  have "entry_node (reopened e) = entry_node e" for e
    by (simp add: entry_node_def reopened_def node_of_def rowFromModel_def modelFromRow_def IsSeparator_def)
  then have "map entry_node es = map entry_node (map reopened es)" by simp
  also have "\<dots> = map entry_node (map modelFromRow rs)" by (simp only: assms)
  also have "\<dots> = map node_of rs" by (simp add: entry_node_def node_of_def rowFromModel_def modelFromRow_def IsSeparator_def)
  finally show ?thesis .
qed


definition demo_edited :: editor where
  "demo_edited = AddEntry (wlit ''c'') (init_editor (Some demo_settings))"

definition demo_saved :: "launch_entry list" where
  "demo_saved = (case ed_settings demo_edited of None \<Rightarrow> [] | Some s \<Rightarrow> (case s_StartupSessions s of None \<Rightarrow> [] | Some es \<Rightarrow> es))"


text \<open>
  The command of a startup entry keeps running as it was wrapped: on a known shell the shell
  integration, enabled or not, leaves the wrapped command line alone.
\<close>

lemma startup_command_untouched:
  assumes "closed shell" and "DetectShellFamily shell \<noteq> Unknown"
  shows "si_commandline (fst (ComputeShellIntegration w (wrapCommandForSurvival shell cmd) enabled fs)) = wrapCommandForSurvival shell cmd"
proof (cases "DetectShellFamily shell")
  case PowerShell
  define t where "t = wlit ''-NoExit'' @ 0x20 # wlit ''-Command'' @ 0x20 # 0x22 # cmd @ [0x22]"
  have "wrapCommandForSurvival shell cmd = shell @ 0x20 # t"
    by (simp add: wrapCommandForSurvival_def PowerShell t_def)
  with pwsh_command_appended [OF assms(1) PowerShell disjI2 [OF t_def]] show ?thesis by (simp add: unmodified_def)
next
  case Wsl
  define x where "x = wlit ''bash -ic '' @ 0x22 # cmd @ wlit ''; exec bash -i'' @ [0x22]"
  have "wrapCommandForSurvival shell cmd = shell @ 0x20 # wlit ''--'' @ 0x20 # x"
    by (simp add: wrapCommandForSurvival_def Wsl x_def)
  with wsl_command_appended [OF assms(1) Wsl, of w x] show ?thesis by (simp add: unmodified_def del: wlit_simps)
next
  case Cmd
  have blank: "is_blank 0x20" by (simp add: is_blank_def)
  have "\<exists>t. wrapCommandForSurvival shell cmd = shell @ 0x20 # t" by (simp add: wrapCommandForSurvival_def Cmd)
  then have "DetectShellFamily (wrapCommandForSurvival shell cmd) = Cmd"
    using extended_command_line(1) [OF assms(1) blank assms(2)] Cmd by metis
  then show ?thesis by (simp add: ComputeShellIntegration_def Let_def unmodified_def)
qed (use assms(2) in simp)

end
