(* ===== verification/Axan_LaunchEntryJson.thy ===== *)
theory Axan_LaunchEntryJson
  imports Axan_HoistRule Axan_SessionTree
begin

unbundle bit_operations_syntax

text \<open>
  A startup entry in \<^verbatim>\<open>settings.json\<close>: \<^verbatim>\<open>LaunchEntry::FromJson\<close> and \<^verbatim>\<open>ToJson\<close> of
  \<^verbatim>\<open>cascadia/TerminalSettingsModel/LaunchEntry.cpp\<close>, with the conversions of \<^verbatim>\<open>JsonUtils.h\<close> they use.

  A JSON object is a map from keys to values; reading a value of the wrong type raises, here
  \<open>Inl key\<close>. The conversion between UTF-8 and UTF-16 is the parameter \<open>text_codec\<close>.

  Shown: an entry that is written and read again is the entry with its defaults left out
  (\<open>stored\<close>), and it spawns what it spawned before.
\<close>

subsection \<open>JSON values\<close>

text \<open>An object lists its members in the order of \<^verbatim>\<open>getMemberNames\<close>.\<close>

datatype jvalue = JNull | JBool bool | JInt int | JNum height | JStr bstring | JArr "jvalue list" | JObj "(string \<times> jvalue) list"

type_synonym jobject = "string \<rightharpoonup> jvalue"

record text_codec =
  tc_u8u16 :: "bstring \<Rightarrow> wstring"
  tc_u16u8 :: "wstring \<Rightarrow> bstring"

definition hstring_FromJson :: "text_codec \<Rightarrow> jvalue \<Rightarrow> wstring option" where
  "hstring_FromJson tc v = (case v of JNull \<Rightarrow> Some [] | JStr s \<Rightarrow> Some (tc_u8u16 tc s) | _ \<Rightarrow> None)"

definition hstring_ToJson :: "text_codec \<Rightarrow> wstring \<Rightarrow> jvalue" where
  "hstring_ToJson tc s = (if s = [] then JNull else JStr (tc_u16u8 tc s))"

definition double_FromJson :: "jvalue \<Rightarrow> height option" where
  "double_FromJson v = (case v of JInt i \<Rightarrow> Some (Num (of_int i)) | JNum h \<Rightarrow> Some h | _ \<Rightarrow> None)"

definition lround :: "rat \<Rightarrow> int" where
  "lround x = (if x \<ge> 0 then \<lfloor>x + 1 / 2\<rfloor> else - \<lfloor>- x + 1 / 2\<rfloor>)"

text \<open>A number within \<^verbatim>\<open>1e-6\<close> of a 32-bit integer is written as that integer.\<close>

definition double_ToJson :: "height \<Rightarrow> jvalue" where
  "double_ToJson h =
     (case h of
        NaN \<Rightarrow> JNum NaN
      | Num x \<Rightarrow>
          if - (2 ^ 31) \<le> x \<and> x \<le> 2 ^ 31 - 1 \<and> \<bar>of_int (lround x) - x\<bar> < 1 / 1000000 then JInt (lround x)
          else JNum (Num x))"

definition bool_FromJson :: "jvalue \<Rightarrow> bool option" where
  "bool_FromJson v = (case v of JBool b \<Rightarrow> Some b | _ \<Rightarrow> None)"

text \<open>An absent key leaves the target unchanged, a value of the wrong type raises.\<close>

definition GetValueForKey ::
  "(jvalue \<Rightarrow> 'v option) \<Rightarrow> string \<Rightarrow> ('v \<Rightarrow> launch_entry \<Rightarrow> launch_entry) \<Rightarrow> jobject \<Rightarrow> string + launch_entry \<Rightarrow> string + launch_entry" where
  "GetValueForKey conv key put json r =
     (case r of
        Inl err \<Rightarrow> Inl err
      | Inr e \<Rightarrow>
          (case json key of
             None \<Rightarrow> Inr e
           | Some v \<Rightarrow> (case conv v of None \<Rightarrow> Inl key | Some x \<Rightarrow> Inr (put x e))))"

subsection \<open>Reading and writing an entry\<close>

definition string_names :: "text_codec \<Rightarrow> jvalue list \<Rightarrow> wstring list" where
  "string_names tc vs = concat (map (\<lambda>v. case v of JStr s \<Rightarrow> [tc_u8u16 tc s] | _ \<Rightarrow> []) vs)"

definition hoist_FromJson :: "text_codec \<Rightarrow> jobject \<Rightarrow> launch_entry \<Rightarrow> launch_entry" where
  "hoist_FromJson tc json e =
     (case json ''hoist'' of
        Some (JStr s) \<Rightarrow> e\<lparr>le_Hoist := Hoist_Normalize (tc_u8u16 tc s)\<rparr>
      | Some (JArr vs) \<Rightarrow> e\<lparr>le_Hoist := Hoist_Format (FromMask (fst (MaskFromNames hoistNames (string_names tc vs))))\<rparr>
      | _ \<Rightarrow> e)"

definition LaunchEntry_FromJson :: "text_codec \<Rightarrow> jobject \<Rightarrow> string + launch_entry" where
  "LaunchEntry_FromJson tc json =
     (let str = hstring_FromJson tc;
          r = Inr empty_entry;
          r = GetValueForKey str ''id'' (\<lambda>x. le_Id_update (\<lambda>_. x)) json r;
          r = GetValueForKey str ''parent'' (\<lambda>x. le_ParentId_update (\<lambda>_. x)) json r;
          r = GetValueForKey str ''profile'' (\<lambda>x. le_Profile_update (\<lambda>_. x)) json r;
          r = GetValueForKey str ''name'' (\<lambda>x. le_Name_update (\<lambda>_. x)) json r;
          r = GetValueForKey str ''directory'' (\<lambda>x. le_Directory_update (\<lambda>_. x)) json r;
          r = GetValueForKey str ''command'' (\<lambda>x. le_Command_update (\<lambda>_. x)) json r;
          r = GetValueForKey str ''icon'' (\<lambda>x. le_Icon_update (\<lambda>_. x)) json r;
          r = GetValueForKey str ''color'' (\<lambda>x. le_Color_update (\<lambda>_. x)) json r;
          r = GetValueForKey str ''colorTarget'' (\<lambda>x. le_ColorTarget_update (\<lambda>_. x)) json r;
          r = GetValueForKey str ''kind'' (\<lambda>x. le_Kind_update (\<lambda>_. x)) json r;
          r = GetValueForKey str ''style'' (\<lambda>x. le_SeparatorStyle_update (\<lambda>_. x)) json r;
          r = GetValueForKey double_FromJson ''height'' (\<lambda>x. le_Height_update (\<lambda>_. x)) json r;
          r = GetValueForKey str ''placement'' (\<lambda>x. le_Placement_update (\<lambda>_. x)) json r;
          r = GetValueForKey bool_FromJson ''collapsed'' (\<lambda>x. le_Collapsed_update (\<lambda>_. x)) json r
      in case r of
           Inl err \<Rightarrow> Inl err
         | Inr e \<Rightarrow>
             (let e1 = hoist_FromJson tc json e
              in Inr (if le_Kind e1 = KindSeparatorW then e1\<lparr>le_Height := NormalizeSeparatorHeight (le_Height e1)\<rparr> else e1)))"

definition set_if :: "bool \<Rightarrow> string \<Rightarrow> jvalue \<Rightarrow> jobject \<Rightarrow> jobject" where
  "set_if b key v json = (if b then json(key \<mapsto> v) else json)"

definition separator_ToJson :: "text_codec \<Rightarrow> launch_entry \<Rightarrow> jobject \<Rightarrow> jobject" where
  "separator_ToJson tc e json =
     (let str = hstring_ToJson tc; height = NormalizeSeparatorHeight (le_Height e);
          json = json(''kind'' \<mapsto> str (le_Kind e));
          json = set_if (le_SeparatorStyle e \<noteq> [] \<and> le_SeparatorStyle e \<noteq> StyleLineW) ''style'' (str (le_SeparatorStyle e)) json;
          json = set_if (height \<noteq> Num 1) ''height'' (double_ToJson height) json;
          json = set_if (le_Placement e \<noteq> [] \<and> le_Placement e \<noteq> PlacementInlineW) ''placement'' (str (le_Placement e)) json;
          json = set_if (le_Name e \<noteq> []) ''name'' (str (le_Name e)) json
      in set_if (le_Collapsed e) ''collapsed'' (JBool (le_Collapsed e)) json)"

definition hoist_ToJson :: "text_codec \<Rightarrow> launch_entry \<Rightarrow> jobject \<Rightarrow> jobject" where
  "hoist_ToJson tc e json =
     (let hoist = fst (Hoist_Parse (le_Hoist e))
      in case ov_mode hoist of
           Never \<Rightarrow> json(''hoist'' \<mapsto> JStr (blit ''never''))
         | Custom \<Rightarrow> json(''hoist'' \<mapsto> JArr (map (\<lambda>n. JStr (tc_u16u8 tc n)) (NamesFromMask hoistNames (ov_mask hoist))))
         | DefaultMode \<Rightarrow> json)"

definition LaunchEntry_ToJson :: "text_codec \<Rightarrow> launch_entry \<Rightarrow> jobject" where
  "LaunchEntry_ToJson tc e =
     (let str = hstring_ToJson tc;
          json = [''id'' \<mapsto> str (le_Id e), ''parent'' \<mapsto> str (le_ParentId e)]
      in if le_Kind e = KindSeparatorW then separator_ToJson tc e json
         else
           (let json = json(''profile'' \<mapsto> str (le_Profile e), ''name'' \<mapsto> str (le_Name e),
                  ''directory'' \<mapsto> str (le_Directory e), ''command'' \<mapsto> str (le_Command e), ''icon'' \<mapsto> str (le_Icon e));
                json = set_if (le_Color e \<noteq> []) ''color'' (str (le_Color e)) json;
                json = set_if (le_ColorTarget e \<noteq> [] \<and> le_ColorTarget e \<noteq> wlit ''both'') ''colorTarget'' (str (le_ColorTarget e)) json
            in hoist_ToJson tc e json))"

subsection \<open>What is stored\<close>

definition default_text :: "wstring \<Rightarrow> wstring \<Rightarrow> wstring" where
  "default_text d s = (if s = d then [] else s)"

definition stored :: "launch_entry \<Rightarrow> launch_entry" where
  "stored e =
     (if le_Kind e = KindSeparatorW then
        empty_entry\<lparr>le_Id := le_Id e, le_ParentId := le_ParentId e, le_Name := le_Name e, le_Kind := le_Kind e,
          le_SeparatorStyle := default_text StyleLineW (le_SeparatorStyle e),
          le_Height := NormalizeSeparatorHeight (le_Height e),
          le_Placement := default_text PlacementInlineW (le_Placement e), le_Collapsed := le_Collapsed e\<rparr>
      else
        empty_entry\<lparr>le_Id := le_Id e, le_ParentId := le_ParentId e, le_Profile := le_Profile e, le_Name := le_Name e,
          le_Directory := le_Directory e, le_Command := le_Command e, le_Icon := le_Icon e, le_Color := le_Color e,
          le_ColorTarget := default_text (wlit ''both'') (le_ColorTarget e), le_Hoist := Hoist_Normalize (le_Hoist e)\<rparr>)"

text \<open>The texts of an entry that the codec must carry: they are valid UTF-16.\<close>

definition entry_texts :: "launch_entry \<Rightarrow> wstring set" where
  "entry_texts e = {le_Id e, le_ParentId e, le_Profile e, le_Name e, le_Directory e, le_Command e, le_Icon e,
     le_Color e, le_ColorTarget e, le_Kind e, le_SeparatorStyle e, le_Placement e, kNever} \<union> set hoistNames"

definition carries :: "text_codec \<Rightarrow> launch_entry \<Rightarrow> bool" where
  "carries tc e \<longleftrightarrow> (\<forall>s \<in> entry_texts e. tc_u8u16 tc (tc_u16u8 tc s) = s) \<and> tc_u8u16 tc (blit ''never'') = kNever"

lemma hstring_roundtrip: "tc_u8u16 tc (tc_u16u8 tc s) = s \<Longrightarrow> hstring_FromJson tc (hstring_ToJson tc s) = Some s"
  by (simp add: hstring_FromJson_def hstring_ToJson_def)

lemma normal_height: "\<exists>k :: int. NormalizeSeparatorHeight h = Num (of_int k / 10)"
proof (cases h)
  case NaN
  then show ?thesis by (intro exI [of _ 10]) (simp add: NormalizeSeparatorHeight_def)
next
  case (Num x)
  have "(1 :: rat) = of_int 10 / 10" by simp
  then show ?thesis using Num unfolding NormalizeSeparatorHeight_def Let_def by (auto split: if_splits)
qed

lemma double_roundtrip: "double_FromJson (double_ToJson (NormalizeSeparatorHeight h)) = Some (NormalizeSeparatorHeight h)"
proof -
  obtain k :: int where k: "NormalizeSeparatorHeight h = Num (of_int k / 10)" using normal_height by blast
  have exact: "of_int n = (of_int k / 10 :: rat)" if "\<bar>of_int n - of_int k / 10 :: rat\<bar> < 1 / 1000000" for n :: int
  proof -
    define a b :: rat where "a = of_int n" and "b = of_int k"
    from that have "a - b / 10 < 1 / 1000000" "b / 10 - a < 1 / 1000000" by (simp_all only: abs_less_iff minus_diff_eq a_def b_def)
    then have "10 * a < b + 1" "b < 10 * a + 1" by linarith+
    then have "(of_int (10 * n) :: rat) < of_int (k + 1)" "(of_int k :: rat) < of_int (10 * n + 1)" by (simp_all add: a_def b_def)
    then have "10 * n < k + 1" "k < 10 * n + 1" by (simp_all only: of_int_less_iff)
    then have "k = 10 * n" by simp
    then show ?thesis by simp
  qed
  show ?thesis
  proof (cases "\<bar>of_int (lround (of_int k / 10)) - of_int k / 10 :: rat\<bar> < 1 / 1000000")
    case True
    then show ?thesis unfolding k double_ToJson_def height.case using exact [OF True] by (simp add: double_FromJson_def)
  next
    case False
    then show ?thesis unfolding k double_ToJson_def height.case by (simp only: simp_thms if_False double_FromJson_def jvalue.case)
  qed
qed

lemma GetValueForKey_Inr [simp]:
  "GetValueForKey conv key put json (Inr e) =
     (case json key of None \<Rightarrow> Inr e | Some v \<Rightarrow> (case conv v of None \<Rightarrow> Inl key | Some x \<Rightarrow> Inr (put x e)))"
  by (simp add: GetValueForKey_def)

lemma set_if_at: "set_if b key v json k = (if b \<and> k = key then Some v else json k)"
  by (simp add: set_if_def)

definition hoist_value :: "text_codec \<Rightarrow> launch_entry \<Rightarrow> jvalue option" where
  "hoist_value tc e = hoist_ToJson tc e Map.empty ''hoist''"

lemma hoist_ToJson_at: "hoist_ToJson tc e json k = (if k = ''hoist'' \<and> hoist_value tc e \<noteq> None then hoist_value tc e else json k)"
  by (simp add: hoist_value_def hoist_ToJson_def Let_def split: Mode.splits)

lemma hoist_json:
  assumes "carries tc e" "json ''hoist'' = hoist_value tc e" "le_Hoist r = []"
  shows "hoist_FromJson tc json r = r\<lparr>le_Hoist := Hoist_Normalize (le_Hoist e)\<rparr>"
proof (cases "ov_mode (fst (Hoist_Parse (le_Hoist e)))")
  case DefaultMode
  then show ?thesis using assms(2,3)
    by (simp add: hoist_FromJson_def hoist_value_def hoist_ToJson_def Let_def Hoist_Normalize_def Hoist_Format_def)
next
  case Never
  have "Hoist_Normalize kNever = kNever" by code_simp
  with Never assms show ?thesis
    by (simp add: hoist_FromJson_def hoist_value_def hoist_ToJson_def Let_def Hoist_Normalize_def [of "le_Hoist e"] Hoist_Format_def carries_def)
next
  case Custom
  define m where "m = ov_mask (fst (Hoist_Parse (le_Hoist e)))"
  have m: "m \<noteq> 0" "m AND kAll = m" using Parse_valid [OF Custom] within_kAll by (simp_all add: m_def)
  have names: "set (NamesFromMask hoistNames m) \<subseteq> entry_texts e"
    using hoist.set_NamesFromMask [of _ m] by (auto simp: entry_texts_def)
  have "string_names tc (map (\<lambda>n. JStr (tc_u16u8 tc n)) ns) = ns" if "set ns \<subseteq> entry_texts e" for ns
    using that assms(1) by (induction ns) (simp_all add: string_names_def carries_def)
  from this [OF names] have "hoist_FromJson tc json r = r\<lparr>le_Hoist := Hoist_Format (FromMask m)\<rparr>"
    using Custom assms(2) m hoist.mask_roundtrip [of m]
    by (simp add: hoist_FromJson_def hoist_value_def hoist_ToJson_def Let_def m_def [symmetric] kAll_def)
  moreover have "Hoist_Normalize (le_Hoist e) = Hoist_Format (FromMask m)"
    using Custom m(1) by (simp add: Hoist_Normalize_def Hoist_Format_def FromMask_def m_def)
  ultimately show ?thesis by simp
qed

lemma default_height: "NormalizeSeparatorHeight (Num 0) = Num 1"
  by (simp add: NormalizeSeparatorHeight_def)

lemma separator_json_at:
  assumes "le_Kind e = KindSeparatorW"
  shows "LaunchEntry_ToJson tc e k =
    (if k = ''id'' then Some (hstring_ToJson tc (le_Id e)) else if k = ''parent'' then Some (hstring_ToJson tc (le_ParentId e))
    else if k = ''kind'' then Some (hstring_ToJson tc (le_Kind e))
    else if k = ''style'' then (if le_SeparatorStyle e \<noteq> [] \<and> le_SeparatorStyle e \<noteq> StyleLineW then Some (hstring_ToJson tc (le_SeparatorStyle e)) else None)
    else if k = ''height'' then (if NormalizeSeparatorHeight (le_Height e) \<noteq> Num 1 then Some (double_ToJson (NormalizeSeparatorHeight (le_Height e))) else None)
    else if k = ''placement'' then (if le_Placement e \<noteq> [] \<and> le_Placement e \<noteq> PlacementInlineW then Some (hstring_ToJson tc (le_Placement e)) else None)
    else if k = ''name'' then (if le_Name e \<noteq> [] then Some (hstring_ToJson tc (le_Name e)) else None)
    else if k = ''collapsed'' then (if le_Collapsed e then Some (JBool True) else None) else None)"
  unfolding LaunchEntry_ToJson_def separator_ToJson_def Let_def set_if_at using assms by simp

lemma session_json_at:
  assumes "le_Kind e \<noteq> KindSeparatorW"
  shows "LaunchEntry_ToJson tc e k =
    (if k = ''id'' then Some (hstring_ToJson tc (le_Id e)) else if k = ''parent'' then Some (hstring_ToJson tc (le_ParentId e))
    else if k = ''profile'' then Some (hstring_ToJson tc (le_Profile e)) else if k = ''name'' then Some (hstring_ToJson tc (le_Name e))
    else if k = ''directory'' then Some (hstring_ToJson tc (le_Directory e)) else if k = ''command'' then Some (hstring_ToJson tc (le_Command e))
    else if k = ''icon'' then Some (hstring_ToJson tc (le_Icon e))
    else if k = ''color'' then (if le_Color e \<noteq> [] then Some (hstring_ToJson tc (le_Color e)) else None)
    else if k = ''colorTarget'' then (if le_ColorTarget e \<noteq> [] \<and> le_ColorTarget e \<noteq> wlit ''both'' then Some (hstring_ToJson tc (le_ColorTarget e)) else None)
    else if k = ''hoist'' then hoist_value tc e else None)"
  unfolding LaunchEntry_ToJson_def Let_def set_if_at hoist_ToJson_at using assms by simp

lemma separator_json:
  assumes "carries tc e" "le_Kind e = KindSeparatorW"
  shows "LaunchEntry_FromJson tc (LaunchEntry_ToJson tc e) = Inr (stored e)"
proof -
  define J where "J = LaunchEntry_ToJson tc e"
  note J = separator_json_at [OF assms(2), of tc, folded J_def]
  have t: "hstring_FromJson tc (hstring_ToJson tc s) = Some s" if "s \<in> entry_texts e" for s
    using assms(1) that by (simp add: carries_def hstring_roundtrip)
  have ts: "{le_Id e, le_ParentId e, le_Name e, le_Kind e, le_SeparatorStyle e, le_Placement e} \<subseteq> entry_texts e"
    by (auto simp: entry_texts_def)
  show ?thesis
    unfolding J_def [symmetric] LaunchEntry_FromJson_def Let_def stored_def
    using ts assms(2) by (simp add: J t double_roundtrip hoist_FromJson_def bool_FromJson_def default_text_def empty_entry_def KindSeparatorW_def default_height)
qed


lemma session_json:
  assumes "carries tc e" "le_Kind e \<noteq> KindSeparatorW"
  shows "LaunchEntry_FromJson tc (LaunchEntry_ToJson tc e) = Inr (stored e)"
proof -
  define J where "J = LaunchEntry_ToJson tc e"
  note J = session_json_at [OF assms(2), of tc, folded J_def]
  have t: "hstring_FromJson tc (hstring_ToJson tc s) = Some s" if "s \<in> entry_texts e" for s
    using assms(1) that by (simp add: carries_def hstring_roundtrip)
  have ts: "{le_Id e, le_ParentId e, le_Profile e, le_Name e, le_Directory e, le_Command e, le_Icon e, le_Color e, le_ColorTarget e} \<subseteq> entry_texts e"
    by (auto simp: entry_texts_def)
  have "J ''hoist'' = hoist_value tc e" by (simp add: J)
  note h = hoist_json [where json = J, OF assms(1) this]
  show ?thesis
    unfolding J_def [symmetric] LaunchEntry_FromJson_def Let_def stored_def
    using ts assms(2) by (simp add: J t h default_text_def empty_entry_def KindSeparatorW_def del: wlit_simps) (simp add: KindSeparatorW_def)?
qed


subsection \<open>Properties\<close>

lemma entry_roundtrip: "carries tc e \<Longrightarrow> LaunchEntry_FromJson tc (LaunchEntry_ToJson tc e) = Inr (stored e)"
  using separator_json session_json by blast

lemma Hoist_Normalize_idem: "Hoist_Normalize (Hoist_Normalize s) = Hoist_Normalize s"
  using Parse_Format [of "fst (Hoist_Parse s)"] Parse_valid [of s]
  by (cases "ov_mode (fst (Hoist_Parse s))") (auto simp: Hoist_Normalize_def Hoist_Format_def)

lemma stored_idem: "stored (stored e) = stored e"
  by (simp add: stored_def empty_entry_def default_text_def KindSeparatorW_def Hoist_Normalize_idem)

text \<open>A stored entry is loaded like the entry itself, but that the colour target \<^verbatim>\<open>both\<close> is the default.\<close>

definition reloaded :: "StartupSession \<Rightarrow> StartupSession" where
  "reloaded s = s\<lparr>ss_colorTarget := default_text (wlit ''both'') (ss_colorTarget s)\<rparr>"

definition reloaded_state :: "load_state \<Rightarrow> load_state" where
  "reloaded_state ls = ls\<lparr>ls_result := map reloaded (ls_result ls)\<rparr>"

lemma stored_structure: "le_Id (stored e) = le_Id e" "le_ParentId (stored e) = le_ParentId e" "le_Name (stored e) = le_Name e"
  by (simp_all add: stored_def)

lemma reloaded_state_simps [simp]:
  "ls_separators (reloaded_state ls) = ls_separators ls" "ls_indexById (reloaded_state ls) = ls_indexById ls"
  "ls_separatorParentById (reloaded_state ls) = ls_separatorParentById ls"
  "ls_lastSessionInScope (reloaded_state ls) = ls_lastSessionInScope ls" "ls_result (reloaded_state ls) = map reloaded (ls_result ls)"
  by (simp_all add: reloaded_state_def)

lemma resolveParent_stored: "resolveParent (reloaded_state ls) (stored e) = resolveParent ls e"
  by (simp add: resolveParent_def stored_structure Let_def split: option.split)

lemma load_entry_stored:
  assumes "known_kind e"
  shows "load_entry st p (stored e) (reloaded_state ls) = reloaded_state (load_entry st p e ls)"
proof (cases "le_Kind e = KindSeparatorW")
  case True
  have "separator_of (reloaded_state ls) (stored e) = separator_of ls e"
    using True unfolding separator_of_def resolveParent_stored
    by (simp add: stored_def Let_def default_text_def empty_entry_def StyleLineW_def StyleSpaceW_def PlacementInlineW_def PlacementBottomW_def)
  with True show ?thesis
    by (simp add: load_entry_def load_separator_def reloaded_state_def stored_def empty_entry_def KindSeparatorW_def KindSessionW_def Let_def)
next
  case False
  have "terminal_args st p (stored e) = terminal_args st p e"
    using False by (simp add: terminal_args_def stored_def Let_def)
  moreover have "le_Kind (stored e) = []" using False by (simp add: stored_def empty_entry_def)
  ultimately show ?thesis using False assms
    by (simp add: load_entry_def load_session_def known_kind_def KindSeparatorW_def Let_def resolveParent_stored stored_structure)
      (auto simp: reloaded_state_def reloaded_def stored_def KindSeparatorW_def)
qed

lemma load_fold_stored:
  "list_all known_kind es \<Longrightarrow>
   fold (load_entry st p) (map stored es) (reloaded_state ls) = reloaded_state (fold (load_entry st p) es ls)"
  by (induction es arbitrary: ls) (simp_all add: load_entry_stored)

text \<open>
  C10. Saving the startup tree and loading it again. An entry that is written to the settings file
  and read back is the entry with its defaults left out, a second save changes nothing, and the
  launch after it spawns the same sessions and separators; only the colour target \<^verbatim>\<open>both\<close> has become
  the empty default. The entry's texts must survive the conversion to UTF-8, and its kind must be
  one of the known ones.
\<close>

theorem settings_roundtrip:
  assumes "\<forall>e \<in> set es. carries tc e \<and> known_kind e"
  shows "map (\<lambda>e. LaunchEntry_FromJson tc (LaunchEntry_ToJson tc e)) es = map Inr (map stored es) \<and>
    map stored (map stored es) = map stored es \<and>
    LoadStartupTree (Some (st\<lparr>st_StartupSessions := Some (map stored es)\<rparr>)) =
      apfst (map reloaded) (LoadStartupTree (Some (st\<lparr>st_StartupSessions := Some es\<rparr>)))"
proof -
  let ?st = "st\<lparr>st_StartupSessions := Some es\<rparr>" and ?st2 = "st\<lparr>st_StartupSessions := Some (map stored es)\<rparr>"
  have "resolveProfile ?st2 = resolveProfile ?st" "expandDirectory ?st2 = expandDirectory ?st"
    by (auto simp: fun_eq_iff resolveProfile_def expandDirectory_def)
  then have "terminal_args ?st2 = terminal_args ?st" by (simp add: terminal_args_def fun_eq_iff)
  then have "load_entry ?st2 = load_entry ?st" by (simp add: load_entry_def load_session_def fun_eq_iff Let_def)
  moreover have "reloaded_state load_start = load_start" by (simp add: reloaded_state_def load_start_def)
  ultimately have "fold (load_entry ?st2 p) (map stored es) load_start = reloaded_state (fold (load_entry ?st p) es load_start)" for p
    using load_fold_stored [of es ?st p load_start] assms by (simp add: list_all_iff)
  then have "LoadStartupTree (Some ?st2) = apfst (map reloaded) (LoadStartupTree (Some ?st))"
    by (simp add: LoadStartupTree_def Let_def reloaded_state_def split: option.splits)
  then show ?thesis using assms by (simp add: entry_roundtrip stored_idem)
qed

definition ascii_codec :: text_codec where
  "ascii_codec = \<lparr>tc_u8u16 = map ucast, tc_u16u8 = map ucast\<rparr>"

definition sample_entry :: launch_entry where
  "sample_entry = empty_entry\<lparr>le_Id := wlit ''a'', le_Command := wlit ''htop'', le_ColorTarget := wlit ''both'', le_Hoist := wlit ''never''\<rparr>"

theorem settings_roundtrip_witness:
  "carries ascii_codec sample_entry \<and> known_kind sample_entry \<and>
   LaunchEntry_FromJson ascii_codec (LaunchEntry_ToJson ascii_codec sample_entry) = Inr (stored sample_entry) \<and>
   LoadStartupTree (Some (sample_startup\<lparr>st_StartupSessions := Some [stored sample_entry]\<rparr>)) =
     apfst (map reloaded) (LoadStartupTree (Some (sample_startup\<lparr>st_StartupSessions := Some [sample_entry]\<rparr>)))"
proof -
  have "\<forall>s \<in> entry_texts sample_entry. tc_u8u16 ascii_codec (tc_u16u8 ascii_codec s) = s"
    by (simp add: entry_texts_def sample_entry_def empty_entry_def hoistNames_def kNever_def ascii_codec_def)
  then have "carries ascii_codec sample_entry" by (simp add: carries_def ascii_codec_def kNever_def)
  moreover have "known_kind sample_entry" by (simp add: known_kind_def sample_entry_def empty_entry_def)
  ultimately show ?thesis using settings_roundtrip [of "[sample_entry]" ascii_codec sample_startup] by simp
qed

end
