(* ===== verification/Axan_LaunchEntryToml.thy ===== *)
theory Axan_LaunchEntryToml
  imports Axan_LaunchEntryJson Axan_StatusText
begin

unbundle bit_operations_syntax

text \<open>
  A startup entry in the portable TOML file, \<^verbatim>\<open>inc/AxanLaunchEntryWire.h\<close>: the quoting of strings, the
  block written for an entry and the entry read from a table.

  Reading a file is the TOML library's work. Two parts of it are stated here: \<open>toml_basic_string\<close> is
  the reading of a basic string as TOML 1.0 defines it (on bytes; UTF-8 validity is left aside), and
  \<open>toml_lib\<close> holds the library's conversions of a node to a C++ value.

  Shown: a quoted string is read back exactly when it holds no DEL character, which the quoting
  forgets; the block of an entry is the list \<open>toml_fields\<close> of its keys and values, and reading such a
  table gives the entry with its defaults left out.
\<close>

subsection \<open>Quoting\<close>

definition hex_digit :: "byte \<Rightarrow> byte" where
  "hex_digit v = blit ''0123456789ABCDEF'' ! unat v"

definition quote_char :: "byte \<Rightarrow> bstring" where
  "quote_char c =
     (if c = 0x22 then [0x5C, 0x22]
      else if c = 0x5C then [0x5C, 0x5C]
      else if c = 0x0A then [0x5C, 0x6E]
      else if c = 0x09 then [0x5C, 0x74]
      else if c = 0x0D then [0x5C, 0x72]
      else if c < 0x20 then [0x5C, 0x75, 0x30, 0x30, hex_digit (drop_bit 4 c AND 0xF), hex_digit (c AND 0xF)]
      else [c])"

definition TomlQuote :: "bstring \<Rightarrow> bstring" where
  "TomlQuote s = 0x22 # concat (map quote_char s) @ [0x22]"

subsection \<open>Basic strings of TOML 1.0\<close>

definition hex_value :: "byte \<Rightarrow> nat option" where
  "hex_value c =
     (if 0x30 \<le> c \<and> c \<le> 0x39 then Some (unat c - 0x30)
      else if 0x41 \<le> c \<and> c \<le> 0x46 then Some (unat c - 0x41 + 10)
      else if 0x61 \<le> c \<and> c \<le> 0x66 then Some (unat c - 0x61 + 10)
      else None)"

definition hex_number :: "bstring \<Rightarrow> nat option" where
  "hex_number ds = fold (\<lambda>d n. case (n, hex_value d) of (Some m, Some v) \<Rightarrow> Some (16 * m + v) | _ \<Rightarrow> None) ds (Some 0)"

definition unicode_scalar :: "nat \<Rightarrow> bstring option" where
  "unicode_scalar n =
     (if n \<le> 0x10FFFF \<and> \<not> (0xD800 \<le> n \<and> n \<le> 0xDFFF) then Some (encode_utf8 (of_nat n)) else None)"

definition simple_escape :: "byte \<Rightarrow> byte option" where
  "simple_escape e =
     (if e = 0x62 then Some 0x08 else if e = 0x74 then Some 0x09 else if e = 0x6E then Some 0x0A
      else if e = 0x66 then Some 0x0C else if e = 0x72 then Some 0x0D else if e = 0x22 then Some 0x22
      else if e = 0x5C then Some 0x5C else None)"

definition escape_digits :: "byte \<Rightarrow> nat" where
  "escape_digits e = (if e = 0x75 then 4 else if e = 0x55 then 8 else 0)"

definition forbidden :: "byte \<Rightarrow> bool" where
  "forbidden c \<longleftrightarrow> (c < 0x20 \<and> c \<noteq> 0x09) \<or> c = 0x7F"

function basic_chars :: "bstring \<Rightarrow> bstring option" where
  "basic_chars [] = None"
| "basic_chars (c # s) =
     (if c = 0x22 then (if s = [] then Some [] else None)
      else if c = 0x5C then
        (if s = [] then None
         else case simple_escape (hd s) of
                Some b \<Rightarrow> map_option ((#) b) (basic_chars (tl s))
              | None \<Rightarrow>
                  (let n = escape_digits (hd s); ds = take n (tl s)
                   in if n = 0 \<or> length ds < n then None
                      else case hex_number ds of
                             None \<Rightarrow> None
                           | Some v \<Rightarrow> (case unicode_scalar v of None \<Rightarrow> None | Some bs \<Rightarrow> map_option ((@) bs) (basic_chars (drop n (tl s))))))
      else if forbidden c then None
      else map_option ((#) c) (basic_chars s))"
  by pat_completeness auto
termination by (relation "measure length") (auto simp: le_imp_less_Suc diff_le_self)

definition toml_basic_string :: "bstring \<Rightarrow> bstring option" where
  "toml_basic_string s = (if s \<noteq> [] \<and> hd s = 0x22 then basic_chars (tl s) else None)"

subsection \<open>Reading what was quoted\<close>

lemma hex_digit_value: "v < 16 \<Longrightarrow> hex_value (hex_digit v) = Some (unat v)"
proof -
  assume "v < 16"
  then have "unat v \<in> {0, 1, 2, 3, 4, 5, 6, 7, 8, 9, 10, 11, 12, 13, 14, 15}" by (simp add: word_less_nat_alt) arith
  then show ?thesis by (elim insertE emptyE; simp add: hex_digit_def hex_value_def)
qed

lemma control_hex:
  assumes "c < (0x20 :: byte)"
  shows "hex_number [0x30, 0x30, hex_digit (drop_bit 4 c AND 0xF), hex_digit (c AND 0xF)] = Some (unat c)"
proof -
  have f: "(0xF :: byte) = mask 4" by (simp add: mask_eq_exp_minus_1)
  have hi: "unat (drop_bit 4 c AND 0xF) = unat c div 16"
    using assms unfolding f take_bit_eq_mask [symmetric]
    by (simp add: unsigned_take_bit_eq unsigned_drop_bit_eq drop_bit_eq_div unat_div word_less_nat_alt take_bit_nat_eq_self)
  have lo: "unat (c AND 0xF) = unat c mod 16"
    unfolding f take_bit_eq_mask [symmetric] by (simp add: unsigned_take_bit_eq take_bit_eq_mod unat_mod)
  have "drop_bit 4 c AND 0xF < 16" "c AND 0xF < 16" using hi lo assms by (simp_all add: word_less_nat_alt)
  then have "hex_value (hex_digit (drop_bit 4 c AND 0xF)) = Some (unat c div 16)" "hex_value (hex_digit (c AND 0xF)) = Some (unat c mod 16)"
    by (simp_all add: hex_digit_value hi lo)
  moreover have "hex_value 0x30 = Some 0" by (simp add: hex_value_def)
  ultimately show ?thesis by (simp add: hex_number_def)
qed

lemma scalar_ascii: "unat c < 128 \<Longrightarrow> unicode_scalar (unat c) = Some [c]" for c :: byte
proof -
  assume c: "unat c < 128"
  have "unat (word_of_nat (unat c) :: 32 word) = unat c"
    using c by (simp add: unsigned_ucast_eq take_bit_nat_eq_self)
  then have "(word_of_nat (unat c) :: 32 word) < 0x80" "ucast (word_of_nat (unat c) :: 32 word) = c"
    using c by (simp_all add: word_less_nat_alt word_unat_eq_iff unsigned_ucast_eq unsigned_take_bit_eq take_bit_nat_eq_self)
  then show ?thesis using c by (simp add: unicode_scalar_def encode_utf8_def)
qed

lemma basic_chars_quoted:
  "basic_chars (quote_char c @ s) = (if c = 0x7F then None else map_option ((#) c) (basic_chars s))"
proof (cases "c < 0x20")
  case True
  then have "unat c < 128" "c \<noteq> 0x7F" by (auto simp: word_less_nat_alt)
  then show ?thesis using True control_hex [OF True] scalar_ascii [of c]
    by (cases "basic_chars s") (auto simp: quote_char_def simple_escape_def escape_digits_def)
next
  case False
  then show ?thesis by (auto simp: quote_char_def simple_escape_def forbidden_def)
qed

lemma basic_chars_all: "basic_chars (concat (map quote_char s) @ [0x22]) = (if 0x7F \<in> set s then None else Some s)"
  by (induction s) (simp_all add: basic_chars_quoted)

text \<open>
  C38. A string that is quoted for the portable file is read back as itself exactly when it holds no
  DEL character. TOML forbids U+007F in a basic string like the other control characters, but the
  quoting escapes only those below U+0020: a name with a DEL makes the exported file unreadable.
\<close>

theorem toml_quote_readable: "toml_basic_string (TomlQuote s) = (if 0x7F \<in> set s then None else Some s)"
  by (simp add: toml_basic_string_def TomlQuote_def basic_chars_all)

subsection \<open>Entries\<close>

record Entry =
  en_id :: bstring
  en_parentId :: bstring
  en_profile :: bstring
  en_profileName :: bstring
  en_name :: bstring
  en_directory :: bstring
  en_command :: bstring
  en_icon :: bstring
  en_color :: bstring
  en_colorTarget :: bstring
  en_kind :: bstring
  en_style :: bstring
  en_height :: height
  en_placement :: bstring
  en_collapsed :: bool
  en_hoist :: bstring

definition empty_Entry :: Entry where
  "empty_Entry = \<lparr>en_id = [], en_parentId = [], en_profile = [], en_profileName = [], en_name = [], en_directory = [],
     en_command = [], en_icon = [], en_color = [], en_colorTarget = [], en_kind = [], en_style = [], en_height = Num 0,
     en_placement = [], en_collapsed = False, en_hoist = []\<rparr>"

definition KindSeparator :: bstring where "KindSeparator = blit ''separator''"
definition StyleLine :: bstring where "StyleLine = blit ''line''"
definition PlacementInline :: bstring where "PlacementInline = blit ''inline''"

definition Entry_IsSeparator :: "Entry \<Rightarrow> bool" where
  "Entry_IsSeparator e \<longleftrightarrow> en_kind e = KindSeparator"

definition TomlVersionFor :: "Entry list \<Rightarrow> nat" where
  "TomlVersionFor entries = (if list_ex Entry_IsSeparator entries then 2 else 1)"

subsection \<open>Writing a block\<close>

definition key_text :: "string \<Rightarrow> bstring" where
  "key_text key = blit key @ replicate (12 - length key) 0x20 @ blit '' = ''"

definition toml_line :: "string \<Rightarrow> bstring \<Rightarrow> bstring" where
  "toml_line key v = key_text key @ TomlQuote v @ [0x0A]"

text \<open>\<^verbatim>\<open>"%.1f"\<close> of a height in tenths.\<close>

definition tenths_text :: "height \<Rightarrow> bstring" where
  "tenths_text h =
     (case h of
        NaN \<Rightarrow> blit ''nan''
      | Num x \<Rightarrow> (let k = nat \<lfloor>x * 10 + 1 / 2\<rfloor> in map ucast (decimal (k div 10)) @ 0x2E # map ucast (decimal (k mod 10))))"

definition nonempty_parts :: "bstring \<Rightarrow> bstring list" where
  "nonempty_parts s = filter (\<lambda>p. p \<noteq> []) (split_commas s)"

definition comma_step :: "bstring \<Rightarrow> bool \<times> bstring \<Rightarrow> bool \<times> bstring" where
  "comma_step p a = (False, snd a @ (if fst a then [] else blit '', '') @ TomlQuote p)"

definition hoist_text :: "bstring \<Rightarrow> bstring" where
  "hoist_text h =
     (if h = blit ''never'' then TomlQuote h
      else 0x5B # snd (fold comma_step (nonempty_parts h) (True, [])) @ [0x5D])"

definition separator_block :: "Entry \<Rightarrow> bstring" where
  "separator_block e =
     (let h = NormalizeSeparatorHeight (en_height e)
      in toml_line ''kind'' KindSeparator @
         (if en_style e \<noteq> [] \<and> en_style e \<noteq> StyleLine then toml_line ''style'' (en_style e) else []) @
         (if h \<noteq> Num 1 then key_text ''height'' @ tenths_text h @ [0x0A] else []) @
         (if en_placement e \<noteq> [] \<and> en_placement e \<noteq> PlacementInline then toml_line ''placement'' (en_placement e) else []) @
         (if en_name e \<noteq> [] then toml_line ''name'' (en_name e) else []) @
         (if en_collapsed e then key_text ''collapsed'' @ blit ''true'' @ [0x0A] else []))"

definition session_block :: "Entry \<Rightarrow> bstring" where
  "session_block e =
     (if en_profile e \<noteq> [] then toml_line ''profile'' (en_profile e) @
        (if en_profileName e \<noteq> [] then toml_line ''profile-name'' (en_profileName e) else []) else []) @
     toml_line ''name'' (en_name e) @ toml_line ''directory'' (en_directory e) @ toml_line ''command'' (en_command e) @
     toml_line ''icon'' (en_icon e) @
     (if en_color e \<noteq> [] then toml_line ''color'' (en_color e) else []) @
     (if en_colorTarget e \<noteq> [] \<and> en_colorTarget e \<noteq> blit ''both'' then toml_line ''color-target'' (en_colorTarget e) else []) @
     (if en_hoist e \<noteq> [] then key_text ''hoist'' @ hoist_text (en_hoist e) @ [0x0A] else [])"

definition ToTomlBlock :: "Entry \<Rightarrow> bstring" where
  "ToTomlBlock e =
     replicate 2 0x5B @ blit ''startup-sessions'' @ replicate 2 0x5D @ 0x0A # toml_line ''id'' (en_id e) @ toml_line ''parent-id'' (en_parentId e) @
     (if Entry_IsSeparator e then separator_block e else session_block e) @ [0x0A]"

subsection \<open>Reading a table\<close>

datatype tvalue = TStr bstring | TInt int | TFloat height | TBool bool | TArr "tvalue list" | TTable "(string \<times> tvalue) list"

type_synonym toml_table = "string \<rightharpoonup> tvalue"

record toml_lib =
  tl_string :: "tvalue \<Rightarrow> bstring option"
  tl_double :: "tvalue \<Rightarrow> height option"
  tl_int64 :: "tvalue \<Rightarrow> int option"
  tl_bool :: "tvalue \<Rightarrow> bool option"

definition field :: "toml_lib \<Rightarrow> toml_table \<Rightarrow> string \<Rightarrow> bstring" where
  "field lib t key = (case Option.bind (t key) (tl_string lib) of None \<Rightarrow> [] | Some s \<Rightarrow> s)"

definition height_field :: "toml_lib \<Rightarrow> toml_table \<Rightarrow> height" where
  "height_field lib t =
     (case Option.bind (t ''height'') (tl_double lib) of
        Some h \<Rightarrow> h
      | None \<Rightarrow> (case Option.bind (t ''height'') (tl_int64 lib) of Some i \<Rightarrow> Num (of_int i) | None \<Rightarrow> Num 0))"

definition name_step :: "toml_lib \<Rightarrow> tvalue \<Rightarrow> bool \<times> bstring \<Rightarrow> bool \<times> bstring" where
  "name_step lib el a =
     (case tl_string lib el of None \<Rightarrow> a | Some name \<Rightarrow> (True, snd a @ (if fst a then [0x2C] else []) @ name))"

definition hoist_field :: "toml_lib \<Rightarrow> toml_table \<Rightarrow> bstring" where
  "hoist_field lib t =
     (case Option.bind (t ''hoist'') (tl_string lib) of
        Some s \<Rightarrow> s
      | None \<Rightarrow>
          (case t ''hoist'' of
             Some (TArr vs) \<Rightarrow> (let a = fold (name_step lib) vs (False, []) in if fst a then snd a else blit ''never'')
           | _ \<Rightarrow> []))"

definition FromTomlTable :: "toml_lib \<Rightarrow> toml_table \<Rightarrow> Entry" where
  "FromTomlTable lib t =
     (let e = \<lparr>en_id = field lib t ''id'', en_parentId = field lib t ''parent-id'', en_profile = field lib t ''profile'',
            en_profileName = field lib t ''profile-name'', en_name = field lib t ''name'', en_directory = field lib t ''directory'',
            en_command = field lib t ''command'', en_icon = field lib t ''icon'', en_color = field lib t ''color'',
            en_colorTarget = field lib t ''color-target'', en_kind = field lib t ''kind'', en_style = field lib t ''style'',
            en_height = height_field lib t, en_placement = field lib t ''placement'',
            en_collapsed = (case Option.bind (t ''collapsed'') (tl_bool lib) of None \<Rightarrow> False | Some b \<Rightarrow> b),
            en_hoist = hoist_field lib t\<rparr>
      in if Entry_IsSeparator e then e\<lparr>en_height := NormalizeSeparatorHeight (en_height e)\<rparr> else e)"

definition knownKeys :: "string list" where
  "knownKeys = [''id'', ''parent-id'', ''profile'', ''profile-name'', ''name'', ''directory'', ''command'', ''icon'',
     ''color'', ''color-target'', ''kind'', ''style'', ''placement'', ''height'', ''collapsed'', ''hoist'']"

definition is_string :: "tvalue \<Rightarrow> bool" where
  "is_string v = (case v of TStr _ \<Rightarrow> True | _ \<Rightarrow> False)"

definition key_issue :: "string \<times> tvalue \<Rightarrow> (string \<times> string) list" where
  "key_issue kv =
     (case kv of (key, v) \<Rightarrow>
        if key \<notin> set knownKeys then [(key, ''unknown key'')]
        else if key = ''height'' then (case v of TInt _ \<Rightarrow> [] | TFloat _ \<Rightarrow> [] | _ \<Rightarrow> [(key, ''expected a number'')])
        else if key = ''collapsed'' then (case v of TBool _ \<Rightarrow> [] | _ \<Rightarrow> [(key, ''expected a boolean'')])
        else if key = ''hoist'' then
          (if (case v of TArr vs \<Rightarrow> list_all is_string vs | _ \<Rightarrow> is_string v) then []
           else [(key, ''expected a string or an array of strings'')])
        else if \<not> is_string v then [(key, ''expected a string'')] else [])"

definition CheckTomlTable :: "(string \<times> tvalue) list \<Rightarrow> (string \<times> string) list" where
  "CheckTomlTable t = concat (map key_issue t)"

subsection \<open>The fields of a block\<close>

definition opt :: "bool \<Rightarrow> string \<Rightarrow> tvalue \<Rightarrow> (string \<times> tvalue) list" where
  "opt b key v = (if b then [(key, v)] else [])"

definition separator_fields :: "Entry \<Rightarrow> (string \<times> tvalue) list" where
  "separator_fields e =
     (''kind'', TStr KindSeparator) #
     opt (en_style e \<noteq> [] \<and> en_style e \<noteq> StyleLine) ''style'' (TStr (en_style e)) @
     opt (NormalizeSeparatorHeight (en_height e) \<noteq> Num 1) ''height'' (TFloat (NormalizeSeparatorHeight (en_height e))) @
     opt (en_placement e \<noteq> [] \<and> en_placement e \<noteq> PlacementInline) ''placement'' (TStr (en_placement e)) @
     opt (en_name e \<noteq> []) ''name'' (TStr (en_name e)) @
     opt (en_collapsed e) ''collapsed'' (TBool True)"

definition hoist_tvalue :: "bstring \<Rightarrow> tvalue" where
  "hoist_tvalue h = (if h = blit ''never'' then TStr h else TArr (map TStr (nonempty_parts h)))"

definition session_fields :: "Entry \<Rightarrow> (string \<times> tvalue) list" where
  "session_fields e =
     opt (en_profile e \<noteq> []) ''profile'' (TStr (en_profile e)) @
     opt (en_profile e \<noteq> [] \<and> en_profileName e \<noteq> []) ''profile-name'' (TStr (en_profileName e)) @
     [(''name'', TStr (en_name e)), (''directory'', TStr (en_directory e)), (''command'', TStr (en_command e)), (''icon'', TStr (en_icon e))] @
     opt (en_color e \<noteq> []) ''color'' (TStr (en_color e)) @
     opt (en_colorTarget e \<noteq> [] \<and> en_colorTarget e \<noteq> blit ''both'') ''color-target'' (TStr (en_colorTarget e)) @
     opt (en_hoist e \<noteq> []) ''hoist'' (hoist_tvalue (en_hoist e))"

definition toml_fields :: "Entry \<Rightarrow> (string \<times> tvalue) list" where
  "toml_fields e = (''id'', TStr (en_id e)) # (''parent-id'', TStr (en_parentId e)) #
     (if Entry_IsSeparator e then separator_fields e else session_fields e)"

fun value_text :: "tvalue \<Rightarrow> bstring" where
  "value_text (TStr s) = TomlQuote s"
| "value_text (TFloat h) = tenths_text h"
| "value_text (TBool b) = blit (if b then ''true'' else ''false'')"
| "value_text (TArr vs) = 0x5B # snd (fold (\<lambda>v a. (False, snd a @ (if fst a then [] else blit '', '') @ value_text v)) vs (True, [])) @ [0x5D]"
| "value_text (TInt i) = []"
| "value_text (TTable t) = []"

definition field_text :: "string \<times> tvalue \<Rightarrow> bstring" where
  "field_text kv = key_text (fst kv) @ value_text (snd kv) @ [0x0A]"

lemma hoist_text_value: "value_text (hoist_tvalue h) = hoist_text h"
proof -
  have "fold (\<lambda>v a. (False, snd a @ (if fst a then [] else blit '', '') @ value_text v)) (map TStr ps) a = fold comma_step ps a" for ps and a :: "bool \<times> bstring"
    by (induction ps arbitrary: a) (simp_all add: comma_step_def del: blit_simps)
  then show ?thesis by (simp add: hoist_tvalue_def hoist_text_def del: blit_simps)
qed

definition fields_text :: "(string \<times> tvalue) list \<Rightarrow> bstring" where
  "fields_text kvs = concat (map field_text kvs)"

lemma fields_text_simps:
  "fields_text [] = []" "fields_text (kv # kvs) = field_text kv @ fields_text kvs" "fields_text (a @ b) = fields_text a @ fields_text b"
  "fields_text (opt c key v) = (if c then field_text (key, v) else [])"
  by (simp_all add: fields_text_def opt_def)

lemma field_text_str: "field_text (key, TStr s) = toml_line key s"
  by (simp add: field_text_def toml_line_def)

lemma separator_block_fields: "fields_text (separator_fields e) = separator_block e"
  unfolding separator_fields_def separator_block_def Let_def fields_text_simps field_text_str append_Nil2
  by (simp only: field_text_def value_text.simps fst_conv snd_conv if_True)

lemma session_block_fields: "fields_text (session_fields e) = session_block e"
  unfolding session_fields_def session_block_def fields_text_simps field_text_str append_Nil2
  by (cases "en_profile e = []") (simp_all only: field_text_def hoist_text_value fst_conv snd_conv append.assoc append_Nil simp_thms if_True if_False)

lemma block_fields:
  "ToTomlBlock e = replicate 2 0x5B @ blit ''startup-sessions'' @ replicate 2 0x5D @ 0x0A # fields_text (toml_fields e) @ [0x0A]"
  unfolding ToTomlBlock_def toml_fields_def fields_text_simps field_text_str
  by (simp only: separator_block_fields session_block_fields append.assoc split: if_split) simp

text \<open>What an exported entry carries.\<close>

definition exported :: "Entry \<Rightarrow> Entry" where
  "exported e =
     (if Entry_IsSeparator e then
        empty_Entry\<lparr>en_id := en_id e, en_parentId := en_parentId e, en_name := en_name e, en_kind := en_kind e,
          en_style := (if en_style e = StyleLine then [] else en_style e), en_height := NormalizeSeparatorHeight (en_height e),
          en_placement := (if en_placement e = PlacementInline then [] else en_placement e), en_collapsed := en_collapsed e\<rparr>
      else
        empty_Entry\<lparr>en_id := en_id e, en_parentId := en_parentId e, en_profile := en_profile e,
          en_profileName := (if en_profile e = [] then [] else en_profileName e), en_name := en_name e,
          en_directory := en_directory e, en_command := en_command e, en_icon := en_icon e, en_color := en_color e,
          en_colorTarget := (if en_colorTarget e = blit ''both'' then [] else en_colorTarget e), en_hoist := en_hoist e\<rparr>)"

definition lib_ok :: "toml_lib \<Rightarrow> bool" where
  "lib_ok lib \<longleftrightarrow> (\<forall>s. tl_string lib (TStr s) = Some s) \<and> (\<forall>vs. tl_string lib (TArr vs) = None) \<and>
     (\<forall>h. tl_double lib (TFloat h) = Some h) \<and> (\<forall>b. tl_bool lib (TBool b) = Some b)"

definition tidy_hoist :: "bstring \<Rightarrow> bool" where
  "tidy_hoist h \<longleftrightarrow> h = [] \<or> [] \<notin> set (split_commas h)"


lemma name_steps:
  "lib_ok lib \<Longrightarrow> fold (name_step lib) (map TStr ps) (True, x) = (True, x @ concat (map ((#) 0x2C) ps))"
  by (induction ps arbitrary: x) (simp_all add: name_step_def lib_ok_def)

lemma join_split: "split_commas h = p # ps \<Longrightarrow> h = p @ concat (map ((#) 0x2C) ps)"
proof (induction h arbitrary: p ps)
  case (Cons c h)
  obtain q qs where q: "split_commas h = q # qs" by (metis list.exhaust split_commas_nonempty)
  show ?case using Cons.prems Cons.IH [OF q] q by (cases "c = 0x2C") auto
qed simp

lemma hoist_field_read:
  assumes "lib_ok lib" "tidy_hoist h" "h \<noteq> []" "t ''hoist'' = Some (hoist_tvalue h)"
  shows "hoist_field lib t = h"
proof (cases "h = blit ''never''")
  case True
  then show ?thesis using assms(1,4) by (simp add: hoist_field_def hoist_tvalue_def lib_ok_def del: blit_simps)
next
  case False
  obtain p ps where p: "split_commas h = p # ps" by (metis list.exhaust split_commas_nonempty)
  have parts: "nonempty_parts h = p # ps"
    unfolding nonempty_parts_def p by (rule filter_True) (use assms(2,3) p in \<open>auto simp: tidy_hoist_def\<close>)
  have "name_step lib (TStr p) (False, []) = (True, p)" using assms(1) by (simp add: name_step_def lib_ok_def)
  then have "fold (name_step lib) (map TStr (nonempty_parts h)) (False, []) = fold (name_step lib) (map TStr ps) (True, p)"
    by (simp add: parts)
  also have "\<dots> = (True, h)" by (simp only: name_steps [OF assms(1)] join_split [OF p, symmetric])
  finally have "fold (name_step lib) (map TStr (nonempty_parts h)) (False, []) = (True, h)" .
  then show ?thesis using False assms(1,4) by (simp add: hoist_field_def hoist_tvalue_def lib_ok_def del: blit_simps)
qed

lemma map_of_opt: "map_of (opt b k v @ kvs) x = (if b \<and> x = k then Some v else map_of kvs x)"
  by (simp add: opt_def)

lemma map_of_opt_end: "map_of (opt b k v) x = (if b \<and> x = k then Some v else None)"
  by (simp add: opt_def)

lemma separator_read:
  assumes "lib_ok lib" "Entry_IsSeparator e"
  shows "FromTomlTable lib (map_of (toml_fields e)) = exported e"
proof -
  have T: "map_of (toml_fields e) k = (if k = ''id'' then Some (TStr (en_id e)) else if k = ''parent-id'' then Some (TStr (en_parentId e))
    else if k = ''kind'' then Some (TStr (en_kind e))
    else if k = ''style'' then (if en_style e \<noteq> [] \<and> en_style e \<noteq> StyleLine then Some (TStr (en_style e)) else None)
    else if k = ''height'' then (if NormalizeSeparatorHeight (en_height e) \<noteq> Num 1 then Some (TFloat (NormalizeSeparatorHeight (en_height e))) else None)
    else if k = ''placement'' then (if en_placement e \<noteq> [] \<and> en_placement e \<noteq> PlacementInline then Some (TStr (en_placement e)) else None)
    else if k = ''name'' then (if en_name e \<noteq> [] then Some (TStr (en_name e)) else None)
    else if k = ''collapsed'' then (if en_collapsed e then Some (TBool True) else None) else None)" for k
    using assms(2) by (simp add: toml_fields_def separator_fields_def map_of_opt map_of_opt_end Entry_IsSeparator_def del: map_of_append)
  show ?thesis using assms
    by (simp add: FromTomlTable_def T field_def height_field_def hoist_field_def lib_ok_def exported_def empty_Entry_def
        Entry_IsSeparator_def KindSeparator_def default_height)
qed

lemma session_read:
  assumes "lib_ok lib" "\<not> Entry_IsSeparator e" "tidy_hoist (en_hoist e)"
  shows "FromTomlTable lib (map_of (toml_fields e)) = exported e"
proof -
  have T: "map_of (toml_fields e) k = (if k = ''id'' then Some (TStr (en_id e)) else if k = ''parent-id'' then Some (TStr (en_parentId e))
    else if k = ''profile'' then (if en_profile e \<noteq> [] then Some (TStr (en_profile e)) else None)
    else if k = ''profile-name'' then (if en_profile e \<noteq> [] \<and> en_profileName e \<noteq> [] then Some (TStr (en_profileName e)) else None)
    else if k = ''name'' then Some (TStr (en_name e)) else if k = ''directory'' then Some (TStr (en_directory e))
    else if k = ''command'' then Some (TStr (en_command e)) else if k = ''icon'' then Some (TStr (en_icon e))
    else if k = ''color'' then (if en_color e \<noteq> [] then Some (TStr (en_color e)) else None)
    else if k = ''color-target'' then (if en_colorTarget e \<noteq> [] \<and> en_colorTarget e \<noteq> blit ''both'' then Some (TStr (en_colorTarget e)) else None)
    else if k = ''hoist'' then (if en_hoist e \<noteq> [] then Some (hoist_tvalue (en_hoist e)) else None) else None)" for k
    using assms(2) by (simp add: toml_fields_def session_fields_def map_of_opt map_of_opt_end del: blit_simps map_of_append)
  have h: "hoist_field lib (map_of (toml_fields e)) = en_hoist e"
    using hoist_field_read [OF assms(1,3), of "map_of (toml_fields e)"] by (cases "en_hoist e = []") (simp_all add: T hoist_field_def)
  have f: "field lib (map_of (toml_fields e)) k = (case map_of (toml_fields e) k of Some (TStr s) \<Rightarrow> s | _ \<Rightarrow> [])" if "k \<noteq> ''hoist''" for k
    using assms(1) that by (simp add: field_def T lib_ok_def)
  show ?thesis using assms(2) unfolding FromTomlTable_def h Let_def
    by (simp add: f T height_field_def exported_def empty_Entry_def Entry_IsSeparator_def KindSeparator_def)
qed

lemma exported_no_issues: "CheckTomlTable (toml_fields e) = []"
  by (auto simp: CheckTomlTable_def toml_fields_def separator_fields_def session_fields_def opt_def key_issue_def knownKeys_def
      is_string_def hoist_tvalue_def list_all_iff)

lemma exported_fields: "toml_fields (exported e) = toml_fields e"
proof (cases "Entry_IsSeparator e")
  case True
  then have "Entry_IsSeparator (exported e)" by (simp add: exported_def Entry_IsSeparator_def)
  then show ?thesis using True
    by (simp add: toml_fields_def exported_def separator_fields_def opt_def empty_Entry_def)
next
  case False
  then have "\<not> Entry_IsSeparator (exported e)" by (simp add: exported_def Entry_IsSeparator_def empty_Entry_def KindSeparator_def)
  then show ?thesis using False
    by (simp add: toml_fields_def exported_def session_fields_def opt_def del: blit_simps)
qed

text \<open>
  C37. The block of an exported entry lists the fields of the entry; a table with those fields has no
  key that the importer would warn about and is read as the entry with its defaults left out, and
  exporting what was read gives the same block again. The list of names in \<open>en_hoist\<close> must not have
  empty parts, which no stored override has; the conversions of the TOML library are assumed to
  return a string, float or boolean node's own value and no string for an array.
\<close>

theorem toml_entry_roundtrip:
  assumes "lib_ok lib" "tidy_hoist (en_hoist e)"
  shows "ToTomlBlock e = replicate 2 0x5B @ blit ''startup-sessions'' @ replicate 2 0x5D @ 0x0A # fields_text (toml_fields e) @ [0x0A] \<and>
         CheckTomlTable (toml_fields e) = [] \<and>
         FromTomlTable lib (map_of (toml_fields e)) = exported e \<and>
         ToTomlBlock (exported e) = ToTomlBlock e"
  using separator_read [OF assms(1)] session_read [OF assms(1) _ assms(2)]
  by (simp only: block_fields exported_no_issues exported_fields) blast

definition strict_lib :: toml_lib where
  "strict_lib = \<lparr>tl_string = (\<lambda>v. case v of TStr s \<Rightarrow> Some s | _ \<Rightarrow> None), tl_double = (\<lambda>v. case v of TFloat h \<Rightarrow> Some h | _ \<Rightarrow> None),
     tl_int64 = (\<lambda>v. case v of TInt i \<Rightarrow> Some i | _ \<Rightarrow> None), tl_bool = (\<lambda>v. case v of TBool b \<Rightarrow> Some b | _ \<Rightarrow> None)\<rparr>"

definition sample_Entry :: Entry where
  "sample_Entry = empty_Entry\<lparr>en_id := blit ''a'', en_profile := blit ''b'', en_name := blit ''x'', en_colorTarget := blit ''both'',
     en_hoist := blit ''running,done''\<rparr>"

lemma strict_lib_ok: "lib_ok strict_lib"
  by (simp add: lib_ok_def strict_lib_def)

lemma sample_tidy: "tidy_hoist (en_hoist sample_Entry)"
  by (simp add: tidy_hoist_def sample_Entry_def)

theorem toml_entry_roundtrip_witness:
  "CheckTomlTable (toml_fields sample_Entry) = [] \<and> FromTomlTable strict_lib (map_of (toml_fields sample_Entry)) = exported sample_Entry \<and>
   ToTomlBlock (exported sample_Entry) = ToTomlBlock sample_Entry"
  using toml_entry_roundtrip [OF strict_lib_ok sample_tidy] by blast

end
