(* ===== verification/Axan_Glyphs.thy ===== *)
theory Axan_Glyphs
  imports Axan_Prelude "HOL-Library.Sublist"
begin

unbundle bit_operations_syntax

text \<open>
  Icons: the portable names (\<^verbatim>\<open>inc/AxanIconRegistry.h\<close>), glyph names and code-point text
  (\<^verbatim>\<open>inc/AxanGlyphNames.h\<close>), the sets of the picker (\<^verbatim>\<open>inc/AxanGlyphSets.h\<close>), and the two directions of the
  icon mapping in \<^verbatim>\<open>inc/AxanLaunchEntryWire.h\<close>. The table of the font's glyphs is a generated file and
  an argument \<open>table\<close> of the definitions; \<open>table_ok\<close> states what its generator documents: sorted keys in
  their normal form, one row per code point, all of the symbol range.
\<close>

subsection \<open>Portable names\<close>

definition kBuiltinPrefix :: wstring where "kBuiltinPrefix = wlit ''builtin:''"

definition kBuiltins :: "(wstring \<times> wchar) list" where
  "kBuiltins = [(wlit ''terminal'', 0xE756), (wlit ''ssh'', 0xE8CE), (wlit ''server'', 0xE968), (wlit ''database'', 0xE964),
     (wlit ''package'', 0xE7B8), (wlit ''container'', 0xEDA2), (wlit ''git'', 0xE8AB), (wlit ''editor'', 0xE943),
     (wlit ''logs'', 0xE7C3), (wlit ''build'', 0xE90F), (wlit ''test'', 0xE73E)]"

definition PortableToNative :: "wstring \<Rightarrow> wstring \<times> bool" where
  "PortableToNative portableIcon =
     (if length portableIcon \<le> length kBuiltinPrefix \<or> take (length kBuiltinPrefix) portableIcon \<noteq> kBuiltinPrefix
      then (portableIcon, False)
      else case find (\<lambda>b. drop (length kBuiltinPrefix) portableIcon = fst b) kBuiltins of
             Some b \<Rightarrow> ([snd b], True)
           | None \<Rightarrow> (portableIcon, False))"

definition NativeToPortable :: "wstring \<Rightarrow> wstring \<times> bool" where
  "NativeToPortable nativeIcon =
     (case nativeIcon of
        [c] \<Rightarrow> (case find (\<lambda>b. c = snd b) kBuiltins of Some b \<Rightarrow> (kBuiltinPrefix @ fst b, True) | None \<Rightarrow> (nativeIcon, False))
      | _ \<Rightarrow> (nativeIcon, False))"

subsection \<open>Names of glyphs\<close>

record Glyph =
  gl_key :: wstring
  gl_codepoint :: wchar
  gl_displayName :: wstring

definition kFirstSymbol :: wchar where "kFirstSymbol = 0xE700"
definition kLastSymbol :: wchar where "kLastSymbol = 0xF8FF"

definition ascii_lower :: "wchar \<Rightarrow> wchar" where
  "ascii_lower ch = (if 0x41 \<le> ch \<and> ch \<le> 0x5A then ch - 0x41 + 0x61 else ch)"

definition is_joiner :: "wchar \<Rightarrow> bool" where
  "is_joiner ch \<longleftrightarrow> ch = 0x20 \<or> ch = 0x5F \<or> ch = 0x2D"

definition is_alnum :: "wchar \<Rightarrow> bool" where
  "is_alnum ch \<longleftrightarrow> (0x41 \<le> ch \<and> ch \<le> 0x5A) \<or> (0x61 \<le> ch \<and> ch \<le> 0x7A) \<or> (0x30 \<le> ch \<and> ch \<le> 0x39)"

fun normalize_loop :: "wstring \<Rightarrow> bool \<Rightarrow> wstring \<Rightarrow> wstring" where
  "normalize_loop out pendingHyphen [] = out"
| "normalize_loop out pendingHyphen (ch # rest) =
     (if is_joiner ch then normalize_loop out (out \<noteq> []) rest
      else if is_alnum ch then normalize_loop (out @ (if pendingHyphen then [0x2D] else []) @ [ascii_lower ch]) False rest
      else [])"

definition NormalizeName :: "wstring \<Rightarrow> wstring" where
  "NormalizeName text = (if text = [] \<or> length text > 64 then [] else normalize_loop [] False text)"

subsection \<open>Code points\<close>

definition IsPickableScalar :: "32 word \<Rightarrow> bool" where
  "IsPickableScalar cp =
     (if cp > 0x10FFFF \<or> (cp \<ge> 0xD800 \<and> cp \<le> 0xDFFF) then False
      else if (cp \<ge> 0xFDD0 \<and> cp \<le> 0xFDEF) \<or> (cp AND 0xFFFE) = 0xFFFE then False
      else \<not> (cp < 0x20 \<or> (cp \<ge> 0x7F \<and> cp \<le> 0x9F)))"

datatype CodepointText = NotCodepoint | Invalid "32 word" | Valid "32 word"

definition blank :: "wchar \<Rightarrow> bool" where
  "blank ch \<longleftrightarrow> ch = 0x20 \<or> ch = 0x09"

definition codepoint_prefix :: "wstring \<Rightarrow> bool" where
  "codepoint_prefix q \<longleftrightarrow> length q > 2 \<and>
     (((q ! 0 = 0x55 \<or> q ! 0 = 0x75) \<and> q ! 1 = 0x2B) \<or> (q ! 0 = 0x30 \<and> (q ! 1 = 0x78 \<or> q ! 1 = 0x58)))"

definition digit_step :: "wchar \<Rightarrow> (64 word \<times> bool) option \<Rightarrow> (64 word \<times> bool) option" where
  "digit_step ch a =
     (case a of
        None \<Rightarrow> None
      | Some (v, anyDecimal) \<Rightarrow>
          if 0x30 \<le> ch \<and> ch \<le> 0x39 then Some (v * 16 + ucast (ch - 0x30), True)
          else if 0x61 \<le> ch \<and> ch \<le> 0x66 then Some (v * 16 + (ucast (ch - 0x61) + 10), anyDecimal)
          else if 0x41 \<le> ch \<and> ch \<le> 0x46 then Some (v * 16 + (ucast (ch - 0x41) + 10), anyDecimal)
          else None)"

definition ClassifyCodepoint :: "wstring \<Rightarrow> CodepointText" where
  "ClassifyCodepoint query0 =
     (if list_all blank query0 then NotCodepoint
      else
        let query1 = rev (dropWhile blank (rev (dropWhile blank query0)));
            prefixed = codepoint_prefix query1;
            query = (if prefixed then drop 2 query1 else query1)
        in if query = [] \<or> length query > (if prefixed then 8 else 6) then NotCodepoint
           else case fold digit_step query (Some (0, False)) of
                  None \<Rightarrow> NotCodepoint
                | Some (v, anyDecimal) \<Rightarrow>
                    if \<not> prefixed \<and> (length query < 4 \<or> \<not> anyDecimal) then NotCodepoint
                    else if length query < 4 \<or> length query > 6 \<or> v > 0x10FFFF \<or> \<not> IsPickableScalar (ucast v) then Invalid (ucast v)
                    else Valid (ucast v))"

definition ParseCodepoint :: "wstring \<Rightarrow> 32 word option" where
  "ParseCodepoint query = (case ClassifyCodepoint query of Valid v \<Rightarrow> Some v | _ \<Rightarrow> None)"

definition ToUtf16 :: "32 word \<Rightarrow> wstring" where
  "ToUtf16 cp =
     (if cp < 0x10000 then [ucast cp]
      else let v = cp - 0x10000 in [ucast (0xD800 + drop_bit 10 v), ucast (0xDC00 + (v AND 0x3FF))])"

definition upper_hex :: wstring where "upper_hex = wlit ''0123456789ABCDEF''"

lemma drop_nibble: "unat (drop_bit 4 v) = unat v div 16" for v :: "32 word"
  by (simp add: drop_bit_eq_div unat_div)

lemma low_nibble: "unat (v AND 0xF) = unat v mod 16" for v :: "32 word"
proof -
  have "(0xF :: 32 word) = mask 4" by (simp add: mask_eq_exp_minus_1)
  then show ?thesis by (simp only: take_bit_eq_mask [symmetric] unsigned_take_bit_eq) (simp add: take_bit_eq_mod)
qed

function format_loop :: "32 word \<Rightarrow> wstring \<Rightarrow> wstring" where
  "format_loop v digits =
     (if v \<noteq> 0 \<or> length digits < 4 then format_loop (drop_bit 4 v) (upper_hex ! unat (v AND 0xF) # digits) else digits)"
  by pat_completeness auto
termination
proof (relation "measure (\<lambda>(v, digits). unat v + (4 - length digits))", goal_cases)
  case (2 v digits)
  then show ?case by (cases "v = 0") (auto simp: drop_nibble unat_gt_0 intro!: add_less_le_mono)
qed simp

definition FormatCodepoint :: "32 word \<Rightarrow> wstring" where
  "FormatCodepoint cp = [0x55, 0x2B] @ format_loop cp []"

subsection \<open>Looking names up\<close>

function lower_bound_loop :: "Glyph list \<Rightarrow> wstring \<Rightarrow> nat \<Rightarrow> nat \<Rightarrow> nat" where
  "lower_bound_loop table key first cnt =
     (if cnt = 0 then first
      else let half = cnt div 2; it = first + half
           in if ord_class.lexordp (gl_key (table ! it)) key then lower_bound_loop table key (it + 1) (cnt - (half + 1))
              else lower_bound_loop table key first half)"
  by pat_completeness auto
termination by (relation "measure (\<lambda>(_, _, _, cnt). cnt)") auto

definition lower_bound :: "Glyph list \<Rightarrow> wstring \<Rightarrow> nat" where
  "lower_bound table key = lower_bound_loop table key 0 (length table)"

definition FindByKey :: "Glyph list \<Rightarrow> wstring \<Rightarrow> Glyph option" where
  "FindByKey table key =
     (let it = lower_bound table key in if it < length table \<and> gl_key (table ! it) = key then Some (table ! it) else None)"

fun index_from :: "nat \<Rightarrow> ('a \<Rightarrow> bool) \<Rightarrow> 'a list \<Rightarrow> nat option" where
  "index_from i P [] = None"
| "index_from i P (x # xs) = (if P x then Some i else index_from (Suc i) P xs)"

definition FindByCodepoint :: "Glyph list \<Rightarrow> wchar \<Rightarrow> nat option" where
  "FindByCodepoint table codepoint = index_from 0 (\<lambda>g. gl_codepoint g = codepoint) table"

definition AliasFor :: "wchar \<Rightarrow> wstring" where
  "AliasFor codepoint = (case find (\<lambda>b. snd b = codepoint) kBuiltins of Some b \<Rightarrow> fst b | None \<Rightarrow> [])"

record NameKey =
  nk_key :: wstring
  nk_prefixed :: bool

definition SplitName :: "wstring \<Rightarrow> NameKey" where
  "SplitName icon =
     (let prefixed = length icon > length kBuiltinPrefix \<and> take (length kBuiltinPrefix) icon = kBuiltinPrefix;
          name = (if prefixed then drop (length kBuiltinPrefix) icon else icon)
      in \<lparr>nk_key = NormalizeName name, nk_prefixed = prefixed\<rparr>)"

definition GlyphForKey :: "Glyph list \<Rightarrow> NameKey \<Rightarrow> wchar option" where
  "GlyphForKey table name =
     (if nk_key name = [] then None
      else case find (\<lambda>b. nk_key name = fst b) kBuiltins of
             Some b \<Rightarrow> Some (snd b)
           | None \<Rightarrow> if nk_prefixed name then None else map_option gl_codepoint (FindByKey table (nk_key name)))"

definition ResolveCodepoint :: "Glyph list \<Rightarrow> wstring \<Rightarrow> wchar option" where
  "ResolveCodepoint table icon =
     (if length icon = 1 \<and> hd icon \<ge> kFirstSymbol \<and> hd icon \<le> kLastSymbol then Some (hd icon)
      else GlyphForKey table (SplitName icon))"

datatype IconResolution = PassThrough | Resolved | UnknownName | InvalidCodepoint

definition Resolve :: "Glyph list \<Rightarrow> wstring \<Rightarrow> wstring \<times> IconResolution" where
  "Resolve table icon =
     (if length icon \<le> 1 then (icon, PassThrough)
      else case GlyphForKey table (SplitName icon) of
             Some cp \<Rightarrow> ([cp], Resolved)
           | None \<Rightarrow>
               (case ClassifyCodepoint icon of
                  Valid v \<Rightarrow> (ToUtf16 v, Resolved)
                | Invalid v \<Rightarrow> (icon, InvalidCodepoint)
                | NotCodepoint \<Rightarrow>
                    (icon, if nk_key (SplitName icon) \<noteq> [] \<and> nk_key (SplitName icon) \<noteq> wlit ''none'' then UnknownName else PassThrough)))"

definition ResolveIcon :: "Glyph list \<Rightarrow> wstring \<Rightarrow> wstring" where
  "ResolveIcon table icon = fst (Resolve table icon)"

definition IsUnresolvedName :: "Glyph list \<Rightarrow> wstring \<Rightarrow> bool" where
  "IsUnresolvedName table icon \<longleftrightarrow> snd (Resolve table icon) = UnknownName"

definition query_step :: "wchar \<Rightarrow> wstring list \<times> wstring \<Rightarrow> wstring list \<times> wstring" where
  "query_step ch a =
     (if ch = 0x20 \<or> ch = 0x5F \<or> ch = 0x2D \<or> ch = 0x09
      then (if snd a \<noteq> [] then (fst a @ [snd a], []) else a)
      else (fst a, snd a @ [ascii_lower ch]))"

definition SplitQueryWords :: "wstring \<Rightarrow> wstring list" where
  "SplitQueryWords query = (let a = fold query_step query ([], []) in fst a @ (if snd a \<noteq> [] then [snd a] else []))"

definition Glyph_Search :: "Glyph list \<Rightarrow> wstring \<Rightarrow> nat list" where
  "Glyph_Search table query =
     (let words = SplitQueryWords query
      in filter (\<lambda>i. let g = table ! i; alias = AliasFor (gl_codepoint g)
                     in list_all (\<lambda>w. sublist w (gl_key g) \<or> (alias \<noteq> [] \<and> sublist w alias)) words) [0 ..< length table])"

subsection \<open>Icons in the portable file\<close>

definition ImportIcon :: "wstring \<Rightarrow> wstring \<times> bool" where
  "ImportIcon portableIcon =
     (case PortableToNative portableIcon of
        (native, mapped) \<Rightarrow>
          if \<not> mapped \<and> length portableIcon \<ge> length kBuiltinPrefix \<and> take (length kBuiltinPrefix) portableIcon = kBuiltinPrefix
          then ([], True) else (native, False))"

definition ExportIcon :: "Glyph list \<Rightarrow> wstring \<Rightarrow> wstring" where
  "ExportIcon table nativeIcon =
     (case (if length nativeIcon > 1 then ResolveCodepoint table nativeIcon else None) of
        Some cp \<Rightarrow> if AliasFor cp \<noteq> [] then kBuiltinPrefix @ AliasFor cp else fst (NativeToPortable nativeIcon)
      | None \<Rightarrow> fst (NativeToPortable nativeIcon))"

subsection \<open>The sets of the picker\<close>

record Cell =
  c_glyph :: wstring
  c_key :: wstring
  c_displayName :: wstring
  c_alias :: wstring
  c_stored :: wstring

record GlyphSet =
  gs_Name :: wstring
  gs_FontFamily :: wstring
  gs_Size :: nat
  gs_At :: "nat \<Rightarrow> Cell"
  gs_Search :: "wstring \<Rightarrow> nat list"
  gs_Find :: "wstring \<Rightarrow> nat option"
  gs_FindCodepoint :: "32 word \<Rightarrow> nat option"

definition kSymbolFont :: wstring where "kSymbolFont = wlit ''Segoe Fluent Icons, Segoe MDL2 Assets''"
definition kTextFont :: wstring where "kTextFont = wlit ''Segoe UI''"

definition Segoe_At :: "Glyph list \<Rightarrow> nat \<Rightarrow> Cell" where
  "Segoe_At table index =
     (let g = table ! index
      in \<lparr>c_glyph = [gl_codepoint g], c_key = gl_key g, c_displayName = gl_displayName g,
          c_alias = AliasFor (gl_codepoint g), c_stored = gl_key g\<rparr>)"

definition Segoe_FindCodepoint :: "Glyph list \<Rightarrow> 32 word \<Rightarrow> nat option" where
  "Segoe_FindCodepoint table codepoint = (if codepoint > 0xFFFF then None else FindByCodepoint table (ucast codepoint))"

definition Segoe_Find :: "Glyph list \<Rightarrow> wstring \<Rightarrow> nat option" where
  "Segoe_Find table icon =
     (case ResolveCodepoint table icon of Some cp \<Rightarrow> Segoe_FindCodepoint table (ucast cp) | None \<Rightarrow> None)"

definition SegoeFluentSet :: "Glyph list \<Rightarrow> GlyphSet" where
  "SegoeFluentSet table =
     \<lparr>gs_Name = wlit ''Segoe Fluent Icons'', gs_FontFamily = kSymbolFont, gs_Size = length table, gs_At = Segoe_At table,
      gs_Search = Glyph_Search table, gs_Find = Segoe_Find table, gs_FindCodepoint = Segoe_FindCodepoint table\<rparr>"

record SetEntry =
  se_text :: wstring
  se_key :: wstring
  se_displayName :: wstring

definition SearchTable :: "SetEntry list \<Rightarrow> wstring \<Rightarrow> nat list" where
  "SearchTable entries query =
     (let words = SplitQueryWords query
      in filter (\<lambda>i. let e = entries ! i; key = map ascii_lower (se_key e)
                     in list_all (\<lambda>w. if length w = 1 then length (se_text e) = 1 \<and> ascii_lower (hd (se_text e)) = hd w
                                       else sublist w key) words) [0 ..< length entries])"

definition Table_At :: "SetEntry list \<Rightarrow> nat \<Rightarrow> Cell" where
  "Table_At entries index =
     (let e = entries ! index
      in \<lparr>c_glyph = se_text e, c_key = se_key e, c_displayName = se_displayName e, c_alias = [], c_stored = se_text e\<rparr>)"

definition Table_Find :: "SetEntry list \<Rightarrow> wstring \<Rightarrow> nat option" where
  "Table_Find entries icon = index_from 0 (\<lambda>e. se_text e = icon) entries"

definition TableSet :: "wstring \<Rightarrow> wstring \<Rightarrow> SetEntry list \<Rightarrow> GlyphSet" where
  "TableSet name font entries =
     \<lparr>gs_Name = name, gs_FontFamily = font, gs_Size = length entries, gs_At = Table_At entries,
      gs_Search = SearchTable entries, gs_Find = Table_Find entries, gs_FindCodepoint = (\<lambda>cp. Table_Find entries (ToUtf16 cp))\<rparr>"

definition labelled :: "string \<Rightarrow> string \<Rightarrow> wchar \<Rightarrow> SetEntry" where
  "labelled key displayName c = \<lparr>se_text = [c], se_key = wlit key @ [c], se_displayName = wlit displayName @ [c]\<rparr>"

definition kLettersAndDigits :: "SetEntry list" where
  "kLettersAndDigits =
     map (labelled ''letter-'' ''Letter '') (wlit ''abcdefghijklmnopqrstuvwxyzABCDEFGHIJKLMNOPQRSTUVWXYZ'') @
     map (labelled ''digit-'' ''Digit '') (wlit ''0123456789'')"

definition Sets :: "Glyph list \<Rightarrow> GlyphSet list" where
  "Sets table = [SegoeFluentSet table, TableSet (wlit ''Letters and digits'') kTextFont kLettersAndDigits]"

definition SetForIcon :: "Glyph list \<Rightarrow> wstring \<Rightarrow> nat option" where
  "SetForIcon table icon = index_from 0 (\<lambda>s. gs_Find s icon \<noteq> None) (Sets table)"

subsection \<open>Code-point text\<close>

definition nibble_value :: "wchar \<Rightarrow> nat" where
  "nibble_value ch = (if ch \<le> 0x39 then unat ch - 0x30 else unat ch - 0x37)"

definition digits_value :: "wstring \<Rightarrow> nat" where
  "digits_value ds = fold (\<lambda>d n. 16 * n + nibble_value d) ds 0"

lemma upper_hex_digit:
  assumes "n < 16"
  shows "upper_hex ! n \<in> set upper_hex" "nibble_value (upper_hex ! n) = n"
proof -
  have "n \<in> {0, 1, 2, 3, 4, 5, 6, 7, 8, 9, 10, 11, 12, 13, 14, 15}" using assms by (simp; arith)
  then show "upper_hex ! n \<in> set upper_hex" "nibble_value (upper_hex ! n) = n"
    by (elim insertE emptyE; simp add: upper_hex_def nibble_value_def)+
qed

lemma digits_value_fold: "fold (\<lambda>d n. 16 * n + nibble_value d) ds n = n * 16 ^ length ds + digits_value ds"
proof (induction ds arbitrary: n)
  case (Cons d ds)
  show ?case unfolding digits_value_def using Cons.IH [of "16 * n + nibble_value d"] Cons.IH [of "nibble_value d"]
    by (simp add: algebra_simps)
qed (simp add: digits_value_def)

lemma digits_value_Cons: "digits_value (d # ds) = nibble_value d * 16 ^ length ds + digits_value ds"
  using digits_value_fold [of ds "nibble_value d"] by (simp add: digits_value_def)

declare format_loop.simps [simp del]

lemma format_loop_value:
  "digits_value (format_loop v ds) = unat v * 16 ^ length ds + digits_value ds"
proof (induction v ds rule: format_loop.induct)
  case (1 v ds)
  show ?case
  proof (cases "v \<noteq> 0 \<or> length ds < 4")
    case True
    define p q r where "p = (16 :: nat) ^ length ds" and "q = unat v div 16" and "r = unat v mod 16"
    have "unat v * p = q * (16 * p) + r * p" unfolding p_def q_def r_def by (metis add_mult_distrib div_mult_mod_eq mult.assoc)
    moreover have "nibble_value (upper_hex ! r) = r" by (simp add: upper_hex_digit r_def)
    ultimately show ?thesis using 1 [OF True] True
      by (simp add: format_loop.simps [of v] drop_nibble low_nibble digits_value_Cons flip: p_def q_def r_def)
  qed (simp add: format_loop.simps)
qed

lemma format_loop_digits: "set ds \<subseteq> set upper_hex \<Longrightarrow> set (format_loop v ds) \<subseteq> set upper_hex"
proof (induction v ds rule: format_loop.induct)
  case (1 v ds)
  then show ?case by (subst format_loop.simps) (simp add: low_nibble upper_hex_digit)
qed

lemma format_loop_length:
  "unat v < 16 ^ m \<Longrightarrow> length ds + m \<ge> 4 \<Longrightarrow> 4 \<le> length (format_loop v ds) \<and> length ds \<le> length (format_loop v ds) \<and> length (format_loop v ds) \<le> length ds + m"
proof (induction v ds arbitrary: m rule: format_loop.induct)
  case (1 v ds)
  show ?case
  proof (cases "v \<noteq> 0 \<or> length ds < 4")
    case True
    then obtain k where k: "m = Suc k" using 1(2,3) by (cases m) (auto simp: unat_eq_0)
    have "unat (drop_bit 4 v) < 16 ^ k" using 1(2) by (simp add: drop_nibble k less_mult_imp_div_less mult.commute)
    from 1(1) [OF True this] 1(3) k show ?thesis by (subst (1 2 3) format_loop.simps) (simp add: True)
  qed (use 1 in \<open>simp add: format_loop.simps\<close>)
qed

lemma digit_steps:
  "set ds \<subseteq> set upper_hex \<Longrightarrow> \<exists>b. fold digit_step ds (Some (of_nat n, a)) = Some (of_nat (n * 16 ^ length ds + digits_value ds), b)"
proof (induction ds arbitrary: n a)
  case (Cons d ds)
  have d: "d \<in> set upper_hex" using Cons.prems by simp
  have "\<exists>b. digit_step d (Some (of_nat n, a)) = Some (of_nat (16 * n + nibble_value d), b)"
    using d unfolding upper_hex_def wlit_simps list.set
    by (elim insertE emptyE; simp add: digit_step_def nibble_value_def mult.commute; blast)
  then obtain b where b: "digit_step d (Some (of_nat n, a)) = Some (of_nat (16 * n + nibble_value d), b)" ..
  show ?case using Cons.IH [of "16 * n + nibble_value d" b] Cons.prems b by (simp add: digits_value_Cons algebra_simps)
qed (simp add: digits_value_def)

lemma pickable_bound: "IsPickableScalar cp \<Longrightarrow> unat cp \<le> 0x10FFFF"
  by (simp add: IsPickableScalar_def word_le_nat_alt not_less split: if_splits)

lemma hex_not_blank: "ch \<in> set upper_hex \<Longrightarrow> \<not> blank ch"
  by (auto simp: upper_hex_def blank_def)

lemma format_classified:
  assumes "IsPickableScalar cp"
  shows "ClassifyCodepoint (FormatCodepoint cp) = Valid cp"
proof -
  define ds where "ds = format_loop cp []"
  have hex: "set ds \<subseteq> set upper_hex" unfolding ds_def by (rule format_loop_digits) simp
  have len: "4 \<le> length ds" "length ds \<le> 6"
    using format_loop_length [of cp 6 "[]"] pickable_bound [OF assms] by (simp_all add: ds_def)
  have val: "digits_value ds = unat cp" by (simp add: ds_def format_loop_value) (simp add: digits_value_def)
  obtain b where b: "fold digit_step ds (Some (0, False)) = Some (of_nat (unat cp), b)"
    using digit_steps [OF hex, of 0 False] by (auto simp: val)
  have u: "unat (word_of_nat (unat cp) :: 64 word) = unat cp"
    using pickable_bound [OF assms] by (simp add: unsigned_ucast_eq take_bit_nat_eq_self)
  then have w: "(ucast (word_of_nat (unat cp) :: 64 word) :: 32 word) = cp" "\<not> (word_of_nat (unat cp) :: 64 word) > 0x10FFFF"
    using pickable_bound [OF assms]
    by (simp_all add: word_unat_eq_iff word_less_nat_alt unsigned_ucast_eq unsigned_take_bit_eq take_bit_nat_eq_self)
  have ne: "ds \<noteq> []" using len by auto
  then have "\<not> blank (last ds)" using hex hex_not_blank last_in_set by blast
  then have t: "dropWhile blank (rev (0x55 # 0x2B # ds)) = rev (0x55 # 0x2B # ds)"
    using ne by (cases ds rule: rev_cases) simp_all
  have nb: "\<not> blank 0x55" by (simp add: blank_def)
  have p: "codepoint_prefix (0x55 # 0x2B # ds)" using ne by (cases ds) (simp_all add: codepoint_prefix_def)
  show ?thesis unfolding ClassifyCodepoint_def FormatCodepoint_def ds_def [symmetric]
    using t nb p len ne b w assms by (simp add: Let_def del: rev.simps)
qed

lemma not_name: "ch \<in> set s \<Longrightarrow> \<not> is_joiner ch \<Longrightarrow> \<not> is_alnum ch \<Longrightarrow> normalize_loop out p s = []"
  by (induction out p s rule: normalize_loop.induct) auto

lemma format_not_name: "GlyphForKey table (SplitName (FormatCodepoint cp)) = None"
proof -
  have "take (length kBuiltinPrefix) (FormatCodepoint cp) \<noteq> kBuiltinPrefix" by (simp add: FormatCodepoint_def kBuiltinPrefix_def)
  moreover have "normalize_loop [] False (FormatCodepoint cp) = []"
    by (rule not_name [of "0x2B"]) (simp_all add: FormatCodepoint_def is_joiner_def is_alnum_def)
  ultimately show ?thesis by (simp add: SplitName_def GlyphForKey_def NormalizeName_def Let_def)
qed

lemma format_long: "length (FormatCodepoint cp) > 1"
  by (simp add: FormatCodepoint_def)

subsection \<open>Icons across machines\<close>

lemma find_SomeD: "find P xs = Some x \<Longrightarrow> P x \<and> x \<in> set xs"
  by (auto simp: find_Some_iff in_set_conv_nth)

lemma alias_builtin: "AliasFor cp \<noteq> [] \<Longrightarrow> (AliasFor cp, cp) \<in> set kBuiltins"
  by (cases "find (\<lambda>b. snd b = cp) kBuiltins") (auto simp: AliasFor_def dest: find_SomeD)

lemma builtin_import: "b \<in> set kBuiltins \<Longrightarrow> ImportIcon (kBuiltinPrefix @ fst b) = ([snd b], False)"
proof -
  have "list_all (\<lambda>b. ImportIcon (kBuiltinPrefix @ fst b) = ([snd b], False)) kBuiltins" by code_simp
  then show "b \<in> set kBuiltins \<Longrightarrow> ?thesis" by (simp add: list_all_iff)
qed

lemma alias_import: "AliasFor cp \<noteq> [] \<Longrightarrow> ImportIcon (kBuiltinPrefix @ AliasFor cp) = ([cp], False)"
  using builtin_import [OF alias_builtin] by simp

lemma builtin_names_normal: "b \<in> set kBuiltins \<Longrightarrow> NormalizeName (fst b) = fst b \<and> fst b \<noteq> [] \<and> AliasFor (snd b) = fst b"
proof -
  have "list_all (\<lambda>b. NormalizeName (fst b) = fst b \<and> fst b \<noteq> [] \<and> AliasFor (snd b) = fst b) kBuiltins" by code_simp
  then show "b \<in> set kBuiltins \<Longrightarrow> ?thesis" by (simp add: list_all_iff)
qed

lemma prefixed_glyph:
  assumes "nk_prefixed (SplitName icon)" "GlyphForKey table (SplitName icon) = Some cp"
  shows "AliasFor cp \<noteq> []"
proof -
  obtain b where "find (\<lambda>b. nk_key (SplitName icon) = fst b) kBuiltins = Some b" "cp = snd b"
    using assms by (auto simp: GlyphForKey_def split: if_splits option.splits)
  then show ?thesis using builtin_names_normal [of b] by (auto dest!: find_SomeD)
qed

abbreviation builtin_token :: "wstring \<Rightarrow> bool" where
  "builtin_token icon \<equiv> take (length kBuiltinPrefix) icon = kBuiltinPrefix"

lemma token_form: "builtin_token icon \<Longrightarrow> \<exists>name. icon = kBuiltinPrefix @ name"
  by (metis append_take_drop_id)

lemma token_not_codepoint: "builtin_token icon \<Longrightarrow> ClassifyCodepoint icon = NotCodepoint"
proof -
  assume "builtin_token icon"
  then obtain name where i: "icon = kBuiltinPrefix @ name" using token_form by blast
  have d: "dropWhile blank icon = icon" by (simp add: i kBuiltinPrefix_def blank_def)
  have "dropWhile blank (rev kBuiltinPrefix) = [] @ rev kBuiltinPrefix" by (simp add: kBuiltinPrefix_def blank_def)
  then obtain t where t: "dropWhile blank (rev icon) = t @ rev kBuiltinPrefix" unfolding i rev_append dropWhile_append by metis
  then have "rev (dropWhile blank (rev icon)) = kBuiltinPrefix @ rev t" by simp
  moreover have "\<not> codepoint_prefix (kBuiltinPrefix @ rev t)" by (simp add: codepoint_prefix_def kBuiltinPrefix_def)
  moreover have "\<not> list_all blank icon" by (simp add: i kBuiltinPrefix_def blank_def)
  ultimately show ?thesis by (simp add: ClassifyCodepoint_def d Let_def) (simp add: kBuiltinPrefix_def)
qed

lemma unknown_token_import:
  assumes "builtin_token icon" "GlyphForKey table (SplitName icon) = None"
  shows "ImportIcon icon = ([], True)"
proof -
  obtain name where i: "icon = kBuiltinPrefix @ name" using token_form [OF assms(1)] by blast
  have "find (\<lambda>b. name = fst b) kBuiltins = None" if "name \<noteq> []"
  proof (rule ccontr)
    assume "find (\<lambda>b. name = fst b) kBuiltins \<noteq> None"
    then obtain b where b: "find (\<lambda>b. name = fst b) kBuiltins = Some b" by blast
    then have "NormalizeName name = name" "name \<noteq> []" using builtin_names_normal [of b] by (auto dest: find_SomeD)
    then show False using assms(2) b that by (simp add: GlyphForKey_def SplitName_def i)
  qed
  then show ?thesis by (cases "name = []") (simp_all add: ImportIcon_def PortableToNative_def i)
qed

lemma plain_import: "\<not> builtin_token icon \<Longrightarrow> ImportIcon icon = (icon, False)"
  by (simp add: ImportIcon_def PortableToNative_def)

lemma token_key: "GlyphForKey table (SplitName icon) = Some cp \<Longrightarrow> builtin_token icon \<Longrightarrow> nk_prefixed (SplitName icon)"
proof -
  assume a: "GlyphForKey table (SplitName icon) = Some cp" "builtin_token icon"
  have "GlyphForKey table (SplitName kBuiltinPrefix) = None"
    by (simp add: GlyphForKey_def SplitName_def kBuiltinPrefix_def NormalizeName_def is_joiner_def is_alnum_def)
  then have "icon \<noteq> kBuiltinPrefix" using a by auto
  then show ?thesis using a(2) token_form [OF a(2)] by (auto simp: SplitName_def Let_def)
qed

lemma export_short:
  assumes "length icon \<le> 1"
  shows "ImportIcon (ExportIcon table icon) = (icon, False)"
proof (cases "\<exists>b. find (\<lambda>b. hd icon = snd b) kBuiltins = Some b \<and> icon \<noteq> []")
  case True
  then obtain b where b: "find (\<lambda>b. hd icon = snd b) kBuiltins = Some b" "icon = [hd icon]"
    using assms by (cases icon) auto
  then have "ExportIcon table icon = kBuiltinPrefix @ fst b"
    using assms by (cases icon) (auto simp: ExportIcon_def NativeToPortable_def)
  then show ?thesis using builtin_import [of b] b by (auto dest!: find_SomeD)
next
  case False
  then have "ExportIcon table icon = icon"
    using assms by (cases icon) (auto simp: ExportIcon_def NativeToPortable_def split: option.split)
  moreover have "\<not> builtin_token icon" using assms by (cases icon) (auto simp: kBuiltinPrefix_def)
  ultimately show ?thesis by (simp add: plain_import)
qed

lemma export_long:
  assumes "length icon > 1"
  shows "ExportIcon table icon =
    (case GlyphForKey table (SplitName icon) of
       Some cp \<Rightarrow> if AliasFor cp \<noteq> [] then kBuiltinPrefix @ AliasFor cp else icon
     | None \<Rightarrow> icon)"
proof -
  have "fst (NativeToPortable icon) = icon" using assms by (auto simp: NativeToPortable_def split: list.split)
  then show ?thesis using assms by (simp add: ExportIcon_def ResolveCodepoint_def split: option.split)
qed

text \<open>
  An icon exported to the portable file and imported again draws as before, whatever form the
  setting has (a glyph, a glyph's name in any spelling, a builtin name, code-point text, an emoji, a
  path) and whatever the font's table holds. The only icons that are lost, with a warning, are
  \<^verbatim>\<open>builtin:\<close> tokens that name no glyph and drew as the placeholder.
\<close>

lemma icon_crosses:
  "(snd (ImportIcon (ExportIcon table icon)) \<longleftrightarrow> builtin_token icon \<and> GlyphForKey table (SplitName icon) = None) \<and>
   (if snd (ImportIcon (ExportIcon table icon))
    then fst (ImportIcon (ExportIcon table icon)) = [] \<and> snd (Resolve table icon) \<noteq> Resolved
    else ResolveIcon table (fst (ImportIcon (ExportIcon table icon))) = ResolveIcon table icon)"
proof (cases "length icon \<le> 1")
  case True
  then show ?thesis by (cases icon) (simp_all add: export_short kBuiltinPrefix_def)
next
  case False
  then have long: "length icon > 1" by simp
  show ?thesis
  proof (cases "GlyphForKey table (SplitName icon)")
    case None
    then show ?thesis
      using long unknown_token_import [OF _ None] token_not_codepoint [of icon] plain_import [of icon]
      by (cases "builtin_token icon") (simp_all add: export_long Resolve_def)
  next
    case (Some cp)
    then have r: "ResolveIcon table icon = [cp]" using long by (simp add: ResolveIcon_def Resolve_def)
    show ?thesis
    proof (cases "AliasFor cp = []")
      case True
      then have "\<not> builtin_token icon" using prefixed_glyph [OF token_key [OF Some] Some] by blast
      then show ?thesis using Some True long by (simp add: export_long plain_import)
    next
      case False
      then show ?thesis using Some r long by (simp add: export_long alias_import) (simp add: ResolveIcon_def Resolve_def)
    qed
  qed
qed

subsection \<open>The table of the font\<close>

definition key_order :: "Glyph list \<Rightarrow> bool" where
  "key_order table = sorted_wrt (\<lambda>a b. ord_class.lexordp (gl_key a) (gl_key b)) table"

declare lower_bound_loop.simps [simp del]

lemma key_order_nth: "key_order table \<Longrightarrow> i < j \<Longrightarrow> j < length table \<Longrightarrow> ord_class.lexordp (gl_key (table ! i)) (gl_key (table ! j))"
  unfolding key_order_def by (rule sorted_wrt_nth_less)

lemma key_less: "key_order table \<Longrightarrow> i \<le> j \<Longrightarrow> j < length table \<Longrightarrow> ord_class.lexordp (gl_key (table ! j)) key \<Longrightarrow>
    ord_class.lexordp (gl_key (table ! i)) key"
  using key_order_nth [of table i j] lexordp_trans by (cases "i = j") auto

lemma lower_bound_loop_spec:
  assumes "key_order table" "first + cnt \<le> length table"
    and "\<And>j. j < first \<Longrightarrow> ord_class.lexordp (gl_key (table ! j)) key"
    and "\<And>j. first + cnt \<le> j \<Longrightarrow> j < length table \<Longrightarrow> \<not> ord_class.lexordp (gl_key (table ! j)) key"
  shows "\<forall>j < length table. ord_class.lexordp (gl_key (table ! j)) key \<longleftrightarrow> j < lower_bound_loop table key first cnt"
  using assms
proof (induction table key first cnt rule: lower_bound_loop.induct)
  case (1 table key first cnt)
  define half where "half = cnt div 2"
  show ?case
  proof (cases "cnt = 0")
    case True
    then have "ord_class.lexordp (gl_key (table ! j)) key \<longleftrightarrow> j < first" if "j < length table" for j
      using 1(5) [of j] 1(6) [of j] that by (cases "j < first") simp_all
    then show ?thesis using True by (subst lower_bound_loop.simps) simp
  next
    case False
    then have h: "half < cnt" by (simp add: half_def)
    show ?thesis
    proof (cases "ord_class.lexordp (gl_key (table ! (first + half))) key")
      case True
      have "\<forall>j < length table. ord_class.lexordp (gl_key (table ! j)) key \<longleftrightarrow> j < lower_bound_loop table key (first + half + 1) (cnt - (half + 1))"
      proof (rule 1(1) [OF False half_def refl True 1(3)])
        show "first + half + 1 + (cnt - (half + 1)) \<le> length table" using 1(4) h by simp
        show "ord_class.lexordp (gl_key (table ! j)) key" if "j < first + half + 1" for j
          using key_less [OF 1(3) _ _ True, of j] that h 1(4) by simp
        show "\<not> ord_class.lexordp (gl_key (table ! j)) key" if "first + half + 1 + (cnt - (half + 1)) \<le> j" "j < length table" for j
          using 1(6) [of j] that h by simp
      qed
      then show ?thesis using False True by (subst lower_bound_loop.simps) (simp add: Let_def flip: half_def)
    next
      case ge: False
      have "\<forall>j < length table. ord_class.lexordp (gl_key (table ! j)) key \<longleftrightarrow> j < lower_bound_loop table key first half"
      proof (rule 1(2) [OF False half_def refl ge 1(3)])
        show "first + half \<le> length table" using 1(4) h by simp
        show "ord_class.lexordp (gl_key (table ! j)) key" if "j < first" for j using 1(5) that .
        show "\<not> ord_class.lexordp (gl_key (table ! j)) key" if "first + half \<le> j" "j < length table" for j
          using key_less [OF 1(3) that] ge by blast
      qed
      then show ?thesis using False ge by (subst lower_bound_loop.simps) (simp add: Let_def flip: half_def)
    qed
  qed
qed

lemma lower_bound_spec:
  "key_order table \<Longrightarrow> j < length table \<Longrightarrow> ord_class.lexordp (gl_key (table ! j)) key \<longleftrightarrow> j < lower_bound table key"
  using lower_bound_loop_spec [of table 0 "length table" key] by (simp add: lower_bound_def)

lemma FindByKey_iff:
  assumes "key_order table"
  shows "FindByKey table key = Some g \<longleftrightarrow> g \<in> set table \<and> gl_key g = key"
proof
  assume "FindByKey table key = Some g"
  then show "g \<in> set table \<and> gl_key g = key" by (simp add: FindByKey_def Let_def split: if_splits) (metis nth_mem)
next
  assume g: "g \<in> set table \<and> gl_key g = key"
  then obtain i where i: "i < length table" "table ! i = g" by (auto simp: in_set_conv_nth)
  have "\<not> i < lower_bound table key"
    using lower_bound_spec [OF assms i(1), of key] g i by (simp add: lexordp_irreflexive)
  moreover have "\<not> lower_bound table key < i"
  proof
    assume l: "lower_bound table key < i"
    then have "ord_class.lexordp (gl_key (table ! lower_bound table key)) key" using key_order_nth [OF assms l i(1)] g i by simp
    then show False using lower_bound_spec [OF assms, of "lower_bound table key" key] l i(1) by simp
  qed
  ultimately have "lower_bound table key = i" by simp
  then show "FindByKey table key = Some g" using g i by (simp add: FindByKey_def)
qed

subsection \<open>Cells and what they store\<close>

lemma index_from_distinct:
  "i < length xs \<Longrightarrow> P (xs ! i) \<Longrightarrow> (\<And>j. j < i \<Longrightarrow> \<not> P (xs ! j)) \<Longrightarrow> index_from n P xs = Some (n + i)"
proof (induction xs arbitrary: n i)
  case (Cons x xs)
  show ?case
  proof (cases i)
    case (Suc k)
    have "index_from (Suc n) P xs = Some (Suc n + k)" using Cons.prems(1,2) Cons.prems(3) [of "Suc _"] Suc by (intro Cons.IH) auto
    then show ?thesis using Cons.prems(3) [of 0] Suc by simp
  qed (use Cons.prems in simp)
qed simp

lemma query_words_inv:
  assumes "list_all (\<lambda>c. ascii_lower c = c) t" "\<forall>w \<in> set ws. sublist w s" "suffix w s"
  shows "(\<forall>v \<in> set (fst (fold query_step t (ws, w))). sublist v (s @ t)) \<and> suffix (snd (fold query_step t (ws, w))) (s @ t)"
  using assms
proof (induction t arbitrary: ws w s)
  case (Cons c t)
  have "\<forall>v \<in> set ws. sublist v (s @ [c])" using Cons.prems(2) sublist_append by blast
  then show ?case using Cons.IH [of "fst (query_step c (ws, w))" "s @ [c]" "snd (query_step c (ws, w))"] Cons.prems
    by (auto simp: query_step_def suffix_imp_sublist sublist_append dest: suffix_imp_sublist split: if_splits)
qed simp

lemma query_words_sublist: "list_all (\<lambda>c. ascii_lower c = c) s \<Longrightarrow> w \<in> set (SplitQueryWords s) \<Longrightarrow> sublist w s"
  using query_words_inv [of s "[]" "[]" "[]"] by (auto simp: SplitQueryWords_def Let_def dest: suffix_imp_sublist split: if_splits)

lemma normalize_loop_lower:
  "list_all (\<lambda>c. ascii_lower c = c) out \<Longrightarrow> list_all (\<lambda>c. ascii_lower c = c) (normalize_loop out p s)"
proof (induction out p s rule: normalize_loop.induct)
  case (2 out p ch rest)
  have a: "ascii_lower (ascii_lower ch) = ascii_lower ch"
    by (auto simp: ascii_lower_def word_le_nat_alt unat_word_ariths unat_sub_if')
  have b: "ascii_lower 0x2D = 0x2D" by (simp add: ascii_lower_def)
  show ?case using 2 by (simp add: a b)
qed simp

lemma NormalizeName_lower: "NormalizeName s = s \<Longrightarrow> list_all (\<lambda>c. ascii_lower c = c) s"
  using normalize_loop_lower [of "[]" False s] by (auto simp: NormalizeName_def split: if_splits)

lemma labelled_words:
  assumes "c \<notin> {0x20, 0x5F, 0x2D, 0x09}"
  shows "SplitQueryWords (se_key (labelled ''letter-'' d c)) = [wlit ''letter'', [ascii_lower c]]"
    "SplitQueryWords (se_key (labelled ''digit-'' d c)) = [wlit ''digit'', [ascii_lower c]]"
  using assms by (simp_all add: SplitQueryWords_def labelled_def query_step_def ascii_lower_def Let_def)

lemma kLetters_entry:
  assumes "e \<in> set kLettersAndDigits"
  shows "\<exists>c. se_text e = [c] \<and> c < kFirstSymbol \<and> c \<notin> {0x20, 0x5F, 0x2D, 0x09} \<and>
    (e = labelled ''letter-'' ''Letter '' c \<or> e = labelled ''digit-'' ''Digit '' c)"
proof -
  obtain c where c: "c \<in> set (wlit ''abcdefghijklmnopqrstuvwxyzABCDEFGHIJKLMNOPQRSTUVWXYZ0123456789'')"
    "e = labelled ''letter-'' ''Letter '' c \<or> e = labelled ''digit-'' ''Digit '' c"
    using assms unfolding kLettersAndDigits_def wlit_def by auto
  have "list_all (\<lambda>c. c < kFirstSymbol \<and> c \<notin> {0x20, 0x5F, 0x2D, 0x09}) (wlit ''abcdefghijklmnopqrstuvwxyzABCDEFGHIJKLMNOPQRSTUVWXYZ0123456789'')"
    by (simp add: kFirstSymbol_def)
  then show ?thesis using c by (auto simp: list_all_iff labelled_def simp del: wlit_simps)
qed

lemma label_parts:
  "sublist (wlit ''letter'') (map ascii_lower (se_key (labelled ''letter-'' d c)))"
  "sublist (wlit ''digit'') (map ascii_lower (se_key (labelled ''digit-'' d c)))"
  by (simp_all add: labelled_def ascii_lower_def sublist_code)

lemma kLetters_found:
  assumes "i < length kLettersAndDigits"
  shows "Table_Find kLettersAndDigits (se_text (kLettersAndDigits ! i)) = Some i" "i \<in> set (SearchTable kLettersAndDigits (se_key (kLettersAndDigits ! i)))"
proof -
  have d: "distinct (map se_text kLettersAndDigits)" by (simp add: kLettersAndDigits_def labelled_def)
  have "index_from 0 (\<lambda>e. se_text e = se_text (kLettersAndDigits ! i)) kLettersAndDigits = Some (0 + i)"
    by (rule index_from_distinct [OF assms]) (use assms d in \<open>auto simp: distinct_conv_nth\<close>)
  then show "Table_Find kLettersAndDigits (se_text (kLettersAndDigits ! i)) = Some i" by (simp add: Table_Find_def)
  obtain c where "se_text (kLettersAndDigits ! i) = [c]" "c \<notin> {0x20, 0x5F, 0x2D, 0x09}"
    "kLettersAndDigits ! i = labelled ''letter-'' ''Letter '' c \<or> kLettersAndDigits ! i = labelled ''digit-'' ''Digit '' c"
    using kLetters_entry [OF nth_mem [OF assms]] by blast
  then show "i \<in> set (SearchTable kLettersAndDigits (se_key (kLettersAndDigits ! i)))"
    using assms labelled_words [of c] label_parts by (auto simp: SearchTable_def Let_def simp del: wlit_simps) (auto simp: labelled_def)
qed

definition row_ok :: "Glyph \<Rightarrow> bool" where
  "row_ok g \<longleftrightarrow> NormalizeName (gl_key g) = gl_key g \<and> length (gl_key g) > 1 \<and>
     kFirstSymbol \<le> gl_codepoint g \<and> gl_codepoint g \<le> kLastSymbol \<and>
     (case find (\<lambda>b. gl_key g = fst b) kBuiltins of None \<Rightarrow> True | Some b \<Rightarrow> snd b = gl_codepoint g)"

definition table_ok :: "Glyph list \<Rightarrow> bool" where
  "table_ok table \<longleftrightarrow> key_order table \<and> distinct (map gl_codepoint table) \<and> list_all row_ok table"

lemma row_not_token: "row_ok g \<Longrightarrow> \<not> builtin_token (gl_key g)"
proof
  assume g: "row_ok g" "builtin_token (gl_key g)"
  then have "normalize_loop [] False (gl_key g) = []"
    using token_form [of "gl_key g"] by (intro not_name [of "0x3A"]) (auto simp: kBuiltinPrefix_def is_joiner_def is_alnum_def)
  then have "gl_key g = []" using g(1) by (simp add: row_ok_def NormalizeName_def split: if_splits)
  then show False using g(1) by (simp add: row_ok_def)
qed

lemma key_resolves:
  assumes "table_ok table" "g \<in> set table"
  shows "GlyphForKey table (SplitName (gl_key g)) = Some (gl_codepoint g)" "ResolveCodepoint table (gl_key g) = Some (gl_codepoint g)"
proof -
  have g: "row_ok g" "key_order table" using assms by (simp_all add: table_ok_def list_all_iff)
  then have s: "SplitName (gl_key g) = \<lparr>nk_key = gl_key g, nk_prefixed = False\<rparr>"
    using row_not_token [of g] by (auto simp: SplitName_def row_ok_def)
  have "FindByKey table (gl_key g) = Some g" using FindByKey_iff [OF g(2)] assms(2) by blast
  then show k: "GlyphForKey table (SplitName (gl_key g)) = Some (gl_codepoint g)"
    using g(1) by (auto simp: s GlyphForKey_def row_ok_def split: option.splits)
  have "length (gl_key g) \<noteq> 1" using g(1) by (simp add: row_ok_def)
  then show "ResolveCodepoint table (gl_key g) = Some (gl_codepoint g)" unfolding ResolveCodepoint_def k by simp
qed

lemma Segoe_found:
  assumes "table_ok table" "i < length table"
  shows "Segoe_Find table (gl_key (table ! i)) = Some i" "i \<in> set (Glyph_Search table (gl_key (table ! i)))"
proof -
  have d: "distinct (map gl_codepoint table)" using assms(1) by (simp add: table_ok_def)
  have "FindByCodepoint table (gl_codepoint (table ! i)) = Some (0 + i)" unfolding FindByCodepoint_def
    by (rule index_from_distinct) (use assms(2) d in \<open>auto simp: distinct_conv_nth\<close>)
  moreover have "\<not> (ucast c :: 32 word) > 0xFFFF" for c :: wchar
    using unsigned_less [of c, where 'a = nat] by (simp add: word_less_nat_alt unsigned_ucast_eq take_bit_nat_eq_self)
  moreover have "(ucast (ucast c :: 32 word) :: wchar) = c" for c :: wchar
    using unsigned_less [of c, where 'a = nat] by (simp add: word_unat_eq_iff unsigned_ucast_eq take_bit_nat_eq_self unsigned_take_bit_eq)
  ultimately show "Segoe_Find table (gl_key (table ! i)) = Some i"
    using key_resolves(2) [OF assms(1), of "table ! i"] assms(2) by (simp add: Segoe_Find_def Segoe_FindCodepoint_def)
  have "row_ok (table ! i)" using assms by (simp add: table_ok_def list_all_length)
  then have "sublist w (gl_key (table ! i))" if "w \<in> set (SplitQueryWords (gl_key (table ! i)))" for w
    using query_words_sublist [OF NormalizeName_lower that] by (simp add: row_ok_def)
  then show "i \<in> set (Glyph_Search table (gl_key (table ! i)))" using assms(2) by (simp add: Glyph_Search_def Let_def list_all_iff)
qed

lemma letter_not_segoe:
  assumes "table_ok table" "c < kFirstSymbol"
  shows "Segoe_Find table [c] = None"
proof -
  have "length (normalize_loop [] False [c]) \<le> 1" by simp
  then have l: "length (nk_key (SplitName [c])) \<le> 1" "\<not> nk_prefixed (SplitName [c])"
    by (simp_all add: SplitName_def NormalizeName_def kBuiltinPrefix_def Let_def)
  have "fst b \<noteq> nk_key (SplitName [c])" if "b \<in> set kBuiltins" for b
  proof -
    have "list_all (\<lambda>b. length (fst b) > 1) kBuiltins" by code_simp
    then show ?thesis using that l(1) by (auto simp: list_all_iff)
  qed
  then have "find (\<lambda>b. nk_key (SplitName [c]) = fst b) kBuiltins = None"
    unfolding find_None_iff by fastforce
  moreover have "FindByKey table (nk_key (SplitName [c])) = None"
  proof (rule ccontr)
    assume "FindByKey table (nk_key (SplitName [c])) \<noteq> None"
    then obtain g where "g \<in> set table" "gl_key g = nk_key (SplitName [c])"
      using FindByKey_iff assms(1) by (auto simp: table_ok_def)
    then show False using assms(1) l(1) by (auto simp: table_ok_def list_all_iff row_ok_def)
  qed
  ultimately show ?thesis using assms(2) by (simp add: Segoe_Find_def ResolveCodepoint_def GlyphForKey_def not_le [symmetric])
qed

text \<open>
  C39. Whatever cell of the picker is picked, the text stored for it draws the glyph that the cell
  shows, is found again in the set of the cell at the same place, and the search for the cell's
  label lists the cell.
\<close>

theorem picked_icon_found:
  assumes "table_ok table" "s < length (Sets table)" "i < gs_Size (Sets table ! s)"
  shows "ResolveIcon table (c_stored (gs_At (Sets table ! s) i)) = c_glyph (gs_At (Sets table ! s) i) \<and>
         SetForIcon table (c_stored (gs_At (Sets table ! s) i)) = Some s \<and>
         gs_Find (Sets table ! s) (c_stored (gs_At (Sets table ! s) i)) = Some i \<and>
         i \<in> set (gs_Search (Sets table ! s) (c_key (gs_At (Sets table ! s) i)))"
proof (cases "s = 0")
  case True
  then have i: "i < length table" using assms(3) by (simp add: Sets_def SegoeFluentSet_def)
  then have "row_ok (table ! i)" using assms(1) by (simp add: table_ok_def list_all_length)
  then have "ResolveIcon table (gl_key (table ! i)) = [gl_codepoint (table ! i)]"
    using key_resolves(1) [OF assms(1), of "table ! i"] i by (simp add: ResolveIcon_def Resolve_def row_ok_def)
  then show ?thesis using Segoe_found [OF assms(1) i] True
    by (simp add: Sets_def SegoeFluentSet_def SetForIcon_def Segoe_At_def Let_def)
next
  case False
  then have s: "s = 1" using assms(2) by (simp add: Sets_def)
  then have i: "i < length kLettersAndDigits" using assms(3) by (simp add: Sets_def TableSet_def)
  obtain c where c: "se_text (kLettersAndDigits ! i) = [c]" "c < kFirstSymbol" using kLetters_entry [OF nth_mem [OF i]] by blast
  then show ?thesis using kLetters_found [OF i] letter_not_segoe [OF assms(1) c(2)]
    by (simp add: s Sets_def SegoeFluentSet_def TableSet_def SetForIcon_def Table_At_def Let_def ResolveIcon_def Resolve_def)
qed

definition sample_table :: "Glyph list" where
  "sample_table = [\<lparr>gl_key = wlit ''accept'', gl_codepoint = 0xE8FB, gl_displayName = wlit ''Accept''\<rparr>,
     \<lparr>gl_key = wlit ''package'', gl_codepoint = 0xE7B8, gl_displayName = wlit ''Package''\<rparr>,
     \<lparr>gl_key = wlit ''robot'', gl_codepoint = 0xE99A, gl_displayName = wlit ''Robot''\<rparr>]"

lemma sample_table_ok: "table_ok sample_table"
  by (simp add: table_ok_def sample_table_def key_order_def row_ok_def NormalizeName_def is_joiner_def is_alnum_def ascii_lower_def
      kFirstSymbol_def kLastSymbol_def kBuiltins_def)

theorem picked_icon_found_witness:
  "ResolveIcon sample_table (wlit ''robot'') = [0xE99A] \<and> SetForIcon sample_table (wlit ''robot'') = Some 0 \<and>
   Segoe_Find sample_table (wlit ''robot'') = Some 2"
  using picked_icon_found [OF sample_table_ok, of 0 2]
  by (simp add: Sets_def SegoeFluentSet_def Segoe_At_def sample_table_def Let_def)

end
