(* ===== verification/Axan_ProfileToml.thy ===== *)
theory Axan_ProfileToml
  imports Axan_LaunchEntryToml Axan_Glyphs
begin

text \<open>
  The portable mirror of the settings, \<^verbatim>\<open>cascadia/TerminalApp/AxanProfileToml.cpp\<close>: one TOML file per
  profile, the file of the startup tree, and the removal of mirrors of deleted profiles.

  The folder is the list of its entries with the contents of the regular ones; \<open>export_world\<close> holds
  what the operating system and the libraries answer: the settings file and its parsed root object,
  whether a file can be written or removed, which names the file system takes for the same file
  (\<open>xw_same\<close>), the C library's wide character functions, the printing of a real number, the text
  conversion and the font's glyph table. A profile's GUID is used as a file name of the folder.

  Shown: a run that reports a failure at once leaves the folder as it was; otherwise only files that
  are named like a mirror and belong to no profile are removed, files of others are not touched, and
  when no failure is reported the folder holds the current mirror of every profile, the current
  startup tree, and no stale mirror.
\<close>

subsection \<open>Identities and keys\<close>

definition stripBraces :: "bstring \<Rightarrow> bstring" where
  "stripBraces guid =
     (if length guid \<ge> 2 \<and> hd guid = 0x7B \<and> last guid = 0x7D then take (length guid - 2) (drop 1 guid) else guid)"

definition c_tolower :: "byte \<Rightarrow> byte" where
  "c_tolower c = (if 0x41 \<le> c \<and> c \<le> 0x5A then c + 0x20 else c)"

definition guidEqual :: "bstring \<Rightarrow> bstring \<Rightarrow> bool" where
  "guidEqual a b =
     (let na = stripBraces a; nb = stripBraces b
      in length na = length nb \<and> list_all (\<lambda>i. c_tolower (na ! i) = c_tolower (nb ! i)) [0 ..< length na])"

definition c_isalnum :: "byte \<Rightarrow> bool" where
  "c_isalnum c \<longleftrightarrow> (0x30 \<le> c \<and> c \<le> 0x39) \<or> (0x41 \<le> c \<and> c \<le> 0x5A) \<or> (0x61 \<le> c \<and> c \<le> 0x7A)"

definition isBareKey :: "bstring \<Rightarrow> bool" where
  "isBareKey k \<longleftrightarrow> k \<noteq> [] \<and> list_all (\<lambda>c. c_isalnum c \<or> c = 0x5F \<or> c = 0x2D) k"

definition tomlKey :: "bstring \<Rightarrow> bstring" where
  "tomlKey k = (if isBareKey k then k else TomlQuote k)"

subsection \<open>JSON values as TOML\<close>

definition int_text :: "int \<Rightarrow> bstring" where
  "int_text i = (if i < 0 then [0x2D] else []) @ map ucast (decimal (nat \<bar>i\<bar>))"

definition float_text :: "(height \<Rightarrow> bstring) \<Rightarrow> height \<Rightarrow> bstring" where
  "float_text print x =
     (let s = print x in if list_ex (\<lambda>c. c \<in> {0x2E, 0x65, 0x45, 0x6E, 0x4E}) s then s else s @ blit ''.0'')"

fun join_items :: "bstring list \<Rightarrow> bstring" where
  "join_items [] = []"
| "join_items [x] = x"
| "join_items (x # xs) = x @ blit '', '' @ join_items xs"

fun jsonToTomlValue :: "(height \<Rightarrow> bstring) \<Rightarrow> jvalue \<Rightarrow> bstring" where
  "jsonToTomlValue print JNull = [0x22, 0x22]"
| "jsonToTomlValue print (JBool b) = blit (if b then ''true'' else ''false'')"
| "jsonToTomlValue print (JInt i) = int_text i"
| "jsonToTomlValue print (JNum x) = float_text print x"
| "jsonToTomlValue print (JStr s) = TomlQuote s"
| "jsonToTomlValue print (JArr vs) = 0x5B # join_items (map (jsonToTomlValue print) vs) @ [0x5D]"
| "jsonToTomlValue print (JObj ms) =
     blit ''{ '' @
     join_items (map (\<lambda>kv. tomlKey (blit (fst kv)) @ blit '' = '' @ jsonToTomlValue print (snd kv)) (filter (\<lambda>kv. snd kv \<noteq> JNull) ms)) @
     blit '' }''"

subsection \<open>Reading the settings\<close>

type_synonym jmembers = "(string \<times> jvalue) list"

definition jsonStr :: "jmembers \<Rightarrow> string \<Rightarrow> bstring" where
  "jsonStr obj key = (case map_of obj key of Some (JStr s) \<Rightarrow> s | _ \<Rightarrow> [])"

definition profiles_list :: "jmembers \<Rightarrow> jvalue list option" where
  "profiles_list doc =
     (case map_of doc ''profiles'' of
        Some (JObj ms) \<Rightarrow> (case map_of ms ''list'' of Some (JArr ps) \<Rightarrow> Some ps | _ \<Rightarrow> None)
      | _ \<Rightarrow> None)"

definition lookupProfileName :: "jmembers \<Rightarrow> bstring \<Rightarrow> bstring" where
  "lookupProfileName doc bareGuid =
     (case profiles_list doc of
        None \<Rightarrow> []
      | Some ps \<Rightarrow>
          (case find (\<lambda>p. case p of JObj ms \<Rightarrow> guidEqual (jsonStr ms ''guid'') bareGuid | _ \<Rightarrow> False) ps of
             Some (JObj ms) \<Rightarrow> jsonStr ms ''name''
           | _ \<Rightarrow> []))"

definition out_lines :: "bstring list \<Rightarrow> bstring" where
  "out_lines ls = concat (map (\<lambda>l. l @ [0x0A]) ls)"

definition meta_text :: "nat \<Rightarrow> bstring" where
  "meta_text version =
     out_lines [0x5B # blit ''meta'' @ [0x5D], blit ''axan-toml-version = '' @ map ucast (decimal version),
       blit ''exported-by       = '' @ 0x22 # blit ''windows'' @ [0x22], []]"

definition kCoreKeys :: "string list" where
  "kCoreKeys = [''guid'', ''name'', ''defaultLaunchEntries'']"

definition native_step :: "(height \<Rightarrow> bstring) \<Rightarrow> string \<times> jvalue \<Rightarrow> bool \<times> bstring \<Rightarrow> bool \<times> bstring" where
  "native_step print kv a =
     (if fst kv \<in> set kCoreKeys \<or> snd kv = JNull then a
      else (True, snd a @ (if fst a then [] else 0x5B # blit ''profile.native.windows'' @ [0x5D, 0x0A]) @
              tomlKey (blit (fst kv)) @ blit '' = '' @ jsonToTomlValue print (snd kv) @ [0x0A]))"

definition buildProfileToml :: "(height \<Rightarrow> bstring) \<Rightarrow> jmembers \<Rightarrow> bstring \<Rightarrow> bstring" where
  "buildProfileToml print profile bare =
     (let native = fold (native_step print) profile (False, [])
      in out_lines [blit ''# axan portable profile. Canonical config is each platform's native store;'',
           blit ''# this file is the portable mirror; import writes into the native store. Sparse: omit a'',
           blit ''# key to leave it untouched on import. The startup-session tree is global'',
           blit ''# (D19) and lives in startup-sessions.toml beside this file.'', []] @
         meta_text 1 @
         out_lines [0x5B # blit ''profile'' @ [0x5D], blit ''uuid = '' @ TomlQuote bare] @
         (case map_of profile ''name'' of Some (JStr n) \<Rightarrow> out_lines [blit ''name = '' @ TomlQuote n] | _ \<Rightarrow> []) @
         [0x0A] @ snd native @ (if fst native then [0x0A] else []))"

subsection \<open>The startup tree\<close>

definition numeric_height :: "jvalue option \<Rightarrow> height" where
  "numeric_height v = (case v of Some (JInt i) \<Rightarrow> Num (of_int i) | Some (JNum h) \<Rightarrow> h | _ \<Rightarrow> Num 0)"

definition export_separator :: "jmembers \<Rightarrow> Entry" where
  "export_separator e = empty_Entry\<lparr>en_id := jsonStr e ''id'', en_parentId := jsonStr e ''parent'', en_kind := jsonStr e ''kind'',
     en_style := jsonStr e ''style'', en_placement := jsonStr e ''placement'',
     en_height := NormalizeSeparatorHeight (numeric_height (map_of e ''height'')), en_name := jsonStr e ''name'',
     en_collapsed := (map_of e ''collapsed'' = Some (JBool True))\<rparr>"

definition export_hoist :: "text_codec \<Rightarrow> jvalue option \<Rightarrow> bstring" where
  "export_hoist tc h =
     (case h of
        Some (JStr s) \<Rightarrow> tc_u16u8 tc (Hoist_Normalize (tc_u8u16 tc s))
      | Some (JArr vs) \<Rightarrow> tc_u16u8 tc (Hoist_Format (FromMask (fst (MaskFromNames hoistNames (string_names tc vs)))))
      | _ \<Rightarrow> [])"

definition export_session :: "text_codec \<Rightarrow> Glyph list \<Rightarrow> jmembers \<Rightarrow> jmembers \<Rightarrow> Entry" where
  "export_session tc table doc e =
     (let profile = stripBraces (jsonStr e ''profile'')
      in empty_Entry\<lparr>en_id := jsonStr e ''id'', en_parentId := jsonStr e ''parent'', en_kind := jsonStr e ''kind'',
           en_profile := profile, en_profileName := (if profile = [] then [] else lookupProfileName doc profile),
           en_name := jsonStr e ''name'', en_directory := jsonStr e ''directory'', en_command := jsonStr e ''command'',
           en_icon := tc_u16u8 tc (ExportIcon table (tc_u8u16 tc (jsonStr e ''icon''))),
           en_color := jsonStr e ''color'', en_colorTarget := jsonStr e ''colorTarget'',
           en_hoist := export_hoist tc (map_of e ''hoist'')\<rparr>)"

definition export_entry :: "text_codec \<Rightarrow> Glyph list \<Rightarrow> jmembers \<Rightarrow> jmembers \<Rightarrow> Entry" where
  "export_entry tc table doc e =
     (if jsonStr e ''kind'' = KindSeparator then export_separator e else export_session tc table doc e)"

definition export_entries :: "text_codec \<Rightarrow> Glyph list \<Rightarrow> jmembers \<Rightarrow> Entry list" where
  "export_entries tc table doc =
     (case map_of doc ''startupSessions'' of
        Some (JArr vs) \<Rightarrow> concat (map (\<lambda>v. case v of JObj e \<Rightarrow> [export_entry tc table doc e] | _ \<Rightarrow> []) vs)
      | _ \<Rightarrow> [])"

definition buildStartupSessionsToml :: "text_codec \<Rightarrow> Glyph list \<Rightarrow> jmembers \<Rightarrow> bstring" where
  "buildStartupSessionsToml tc table doc =
     (let entries = export_entries tc table doc
      in out_lines [blit ''# axan startup sessions '' @ [0xE2, 0x80, 0x94] @ blit '' the global launch-entry tree.'',
           blit ''# Canonical config is settings.json ('' @ 0x22 # blit ''startupSessions'' @ 0x22 # blit ''); this file is the'',
           blit ''# portable mirror. Import it from the Settings > Startup sessions page on'',
           blit ''# another machine to carry the tree across.'', []] @
         meta_text (TomlVersionFor entries) @ concat (map ToTomlBlock entries))"

subsection \<open>The folder\<close>

type_synonym folder = "(wstring \<times> bstring option) list"

datatype export_error = CannotOpenSettings | ParseFailed string | NoProfiles | NoFolder | NotWritten wstring | NotPruned wstring

record export_world =
  xw_settings :: "bstring option"
  xw_parse :: "bstring \<Rightarrow> string + jmembers"
  xw_mkdir :: bool
  xw_write :: "wstring \<Rightarrow> write_result"
  xw_listable :: bool
  xw_remove :: "wstring \<Rightarrow> bool"
  xw_same :: "wstring \<Rightarrow> wstring \<Rightarrow> bool"
  xw_towlower :: "wchar \<Rightarrow> wchar"
  xw_iswxdigit :: "wchar \<Rightarrow> bool"
  xw_print :: "height \<Rightarrow> bstring"
  xw_codec :: text_codec
  xw_glyphs :: "Glyph list"

definition put_file :: "export_world \<Rightarrow> wstring \<Rightarrow> bstring \<Rightarrow> folder \<Rightarrow> folder" where
  "put_file w name text dir =
     (if list_ex (\<lambda>e. xw_same w (fst e) name) dir
      then map (\<lambda>e. if xw_same w (fst e) name then (fst e, Some text) else e) dir
      else dir @ [(name, Some text)])"

definition writeTextFile :: "export_world \<Rightarrow> wstring \<Rightarrow> bstring \<Rightarrow> folder \<Rightarrow> bool \<times> folder" where
  "writeTextFile w name text dir =
     (if list_ex (\<lambda>e. xw_same w (fst e) name \<and> snd e = None) dir then (False, dir)
      else case xw_write w name of
             OpenFailed \<Rightarrow> (False, dir)
           | WriteFailed partial \<Rightarrow> (False, put_file w name partial dir)
           | Written \<Rightarrow> (True, put_file w name text dir))"

definition isUuidTomlFilename :: "export_world \<Rightarrow> wstring \<Rightarrow> bool" where
  "isUuidTomlFilename w name \<longleftrightarrow> length name = 36 + length (wlit ''.toml'') \<and> drop 36 name = wlit ''.toml'' \<and>
     list_all (\<lambda>i. if i \<in> {8, 13, 18, 23} then name ! i = 0x2D else xw_iswxdigit w (name ! i)) [0 ..< 36]"

definition toLower :: "export_world \<Rightarrow> wstring \<Rightarrow> wstring" where
  "toLower w s = map (xw_towlower w) s"

record export_state =
  es_written :: int
  es_live :: "wstring list"
  es_error :: "export_error option"
  es_folder :: folder

definition first_error :: "export_error \<Rightarrow> export_state \<Rightarrow> export_state" where
  "first_error err st = (if es_error st = None then st\<lparr>es_error := Some err\<rparr> else st)"

text \<open>The GUID of a profile that has one, and the name of its mirror.\<close>

definition profile_guid :: "jvalue \<Rightarrow> (jmembers \<times> bstring) option" where
  "profile_guid p =
     (case p of JObj ms \<Rightarrow> (case map_of ms ''guid'' of Some (JStr g) \<Rightarrow> Some (ms, stripBraces g) | _ \<Rightarrow> None) | _ \<Rightarrow> None)"

definition mirror_name :: "export_world \<Rightarrow> bstring \<Rightarrow> wstring" where
  "mirror_name w bare = tc_u8u16 (xw_codec w) bare @ wlit ''.toml''"

definition profile_step :: "export_world \<Rightarrow> jvalue \<Rightarrow> export_state \<Rightarrow> export_state" where
  "profile_step w p st =
     (case profile_guid p of
        None \<Rightarrow> st
      | Some (ms, bare) \<Rightarrow>
          (let filename = mirror_name w bare;
               (ok, dir) = writeTextFile w filename (buildProfileToml (xw_print w) ms bare) (es_folder st);
               st1 = st\<lparr>es_live := toLower w filename # es_live st, es_folder := dir\<rparr>
           in if ok then st1\<lparr>es_written := es_written st1 + 1\<rparr> else first_error (NotWritten filename) st1))"

definition treeFile :: wstring where "treeFile = wlit ''startup-sessions.toml''"

definition tree_step :: "export_world \<Rightarrow> jmembers \<Rightarrow> export_state \<Rightarrow> export_state" where
  "tree_step w doc st =
     (let (ok, dir) = writeTextFile w treeFile (buildStartupSessionsToml (xw_codec w) (xw_glyphs w) doc) (es_folder st);
          st1 = st\<lparr>es_folder := dir\<rparr>
      in if ok then st1 else first_error (NotWritten treeFile) st1)"

definition prune_step :: "export_world \<Rightarrow> wstring \<times> bstring option \<Rightarrow> export_state \<Rightarrow> export_state" where
  "prune_step w e st =
     (if snd e = None then st
      else if isUuidTomlFilename w (fst e) \<and> toLower w (fst e) \<notin> set (es_live st) then
        (if xw_remove w (fst e) then st\<lparr>es_folder := filter (\<lambda>f. f \<noteq> e) (es_folder st)\<rparr>
         else first_error (NotPruned (fst e)) st)
      else st)"

definition ExportAllProfiles :: "export_world \<Rightarrow> folder \<Rightarrow> int \<times> export_error option \<times> folder" where
  "ExportAllProfiles w dir =
     (case xw_settings w of
        None \<Rightarrow> (- 1, Some CannotOpenSettings, dir)
      | Some content \<Rightarrow>
          (case xw_parse w content of
             Inl err \<Rightarrow> (- 1, Some (ParseFailed err), dir)
           | Inr doc \<Rightarrow>
               (case profiles_list doc of
                  None \<Rightarrow> (- 1, Some NoProfiles, dir)
                | Some ps \<Rightarrow>
                    if \<not> xw_mkdir w then (- 1, Some NoFolder, dir)
                    else
                      (let st = fold (profile_step w) ps \<lparr>es_written = 0, es_live = [], es_error = None, es_folder = dir\<rparr>;
                           st = tree_step w doc st;
                           st = fold (prune_step w) (if xw_listable w then es_folder st else []) st
                       in (es_written st, es_error st, es_folder st)))))"

subsection \<open>What a run changes\<close>

text \<open>What is assumed of the file system: a name is its own file, and names of one file differ at most in case.\<close>

definition names_ok :: "export_world \<Rightarrow> bool" where
  "names_ok w \<longleftrightarrow> (\<forall>a. xw_same w a a) \<and> (\<forall>a b. xw_same w a b \<longrightarrow> toLower w a = toLower w b)"

text \<open>Only files whose names, in lower case, are in \<open>T\<close> change, and none disappears.\<close>

definition touches :: "export_world \<Rightarrow> wstring set \<Rightarrow> folder \<Rightarrow> folder \<Rightarrow> bool" where
  "touches w T dir dir2 \<longleftrightarrow> (\<forall>e \<in> set dir. fst e \<in> fst ` set dir2 \<and> (toLower w (fst e) \<in> T \<or> e \<in> set dir2))"

lemma touches_refl: "touches w T dir dir"
  by (simp add: touches_def)

lemma touches_trans:
  assumes "touches w T a b" "touches w U b c"
  shows "touches w (T \<union> U) a c"
  unfolding touches_def
proof
  fix e assume "e \<in> set a"
  then have 1: "fst e \<in> fst ` set b" "toLower w (fst e) \<in> T \<or> e \<in> set b" using assms(1) by (auto simp: touches_def)
  have 2: "fst f \<in> fst ` set c" "toLower w (fst f) \<in> U \<or> f \<in> set c" if "f \<in> set b" for f
    using assms(2) that by (auto simp: touches_def)
  show "fst e \<in> fst ` set c \<and> (toLower w (fst e) \<in> T \<union> U \<or> e \<in> set c)"
  proof
    obtain f where f: "f \<in> set b" "fst e = fst f" using 1(1) by blast
    show "fst e \<in> fst ` set c" using 2(1) [OF f(1)] f(2) by simp
    show "toLower w (fst e) \<in> T \<union> U \<or> e \<in> set c" using 1(2) 2(2) [of e] by blast
  qed
qed

lemma touches_mono: "touches w T a b \<Longrightarrow> T \<subseteq> U \<Longrightarrow> touches w U a b"
  by (auto simp: touches_def)

lemma put_file_touches:
  assumes "names_ok w"
  shows "touches w {toLower w name} dir (put_file w name t dir)"
proof -
  let ?f = "\<lambda>e. if xw_same w (fst e) name then (fst e, Some t) else e"
  have f: "fst (?f e) = fst e" "toLower w (fst e) = toLower w name \<or> ?f e = e" for e
    using assms by (auto simp: names_ok_def)
  have "touches w {toLower w name} dir (map ?f dir)"
    unfolding touches_def set_map
  proof
    fix e assume "e \<in> set dir"
    then have "?f e \<in> ?f ` set dir" by (rule imageI)
    moreover have "fst e \<in> fst ` ?f ` set dir" using imageI [OF calculation, of fst] f(1) [of e] by (simp only:)
    ultimately show "fst e \<in> fst ` ?f ` set dir \<and> (toLower w (fst e) \<in> {toLower w name} \<or> e \<in> ?f ` set dir)"
      using f(2) [of e] by (cases "toLower w (fst e) = toLower w name") simp_all
  qed
  then show ?thesis by (simp add: put_file_def touches_def)
qed

lemma put_file_holds: "names_ok w \<Longrightarrow> \<exists>m. toLower w m = toLower w name \<and> (m, Some t) \<in> set (put_file w name t dir)"
  by (auto simp: put_file_def names_ok_def list_ex_iff)

lemma writeTextFile_touches: "names_ok w \<Longrightarrow> touches w {toLower w name} dir (snd (writeTextFile w name t dir))"
  by (simp add: writeTextFile_def put_file_touches touches_refl split: write_result.split)

lemma writeTextFile_holds:
  "names_ok w \<Longrightarrow> fst (writeTextFile w name t dir) \<Longrightarrow>
   \<exists>m. toLower w m = toLower w name \<and> (m, Some t) \<in> set (snd (writeTextFile w name t dir))"
  by (simp add: writeTextFile_def put_file_holds split: write_result.splits if_splits)

lemma first_error_simps [simp]:
  "es_folder (first_error err st) = es_folder st" "es_live (first_error err st) = es_live st" "es_written (first_error err st) = es_written st"
  "es_error (first_error err st) \<noteq> None"
  by (simp_all add: first_error_def)

definition mirrors :: "export_world \<Rightarrow> jvalue list \<Rightarrow> wstring list" where
  "mirrors w ps = concat (map (\<lambda>p. case profile_guid p of None \<Rightarrow> [] | Some (ms, bare) \<Rightarrow> [mirror_name w bare]) ps)"

lemma profile_step_simps:
  "profile_guid p = None \<Longrightarrow> profile_step w p st = st"
  "profile_guid p = Some (ms, bare) \<Longrightarrow> es_live (profile_step w p st) = toLower w (mirror_name w bare) # es_live st"
  "profile_guid p = Some (ms, bare) \<Longrightarrow> es_folder (profile_step w p st) =
     snd (writeTextFile w (mirror_name w bare) (buildProfileToml (xw_print w) ms bare) (es_folder st))"
  "profile_guid p = Some (ms, bare) \<Longrightarrow> es_error (profile_step w p st) = None \<Longrightarrow>
     es_error st = None \<and> fst (writeTextFile w (mirror_name w bare) (buildProfileToml (xw_print w) ms bare) (es_folder st))"
  "es_written st \<le> es_written (profile_step w p st)"
  by (auto simp: profile_step_def Let_def split: option.splits prod.splits if_splits)

lemma profile_fold:
  assumes "names_ok w"
  shows "touches w (toLower w ` set (mirrors w ps)) (es_folder st) (es_folder (fold (profile_step w) ps st))
    \<and> set (es_live (fold (profile_step w) ps st)) = set (es_live st) \<union> toLower w ` set (mirrors w ps)
    \<and> es_written st \<le> es_written (fold (profile_step w) ps st)
    \<and> (es_error (fold (profile_step w) ps st) = None \<longrightarrow> es_error st = None)"
proof (induction ps arbitrary: st)
  case (Cons p ps)
  show ?case
  proof (cases "profile_guid p")
    case None
    then show ?thesis using Cons.IH [of st] by (simp add: profile_step_simps mirrors_def)
  next
    case (Some q)
    then obtain ms bare where q: "profile_guid p = Some (ms, bare)" by (cases q) simp
    note H = Cons.IH [of "profile_step w p st"] profile_step_simps(2,4) [OF q, of w st] profile_step_simps(5) [of st w p]
    have "touches w {toLower w (mirror_name w bare)} (es_folder st) (es_folder (profile_step w p st))"
      by (simp add: profile_step_simps(3) [OF q] writeTextFile_touches [OF assms])
    with H(1) have "touches w ({toLower w (mirror_name w bare)} \<union> toLower w ` set (mirrors w ps)) (es_folder st) (es_folder (fold (profile_step w) (p # ps) st))"
      using touches_trans by fastforce
    then show ?thesis using H q by (auto simp: mirrors_def)
  qed
qed (simp add: touches_refl mirrors_def)

lemma profile_current:
  assumes "names_ok w" "profile_guid p = Some (ms, bare)" "toLower w (mirror_name w bare) \<notin> toLower w ` set (mirrors w later)"
    "es_error (fold (profile_step w) (earlier @ p # later) st) = None"
  shows "\<exists>m. toLower w m = toLower w (mirror_name w bare) \<and>
    (m, Some (buildProfileToml (xw_print w) ms bare)) \<in> set (es_folder (fold (profile_step w) (earlier @ p # later) st))"
proof -
  define a b where "a = fold (profile_step w) earlier st" and "b = profile_step w p a"
  have r: "fold (profile_step w) (earlier @ p # later) st = fold (profile_step w) later b" by (simp add: a_def b_def)
  note F = profile_fold [OF assms(1), of later b]
  have "es_error b = None" using F assms(4) r by simp
  then have "fst (writeTextFile w (mirror_name w bare) (buildProfileToml (xw_print w) ms bare) (es_folder a))"
    using profile_step_simps(4) [OF assms(2), of w a] by (simp add: b_def)
  then obtain m where m: "toLower w m = toLower w (mirror_name w bare)" "(m, Some (buildProfileToml (xw_print w) ms bare)) \<in> set (es_folder b)"
    using writeTextFile_holds [OF assms(1)] profile_step_simps(3) [OF assms(2), of w a] by (fastforce simp: b_def)
  then have "(m, Some (buildProfileToml (xw_print w) ms bare)) \<in> set (es_folder (fold (profile_step w) later b))"
    using F assms(3) unfolding touches_def by (metis fst_conv)
  then show ?thesis using m(1) r by auto
qed

lemma tree_step_simps:
  "es_live (tree_step w doc st) = es_live st" "es_written (tree_step w doc st) = es_written st"
  "es_folder (tree_step w doc st) = snd (writeTextFile w treeFile (buildStartupSessionsToml (xw_codec w) (xw_glyphs w) doc) (es_folder st))"
  "es_error (tree_step w doc st) = None \<Longrightarrow>
     es_error st = None \<and> fst (writeTextFile w treeFile (buildStartupSessionsToml (xw_codec w) (xw_glyphs w) doc) (es_folder st))"
  by (auto simp: tree_step_def Let_def split: prod.splits if_splits)

definition stale :: "export_world \<Rightarrow> wstring list \<Rightarrow> wstring \<times> bstring option \<Rightarrow> bool" where
  "stale w live e \<longleftrightarrow> snd e \<noteq> None \<and> isUuidTomlFilename w (fst e) \<and> toLower w (fst e) \<notin> set live"

lemma prune_step_simps:
  "es_live (prune_step w e st) = es_live st" "es_written (prune_step w e st) = es_written st"
  "es_folder (prune_step w e st) = filter (\<lambda>f. \<not> (f = e \<and> stale w (es_live st) e \<and> xw_remove w (fst e))) (es_folder st)"
  "es_error (prune_step w e st) = None \<longleftrightarrow> es_error st = None \<and> (stale w (es_live st) e \<longrightarrow> xw_remove w (fst e))"
  by (auto simp: prune_step_def stale_def intro!: filter_cong)

lemma prune_fold:
  "es_live (fold (prune_step w) es st) = es_live st \<and> es_written (fold (prune_step w) es st) = es_written st \<and>
   es_folder (fold (prune_step w) es st) = filter (\<lambda>f. \<not> (f \<in> set es \<and> stale w (es_live st) f \<and> xw_remove w (fst f))) (es_folder st) \<and>
   (es_error (fold (prune_step w) es st) = None \<longleftrightarrow> es_error st = None \<and> (\<forall>e \<in> set es. stale w (es_live st) e \<longrightarrow> xw_remove w (fst e)))"
proof (induction es arbitrary: st)
  case (Cons e es)
  show ?case using Cons.IH [of "prune_step w e st"] by (auto simp: prune_step_simps intro!: filter_cong)
qed simp

lemma tree_not_mirror: "toLower w m = toLower w treeFile \<Longrightarrow> \<not> isUuidTomlFilename w m"
  by (auto simp: isUuidTomlFilename_def toLower_def treeFile_def dest!: arg_cong [of _ _ length])

text \<open>The files of the folder when the mirror is complete.\<close>

definition mirrored :: "export_world \<Rightarrow> jmembers \<Rightarrow> jvalue list \<Rightarrow> folder \<Rightarrow> bool" where
  "mirrored w doc ps dir \<longleftrightarrow>
     (\<exists>m. toLower w m = toLower w treeFile \<and> (m, Some (buildStartupSessionsToml (xw_codec w) (xw_glyphs w) doc)) \<in> set dir) \<and>
     (\<forall>earlier p later ms bare. ps = earlier @ p # later \<and> profile_guid p = Some (ms, bare) \<and>
        toLower w (mirror_name w bare) \<notin> toLower w ` set (treeFile # mirrors w later) \<longrightarrow>
        (\<exists>m. toLower w m = toLower w (mirror_name w bare) \<and> (m, Some (buildProfileToml (xw_print w) ms bare)) \<in> set dir)) \<and>
     (xw_listable w \<longrightarrow> (\<forall>e \<in> set dir. snd e \<noteq> None \<and> isUuidTomlFilename w (fst e) \<longrightarrow> toLower w (fst e) \<in> toLower w ` set (mirrors w ps)))"

definition spared :: "export_world \<Rightarrow> jvalue list \<Rightarrow> folder \<Rightarrow> folder \<Rightarrow> bool" where
  "spared w ps dir dir2 \<longleftrightarrow>
     (\<forall>e \<in> set dir. if toLower w (fst e) \<in> toLower w ` set (treeFile # mirrors w ps) then fst e \<in> fst ` set dir2
        else e \<in> set dir2 \<or> (snd e \<noteq> None \<and> isUuidTomlFilename w (fst e)))"

text \<open>
  The three phases of a run: after the profiles (\<open>a\<close>), after the tree (\<open>b\<close>), after pruning (\<open>c\<close>). A target of
  the export is never stale, and what is not stale is kept.
\<close>

lemma export_phases:
  fixes w :: export_world and dir :: folder and ps :: "jvalue list" and doc :: jmembers
  assumes "names_ok w"
  defines "a \<equiv> fold (profile_step w) ps \<lparr>es_written = 0, es_live = [], es_error = None, es_folder = dir\<rparr>"
  defines "b \<equiv> tree_step w doc a"
  defines "c \<equiv> fold (prune_step w) (if xw_listable w then es_folder b else []) b"
  shows "set (es_live b) = toLower w ` set (mirrors w ps)" "0 \<le> es_written c" "touches w {toLower w treeFile} (es_folder a) (es_folder b)"
    "touches w (toLower w ` set (treeFile # mirrors w ps)) dir (es_folder b)"
    "e \<in> set (es_folder b) \<Longrightarrow> stale w (es_live b) e \<or> e \<in> set (es_folder c)"
    "toLower w (fst e) \<in> toLower w ` set (treeFile # mirrors w ps) \<Longrightarrow> \<not> stale w (es_live b) e"
proof -
  note A = profile_fold [OF assms(1), of ps "\<lparr>es_written = 0, es_live = [], es_error = None, es_folder = dir\<rparr>", folded a_def]
  note P = prune_fold [of w "if xw_listable w then es_folder b else []" b, folded c_def]
  show live: "set (es_live b) = toLower w ` set (mirrors w ps)" using A by (simp add: b_def tree_step_simps)
  show "0 \<le> es_written c" using A P by (simp add: b_def tree_step_simps)
  show tb: "touches w {toLower w treeFile} (es_folder a) (es_folder b)"
    by (simp add: b_def tree_step_simps writeTextFile_touches [OF assms(1)])
  have "touches w (toLower w ` set (mirrors w ps) \<union> {toLower w treeFile}) dir (es_folder b)"
    using touches_trans A tb by fastforce
  then show "touches w (toLower w ` set (treeFile # mirrors w ps)) dir (es_folder b)" by simp
  show "e \<in> set (es_folder b) \<Longrightarrow> stale w (es_live b) e \<or> e \<in> set (es_folder c)" using P by auto
  show "toLower w (fst e) \<in> toLower w ` set (treeFile # mirrors w ps) \<Longrightarrow> \<not> stale w (es_live b) e"
    using tree_not_mirror [of w "fst e"] by (auto simp: stale_def live)
qed

lemma export_spares:
  fixes w :: export_world and dir :: folder and ps :: "jvalue list" and doc :: jmembers
  assumes "names_ok w"
  defines "a \<equiv> fold (profile_step w) ps \<lparr>es_written = 0, es_live = [], es_error = None, es_folder = dir\<rparr>"
  defines "b \<equiv> tree_step w doc a"
  defines "c \<equiv> fold (prune_step w) (if xw_listable w then es_folder b else []) b"
  shows "spared w ps dir (es_folder c)"
  unfolding spared_def
proof
  note F = export_phases [OF assms(1), where ps = ps and dir = dir and doc = doc, folded a_def, folded b_def, folded c_def]
  fix e assume e: "e \<in> set dir"
  show "if toLower w (fst e) \<in> toLower w ` set (treeFile # mirrors w ps) then fst e \<in> fst ` set (es_folder c)
      else e \<in> set (es_folder c) \<or> (snd e \<noteq> None \<and> isUuidTomlFilename w (fst e))"
  proof (cases "toLower w (fst e) \<in> toLower w ` set (treeFile # mirrors w ps)")
    case True
    obtain f where f: "f \<in> set (es_folder b)" "fst f = fst e" using F(4) e by (force simp: touches_def)
    then have "f \<in> set (es_folder c)" using True F(5,6) [of f] by simp
    then show ?thesis using True f(2) by (metis imageI)
  next
    case False
    then have "e \<in> set (es_folder b)" using F(4) e by (auto simp: touches_def)
    then show ?thesis using False F(5) [of e] by (auto simp: stale_def)
  qed
qed

lemma export_mirrors:
  fixes w :: export_world and dir :: folder and ps :: "jvalue list" and doc :: jmembers
  assumes "names_ok w"
  defines "a \<equiv> fold (profile_step w) ps \<lparr>es_written = 0, es_live = [], es_error = None, es_folder = dir\<rparr>"
  defines "b \<equiv> tree_step w doc a"
  defines "c \<equiv> fold (prune_step w) (if xw_listable w then es_folder b else []) b"
  assumes ok: "es_error c = None"
  shows "mirrored w doc ps (es_folder c)"
proof -
  note F = export_phases [OF assms(1), where ps = ps and dir = dir and doc = doc, folded a_def, folded b_def, folded c_def]
  note P = prune_fold [of w "if xw_listable w then es_folder b else []" b, folded c_def]
  have kept: "e \<in> set (es_folder c)" if "e \<in> set (es_folder b)" "toLower w (fst e) \<in> toLower w ` set (treeFile # mirrors w ps)" for e
    using F(5,6) [of e] that by blast
  have "es_error b = None" using P ok by simp
  then have ea: "es_error a = None" "fst (writeTextFile w treeFile (buildStartupSessionsToml (xw_codec w) (xw_glyphs w) doc) (es_folder a))"
    using tree_step_simps(4) [of w doc a] by (simp_all add: b_def)
  have "\<exists>m. toLower w m = toLower w treeFile \<and> (m, Some (buildStartupSessionsToml (xw_codec w) (xw_glyphs w) doc)) \<in> set (es_folder b)"
    using writeTextFile_holds [OF assms(1) ea(2)] by (simp add: b_def tree_step_simps)
  then have "\<exists>m. toLower w m = toLower w treeFile \<and> (m, Some (buildStartupSessionsToml (xw_codec w) (xw_glyphs w) doc)) \<in> set (es_folder c)"
    using kept by fastforce
  moreover have "\<exists>m. toLower w m = toLower w (mirror_name w bare) \<and> (m, Some (buildProfileToml (xw_print w) ms bare)) \<in> set (es_folder c)"
    if p: "ps = earlier @ p # later" "profile_guid p = Some (ms, bare)" "toLower w (mirror_name w bare) \<notin> toLower w ` set (treeFile # mirrors w later)"
    for earlier p later ms bare
  proof -
    have "\<exists>m. toLower w m = toLower w (mirror_name w bare) \<and> (m, Some (buildProfileToml (xw_print w) ms bare)) \<in> set (es_folder a)"
      unfolding a_def p(1) by (rule profile_current [OF assms(1) p(2)]) (use p ea(1) in \<open>auto simp: a_def\<close>)
    then obtain m where m: "toLower w m = toLower w (mirror_name w bare)" "(m, Some (buildProfileToml (xw_print w) ms bare)) \<in> set (es_folder a)" by blast
    then have "(m, Some (buildProfileToml (xw_print w) ms bare)) \<in> set (es_folder b)" using F(3) p(3) by (fastforce simp: touches_def)
    moreover have "mirror_name w bare \<in> set (mirrors w ps)" by (simp add: p(1,2) mirrors_def)
    then have "toLower w m \<in> toLower w ` set (treeFile # mirrors w ps)" by (simp add: m(1))
    ultimately show ?thesis using kept m(1) by (metis fst_conv)
  qed
  moreover have "toLower w (fst e) \<in> toLower w ` set (mirrors w ps)"
    if "xw_listable w" "e \<in> set (es_folder c)" "snd e \<noteq> None" "isUuidTomlFilename w (fst e)" for e
    using that P ok F(1) by (auto simp: stale_def)
  ultimately show ?thesis unfolding mirrored_def by blast
qed

text \<open>
  C12. Refreshing the portable mirror. A run that returns \<^verbatim>\<open>-1\<close> reports why and changes nothing. Any other
  run, whatever fails on the way, keeps every file that is not a target of the export unless the file
  is named like a mirror, and keeps the targets; and when it reports no failure, the folder holds the
  current startup tree, the current mirror of every profile, and no mirror of any other profile. Two
  names of one file are assumed to differ at most in case.
\<close>

theorem export_mirror:
  assumes "names_ok w" and "ExportAllProfiles w dir = (n, err, dir2)"
  shows "n = - 1 \<and> err \<noteq> None \<and> dir2 = dir \<or>
    (\<exists>content doc ps. xw_settings w = Some content \<and> xw_parse w content = Inr doc \<and> profiles_list doc = Some ps \<and> xw_mkdir w \<and>
       0 \<le> n \<and> spared w ps dir dir2 \<and> (err = None \<longrightarrow> mirrored w doc ps dir2))"
  using assms(2) export_phases(2) [OF assms(1)] export_spares [OF assms(1)] export_mirrors [OF assms(1)]
  by (auto simp: ExportAllProfiles_def Let_def split: option.splits sum.splits if_splits)

definition sample_mirror_world :: export_world where
  "sample_mirror_world = \<lparr>xw_settings = Some [],
     xw_parse = (\<lambda>_. Inr [(''profiles'', JObj [(''list'', JArr [JObj [(''guid'', JStr (blit ''{ab}'')), (''name'', JStr (blit ''x''))]])])]),
     xw_mkdir = True, xw_write = (\<lambda>_. Written), xw_listable = True, xw_remove = (\<lambda>_. True), xw_same = (=), xw_towlower = id,
     xw_iswxdigit = (\<lambda>c. 0x30 \<le> c \<and> c \<le> 0x39), xw_print = (\<lambda>_. []), xw_codec = ascii_codec, xw_glyphs = sample_table\<rparr>"

definition sample_stale :: wstring where
  "sample_stale = wlit ''00000000-0000-0000-0000-000000000000.toml''"

theorem export_mirror_witness:
  "\<exists>n dir2 doc ps. ExportAllProfiles sample_mirror_world [(wlit ''notes.txt'', Some []), (sample_stale, Some [])] = (n, None, dir2) \<and>
     isUuidTomlFilename sample_mirror_world sample_stale \<and> n = 1 \<and> spared sample_mirror_world ps [(wlit ''notes.txt'', Some []), (sample_stale, Some [])] dir2 \<and>
     mirrored sample_mirror_world doc ps dir2"
proof -
  let ?dir = "[(wlit ''notes.txt'', Some []), (sample_stale, Some [])]"
  have ok: "names_ok sample_mirror_world" by (simp add: names_ok_def sample_mirror_world_def)
  have "case ExportAllProfiles sample_mirror_world ?dir of (n, err, _) \<Rightarrow> n = 1 \<and> err = None" by code_simp
  then obtain dir2 where r: "ExportAllProfiles sample_mirror_world ?dir = (1, None, dir2)" by (auto split: prod.splits)
  have "isUuidTomlFilename sample_mirror_world sample_stale" by code_simp
  then show ?thesis using export_mirror [OF ok r] r by auto
qed

end
