(* ===== verification/Axan_StartupImport.thy ===== *)
theory Axan_StartupImport
  imports Axan_ProfileToml
begin

text \<open>
  Importing the startup tree on the settings page: \<^verbatim>\<open>ImportFromToml\<close> and \<^verbatim>\<open>_resolveImportedProfile\<close> of
  \<^verbatim>\<open>cascadia/TerminalSettingsEditor/StartupSessionsViewModel.cpp\<close>, with \<^verbatim>\<open>MatchProfileName\<close> of
  \<^verbatim>\<open>inc/AxanLaunchEntryWire.h\<close>.

  \<open>import_world\<close> holds the file system, the TOML parser, the text conversion and the profiles of the
  machine: the GUID text of the profile that a GUID text names (\<open>None\<close> when the text is malformed or
  names none) and the active profiles with their names and GUID texts. A drawn id is \<open>fresh index\<close>.

  Shown: a failed import leaves the page alone; a tree that one machine exports is imported on
  another as the same tree, with icons that draw as before and profiles matched by GUID, then by
  name.
\<close>

subsection \<open>The profile of an entry\<close>

definition MatchProfileName :: "(wchar \<Rightarrow> wchar) \<Rightarrow> wstring \<Rightarrow> wstring list \<Rightarrow> nat option" where
  "MatchProfileName towlower name profileNames =
     (if name = [] then None
      else case index_from 0 (\<lambda>n. n = name) profileNames of
             Some i \<Rightarrow> Some i
           | None \<Rightarrow> index_from 0 (\<lambda>c. length c = length name \<and> map towlower c = map towlower name) profileNames)"

record import_world =
  im_read :: "wstring \<Rightarrow> bstring option"
  im_parse :: "bstring \<Rightarrow> (string \<times> tvalue) list option"
  im_lib :: toml_lib
  im_codec :: text_codec
  im_towlower :: "wchar \<Rightarrow> wchar"
  im_findProfile :: "wstring \<Rightarrow> wstring option"
  im_profiles :: "(wstring \<times> wstring) list option"

definition braced_guid :: "bstring \<Rightarrow> bstring" where
  "braced_guid bareGuid =
     (if bareGuid = [] then [] else if hd bareGuid = 0x7B then bareGuid else 0x7B # bareGuid @ [0x7D])"

definition profile_by_name :: "import_world \<Rightarrow> bstring \<Rightarrow> wstring option" where
  "profile_by_name w name =
     (if name = [] then None
      else case im_profiles w of
             None \<Rightarrow> None
           | Some ps \<Rightarrow>
               map_option (\<lambda>i. snd (ps ! i)) (MatchProfileName (im_towlower w) (tc_u8u16 (im_codec w) name) (map fst ps)))"

definition resolveImportedProfile :: "import_world \<Rightarrow> bool \<Rightarrow> bstring \<Rightarrow> bstring \<Rightarrow> wstring" where
  "resolveImportedProfile w has_settings bareGuid name =
     (let braced = braced_guid bareGuid
      in if bareGuid = [] \<and> name = [] then []
         else case (if has_settings \<and> braced \<noteq> [] then im_findProfile w (tc_u8u16 (im_codec w) braced) else None) of
                Some g \<Rightarrow> g
              | None \<Rightarrow>
                  (case (if has_settings then profile_by_name w name else None) of
                     Some g \<Rightarrow> g
                   | None \<Rightarrow> if braced = [] then [] else tc_u8u16 (im_codec w) braced))"

subsection \<open>The rows of a file\<close>

definition KindSession :: bstring where "KindSession = blit ''session''"

definition imported_separator :: "text_codec \<Rightarrow> wstring \<Rightarrow> Entry \<Rightarrow> launch_entry" where
  "imported_separator tc eid e = empty_entry\<lparr>le_Id := eid, le_ParentId := tc_u8u16 tc (en_parentId e), le_Kind := KindSeparatorW,
     le_SeparatorStyle := tc_u8u16 tc (en_style e), le_Height := en_height e, le_Placement := tc_u8u16 tc (en_placement e),
     le_Name := tc_u8u16 tc (en_name e), le_Collapsed := en_collapsed e\<rparr>"

definition imported_hoist :: "wstring \<Rightarrow> wstring \<times> nat" where
  "imported_hoist h = (case Hoist_Parse h of (hoist, unknown) \<Rightarrow> (Hoist_Format hoist, if unknown \<noteq> [] then 1 else 0))"

definition imported_session :: "import_world \<Rightarrow> bool \<Rightarrow> wstring \<Rightarrow> Entry \<Rightarrow> launch_entry \<times> nat" where
  "imported_session w has_settings eid e =
     (let tc = im_codec w;
          (nativeIcon, unknownBuiltin) = ImportIcon (tc_u8u16 tc (en_icon e));
          (hoist, warned) = (if en_hoist e \<noteq> [] then imported_hoist (tc_u8u16 tc (en_hoist e)) else ([], 0))
      in (empty_entry\<lparr>le_Id := eid, le_ParentId := tc_u8u16 tc (en_parentId e),
            le_Profile := resolveImportedProfile w has_settings (en_profile e) (en_profileName e),
            le_Name := tc_u8u16 tc (en_name e), le_Directory := tc_u8u16 tc (en_directory e), le_Command := tc_u8u16 tc (en_command e),
            le_Icon := nativeIcon, le_Color := tc_u8u16 tc (en_color e), le_ColorTarget := tc_u8u16 tc (en_colorTarget e),
            le_Hoist := hoist\<rparr>,
          (if unknownBuiltin then 1 else 0) + warned))"

text \<open>The entry of a row, if any, and the number of warnings.\<close>

definition import_row :: "import_world \<Rightarrow> bool \<Rightarrow> (nat \<Rightarrow> wstring) \<Rightarrow> nat \<times> tvalue \<Rightarrow> launch_entry option \<times> nat" where
  "import_row w has_settings fresh row =
     (case snd row of
        TTable t \<Rightarrow>
          (let e = FromTomlTable (im_lib w) (map_of t);
               issues = length (CheckTomlTable t);
               eid = (if en_id e = [] then fresh (fst row) else tc_u8u16 (im_codec w) (en_id e))
           in if en_kind e \<noteq> [] \<and> en_kind e \<noteq> KindSession \<and> en_kind e \<noteq> KindSeparator then (None, issues + 1)
              else if Entry_IsSeparator e then (Some (imported_separator (im_codec w) eid e), issues)
              else (case imported_session w has_settings eid e of (m, warned) \<Rightarrow> (Some m, issues + warned)))
      | _ \<Rightarrow> (None, 1))"

definition import_rows :: "import_world \<Rightarrow> bool \<Rightarrow> (nat \<Rightarrow> wstring) \<Rightarrow> tvalue list \<Rightarrow> launch_entry list \<times> nat" where
  "import_rows w has_settings fresh els =
     (let rs = map (import_row w has_settings fresh) (enumerate 0 els)
      in (concat (map (\<lambda>r. case fst r of None \<Rightarrow> [] | Some m \<Rightarrow> [m]) rs), sum_list (map snd rs)))"

definition toml_version :: "import_world \<Rightarrow> (string \<times> tvalue) list \<Rightarrow> int option" where
  "toml_version w doc =
     (case map_of doc ''meta'' of
        Some (TTable m) \<Rightarrow> Option.bind (map_of m ''axan-toml-version'') (tl_int64 (im_lib w))
      | _ \<Rightarrow> None)"

definition kTomlVersionMax :: int where "kTomlVersionMax = 2"

definition ImportFromToml :: "import_world \<Rightarrow> wstring \<Rightarrow> (nat \<Rightarrow> wstring) \<Rightarrow> editor \<Rightarrow> bool \<times> editor" where
  "ImportFromToml w path fresh ed =
     (case im_read w path of
        None \<Rightarrow> (False, ed)
      | Some content \<Rightarrow>
          (case im_parse w content of
             None \<Rightarrow> (False, ed)
           | Some doc \<Rightarrow>
               if (case toml_version w doc of None \<Rightarrow> False | Some v \<Rightarrow> v > kTomlVersionMax) then (False, ed)
               else case map_of doc ''startup-sessions'' of
                      Some (TArr els) \<Rightarrow>
                        (let (entries, warnings) = import_rows w (ed_settings ed \<noteq> None) fresh els;
                             (rws, ed1) = append_rows entries [] ed
                         in if rws = [] then (False, ed1)
                            else (True, select (Some (rws ! 0)) (commit (recomputeDepths (ed1\<lparr>ed_Entries := rws\<rparr>)))))
                    | _ \<Rightarrow> (False, ed)))"

subsection \<open>The page after an import\<close>

lemma append_rows_captured:
  assumes "append_rows es [] ed = (rws, ed1)"
  shows "if es = [] then rws = [] \<and> ed1 = ed
    else rws \<noteq> [] \<and> CaptureLiveStartup (Some es) ed = (length rws, select (Some (rws ! 0)) (commit (recomputeDepths (ed1\<lparr>ed_Entries := rws\<rparr>))))"
proof (cases es)
  case Nil
  then show ?thesis using assms by simp
next
  case (Cons e fs)
  then show ?thesis using assms append_rows_nodes(4) [OF assms] by (simp add: CaptureLiveStartup_def del: append_rows.simps) auto
qed

lemma import_spec:
  "ImportFromToml w path fresh ed = (False, ed) \<or>
   (\<exists>content doc els. im_read w path = Some content \<and> im_parse w content = Some doc \<and> map_of doc ''startup-sessions'' = Some (TArr els) \<and>
      fst (import_rows w (ed_settings ed \<noteq> None) fresh els) \<noteq> [] \<and>
      ImportFromToml w path fresh ed = (True, snd (CaptureLiveStartup (Some (fst (import_rows w (ed_settings ed \<noteq> None) fresh els))) ed)))"
proof -
  have R: "(let (entries, warnings) = import_rows w h fresh els; (rws, ed1) = append_rows entries [] ed
            in if rws = [] then (False, ed1) else (True, select (Some (rws ! 0)) (commit (recomputeDepths (ed1\<lparr>ed_Entries := rws\<rparr>))))) =
       (if fst (import_rows w h fresh els) = [] then (False, ed) else (True, snd (CaptureLiveStartup (Some (fst (import_rows w h fresh els))) ed)))"
    for h els
  proof -
    obtain rws ed1 where a: "append_rows (fst (import_rows w h fresh els)) [] ed = (rws, ed1)" by fastforce
    then show ?thesis using append_rows_captured [OF a] by (auto simp: split_beta split: if_splits)
  qed
  show ?thesis unfolding ImportFromToml_def R by (auto split: option.splits tvalue.splits)
qed

text \<open>A failed import leaves the page as it was; a good one keeps the invariant of the page when the rows form a tree.\<close>

lemma import_keeps_page:
  assumes "idle_ok ed" "ImportFromToml w path fresh ed = (ok, ed2)"
    and "\<And>content doc els. im_read w path = Some content \<Longrightarrow> im_parse w content = Some doc \<Longrightarrow> map_of doc ''startup-sessions'' = Some (TArr els) \<Longrightarrow>
      tree_ok (map entry_node (fst (import_rows w (ed_settings ed \<noteq> None) fresh els)))"
  shows "idle_ok ed2" "\<not> ok \<longrightarrow> ed2 = ed"
proof -
  have C: "idle_ok (snd (CaptureLiveStartup (Some es) ed))" if "tree_ok (map entry_node es)" for es
    by (rule CaptureLiveStartup_ok [OF assms(1)]) (use that in simp)
  show "idle_ok ed2" "\<not> ok \<longrightarrow> ed2 = ed"
    using import_spec [of w path fresh ed] assms C by (auto simp del: not_None_eq)
qed

subsection \<open>Texts on the way\<close>

text \<open>What is assumed of the conversion between UTF-8 and UTF-16: ASCII is kept, and the given texts survive.\<close>

definition utf8_codec :: "text_codec \<Rightarrow> wstring set \<Rightarrow> bool" where
  "utf8_codec tc texts \<longleftrightarrow>
     (\<forall>s. list_all (\<lambda>b. b < 0x80) s \<longrightarrow> tc_u8u16 tc s = map ucast s \<and> tc_u16u8 tc (map ucast s) = s) \<and>
     (\<forall>s \<in> texts. tc_u8u16 tc (tc_u16u8 tc s) = s)"

lemma codec_ascii:
  assumes "utf8_codec tc texts" "list_all (\<lambda>b. b < 0x80) s"
  shows "tc_u8u16 tc s = map ucast s" "tc_u16u8 tc (map ucast s) = s"
  using assms by (simp_all add: utf8_codec_def)

lemma codec_empty: "utf8_codec tc texts \<Longrightarrow> tc_u8u16 tc [] = [] \<and> tc_u16u8 tc [] = []"
  using codec_ascii [of tc texts "[]"] by simp

lemma codec_text: "utf8_codec tc texts \<Longrightarrow> s \<in> texts \<Longrightarrow> tc_u8u16 tc (tc_u16u8 tc s) = s"
  by (simp add: utf8_codec_def)

lemma codec_literals:
  assumes "utf8_codec tc texts"
  shows "tc_u16u8 tc KindSeparatorW = KindSeparator" "tc_u16u8 tc StyleLineW = StyleLine"
    "tc_u16u8 tc PlacementInlineW = PlacementInline" "tc_u16u8 tc (wlit ''both'') = blit ''both''"
    "tc_u8u16 tc (blit ''never'') = kNever" "tc_u8u16 tc StyleLine = StyleLineW" "tc_u8u16 tc PlacementInline = PlacementInlineW"
    "tc_u8u16 tc (blit ''both'') = wlit ''both''"
  using codec_ascii [OF assms, of KindSeparator] codec_ascii [OF assms, of StyleLine] codec_ascii [OF assms, of PlacementInline]
    codec_ascii [OF assms, of "blit ''both''"] codec_ascii [OF assms, of "blit ''never''"]
  by (simp_all add: KindSeparatorW_def KindSeparator_def StyleLineW_def StyleLine_def PlacementInlineW_def PlacementInline_def kNever_def)

lemma codec_eq:
  assumes "utf8_codec tc texts" "s \<in> texts" "t \<in> texts"
  shows "tc_u16u8 tc s = tc_u16u8 tc t \<longleftrightarrow> s = t"
  using codec_text [OF assms(1,2)] codec_text [OF assms(1,3)] by metis

lemma codec_nil: "utf8_codec tc texts \<Longrightarrow> s \<in> texts \<Longrightarrow> tc_u16u8 tc s = [] \<longleftrightarrow> s = []"
  using codec_text [of tc texts s] codec_empty [of tc texts] by metis

lemma split_commas_map:
  "list_all (\<lambda>x. f x = 0x2C \<longleftrightarrow> x = 0x2C) s \<Longrightarrow> split_commas (map f s) = map (map f) (split_commas s)"
  by (induction s) (auto split: list.splits)

lemma canonical_hoist:
  "Hoist_Normalize h = [] \<or> (\<exists>ns. ns \<noteq> [] \<and> set ns \<subseteq> insert kNever (set hoistNames) \<and> Hoist_Normalize h = join_commas ns)"
proof (cases "ov_mode (fst (Hoist_Parse h))")
  case Custom
  define m where "m = ov_mask (fst (Hoist_Parse h))"
  have m: "m \<noteq> 0" using Parse_valid [OF Custom] by (simp add: m_def)
  have n: "set (NamesFromMask hoistNames m) \<subseteq> set hoistNames" using hoist.set_NamesFromMask [of _ m] by auto
  then have "list_all plain (NamesFromMask hoistNames m)" using hoistNames_plain by (auto simp: list_all_iff)
  then have "Hoist_Normalize h = join_commas (NamesFromMask hoistNames m)"
    using Custom m by (simp add: Hoist_Normalize_def Hoist_Format_def fold_join flip: m_def)
  then show ?thesis using n by (cases "NamesFromMask hoistNames m = []") auto
qed (auto simp: Hoist_Normalize_def Hoist_Format_def intro: exI [of _ "[kNever]"])

lemma hoist_names_ascii: "n \<in> insert kNever (set hoistNames) \<Longrightarrow> plain n \<and> list_all (\<lambda>c. c < 0x80) n"
proof -
  have "list_all (\<lambda>n. plain n \<and> list_all (\<lambda>c. c < 0x80) n) (kNever # hoistNames)"
    by (simp add: kNever_def hoistNames_def plain_def is_name_space_def)
  then show "n \<in> insert kNever (set hoistNames) \<Longrightarrow> ?thesis" by (auto simp: list_all_iff)
qed

lemma join_ascii: "list_all (list_all (\<lambda>c. c < 0x80)) ns \<Longrightarrow> list_all (\<lambda>c. c < 0x80) (join_commas ns)"
  by (induction ns) auto

lemma ascii_narrow:
  assumes "(c :: wchar) < 0x80"
  shows "ucast (ucast c :: byte) = c" "(ucast c :: byte) < 0x80" "(ucast c :: byte) = 0x2C \<longleftrightarrow> c = 0x2C"
proof -
  have "unat c < 128" using assms by (simp add: word_less_nat_alt)
  then have u: "unat (ucast c :: byte) = unat c" by (simp add: unsigned_ucast_eq take_bit_nat_eq_self)
  then show "(ucast c :: byte) < 0x80" "(ucast c :: byte) = 0x2C \<longleftrightarrow> c = 0x2C"
    using \<open>unat c < 128\<close> by (simp_all add: word_less_nat_alt word_unat_eq_iff)
  show "ucast (ucast c :: byte) = c"
    using u \<open>unat c < 128\<close> by (simp add: word_unat_eq_iff unsigned_ucast_eq unsigned_take_bit_eq take_bit_nat_eq_self)
qed

lemma codec_ascii_wide:
  assumes "utf8_codec tc texts" "list_all (\<lambda>c. c < 0x80) s"
  shows "tc_u16u8 tc s = map ucast s" "tc_u8u16 tc (tc_u16u8 tc s) = s"
proof -
  have n: "map ucast (map ucast s :: bstring) = s" using assms(2) by (induction s) (simp_all add: ascii_narrow)
  have b: "list_all (\<lambda>b. b < 0x80) (map ucast s :: bstring)" using assms(2) by (induction s) (simp_all add: ascii_narrow)
  show u: "tc_u16u8 tc s = map ucast s" using codec_ascii(2) [OF assms(1) b] unfolding n .
  show "tc_u8u16 tc (tc_u16u8 tc s) = s" unfolding u using codec_ascii(1) [OF assms(1) b] unfolding n .
qed

lemma hoist_on_the_way:
  assumes "utf8_codec tc texts"
  shows "tidy_hoist (tc_u16u8 tc (Hoist_Normalize h))" "tc_u8u16 tc (tc_u16u8 tc (Hoist_Normalize h)) = Hoist_Normalize h"
    "tc_u16u8 tc (Hoist_Normalize h) = [] \<longleftrightarrow> Hoist_Normalize h = []"
proof -
  have "tidy_hoist (tc_u16u8 tc (Hoist_Normalize h)) \<and> tc_u8u16 tc (tc_u16u8 tc (Hoist_Normalize h)) = Hoist_Normalize h \<and>
    (tc_u16u8 tc (Hoist_Normalize h) = [] \<longleftrightarrow> Hoist_Normalize h = [])"
  proof (cases "Hoist_Normalize h = []")
    case True
    then show ?thesis using codec_empty [OF assms] by (simp add: tidy_hoist_def)
  next
    case False
    then obtain ns where ns: "ns \<noteq> []" "set ns \<subseteq> insert kNever (set hoistNames)" "Hoist_Normalize h = join_commas ns"
      using canonical_hoist [of h] by blast
    have p: "list_all plain ns" "list_all (list_all (\<lambda>c. c < 0x80)) ns" using ns(2) hoist_names_ascii by (auto simp: list_all_iff)
    note a = join_ascii [OF p(2)] and w = codec_ascii_wide [OF assms join_ascii [OF p(2)]]
    have "split_commas (map ucast (join_commas ns) :: bstring) = map (map ucast) ns"
      using split_join [OF ns(1) p(1)] a by (subst split_commas_map) (simp_all add: list_all_iff ascii_narrow)
    moreover have "[] \<notin> set (map (map ucast) ns :: bstring list)" using p(1) by (auto simp: list_all_iff plain_def)
    ultimately show ?thesis using w ns(3) False by (simp add: tidy_hoist_def)
  qed
  then show "tidy_hoist (tc_u16u8 tc (Hoist_Normalize h))" "tc_u8u16 tc (tc_u16u8 tc (Hoist_Normalize h)) = Hoist_Normalize h"
    "tc_u16u8 tc (Hoist_Normalize h) = [] \<longleftrightarrow> Hoist_Normalize h = []" by blast+
qed

subsection \<open>From one machine to another\<close>

definition export_texts :: "Glyph list \<Rightarrow> launch_entry \<Rightarrow> wstring set" where
  "export_texts table e = insert [] (insert (ExportIcon table (le_Icon e)) (entry_texts e))"

definition wire_separator :: "text_codec \<Rightarrow> launch_entry \<Rightarrow> Entry" where
  "wire_separator tc e = empty_Entry\<lparr>en_id := tc_u16u8 tc (le_Id e), en_parentId := tc_u16u8 tc (le_ParentId e), en_kind := KindSeparator,
     en_style := tc_u16u8 tc (default_text StyleLineW (le_SeparatorStyle e)),
     en_placement := tc_u16u8 tc (default_text PlacementInlineW (le_Placement e)),
     en_height := NormalizeSeparatorHeight (le_Height e), en_name := tc_u16u8 tc (le_Name e), en_collapsed := le_Collapsed e\<rparr>"

definition bare_profile :: "text_codec \<Rightarrow> launch_entry \<Rightarrow> bstring" where
  "bare_profile tc e = stripBraces (tc_u16u8 tc (le_Profile e))"

definition profile_label :: "text_codec \<Rightarrow> jmembers \<Rightarrow> launch_entry \<Rightarrow> bstring" where
  "profile_label tc doc e = (if bare_profile tc e = [] then [] else lookupProfileName doc (bare_profile tc e))"

definition wire_session :: "text_codec \<Rightarrow> Glyph list \<Rightarrow> jmembers \<Rightarrow> launch_entry \<Rightarrow> Entry" where
  "wire_session tc table doc e = empty_Entry\<lparr>en_id := tc_u16u8 tc (le_Id e), en_parentId := tc_u16u8 tc (le_ParentId e),
     en_profile := bare_profile tc e, en_profileName := profile_label tc doc e, en_name := tc_u16u8 tc (le_Name e),
     en_directory := tc_u16u8 tc (le_Directory e), en_command := tc_u16u8 tc (le_Command e),
     en_icon := tc_u16u8 tc (ExportIcon table (le_Icon e)), en_color := tc_u16u8 tc (le_Color e),
     en_colorTarget := tc_u16u8 tc (default_text (wlit ''both'') (le_ColorTarget e)),
     en_hoist := tc_u16u8 tc (Hoist_Normalize (le_Hoist e))\<rparr>"

definition json_text :: "jvalue \<Rightarrow> bstring" where
  "json_text v = (case v of JStr s \<Rightarrow> s | _ \<Rightarrow> [])"

lemma jsonStr_text:
  assumes "utf8_codec tc texts"
  shows "jsonStr ms k = (case map_of ms k of None \<Rightarrow> [] | Some v \<Rightarrow> json_text v)" "json_text (hstring_ToJson tc s) = tc_u16u8 tc s"
  using codec_empty [OF assms] by (simp_all add: jsonStr_def json_text_def hstring_ToJson_def split: option.split)

lemma numeric_height_json: "numeric_height (Some (double_ToJson (NormalizeSeparatorHeight h))) = NormalizeSeparatorHeight h"
  using double_roundtrip [of h] by (simp add: double_FromJson_def numeric_height_def split: jvalue.splits)

lemma codec_carries: "utf8_codec tc (export_texts table e) \<Longrightarrow> carries tc e"
  using codec_literals(5) [of tc "export_texts table e"] by (auto simp: carries_def utf8_codec_def export_texts_def)

lemma export_hoist_text:
  assumes "utf8_codec tc (export_texts table e)"
  shows "export_hoist tc (hoist_value tc e) = tc_u16u8 tc (Hoist_Normalize (le_Hoist e))"
proof -
  define json where "json = (\<lambda>k :: string. hoist_value tc e)"
  have "le_Hoist (hoist_FromJson tc json empty_entry) = Hoist_Normalize (le_Hoist e)"
    using hoist_json [OF codec_carries [OF assms], of json empty_entry] by (simp add: json_def empty_entry_def)
  moreover have "export_hoist tc (hoist_value tc e) = tc_u16u8 tc (le_Hoist (hoist_FromJson tc json empty_entry))"
    using codec_empty [OF assms]
    by (simp add: export_hoist_def hoist_FromJson_def json_def empty_entry_def split: option.split jvalue.split)
  ultimately show ?thesis by simp
qed

lemma export_separator_entry:
  assumes "utf8_codec tc (export_texts table e)" "le_Kind e = KindSeparatorW" "map_of ms = LaunchEntry_ToJson tc e"
  shows "export_entry tc table doc ms = wire_separator tc e"
proof -
  note J = separator_json_at [OF assms(2), of tc, folded assms(3)] and T = jsonStr_text [OF assms(1)]
  have f: "jsonStr ms ''id'' = tc_u16u8 tc (le_Id e)" "jsonStr ms ''parent'' = tc_u16u8 tc (le_ParentId e)"
    "jsonStr ms ''kind'' = KindSeparator"
    "jsonStr ms ''style'' = tc_u16u8 tc (default_text StyleLineW (le_SeparatorStyle e))"
    "jsonStr ms ''placement'' = tc_u16u8 tc (default_text PlacementInlineW (le_Placement e))"
    "jsonStr ms ''name'' = tc_u16u8 tc (le_Name e)"
    using codec_empty [OF assms(1)] codec_literals(1) [OF assms(1)] assms(2)
    by (simp_all add: J T default_text_def)
  have h: "NormalizeSeparatorHeight (numeric_height (map_of ms ''height'')) = NormalizeSeparatorHeight (le_Height e)"
    by (simp add: J numeric_height_json) (simp add: numeric_height_def default_height)
  have c: "(map_of ms ''collapsed'' = Some (JBool True)) = le_Collapsed e" by (simp add: J)
  show ?thesis unfolding export_entry_def f(3) export_separator_def wire_separator_def f h c by simp
qed

lemma export_session_entry:
  assumes "utf8_codec tc (export_texts table e)" "le_Kind e \<noteq> KindSeparatorW" "map_of ms = LaunchEntry_ToJson tc e"
  shows "export_entry tc table doc ms = wire_session tc table doc e"
proof -
  note J = session_json_at [OF assms(2), of tc, folded assms(3)] and T = jsonStr_text [OF assms(1)]
  have f: "jsonStr ms ''id'' = tc_u16u8 tc (le_Id e)" "jsonStr ms ''parent'' = tc_u16u8 tc (le_ParentId e)" "jsonStr ms ''kind'' = []"
    "jsonStr ms ''profile'' = tc_u16u8 tc (le_Profile e)" "jsonStr ms ''name'' = tc_u16u8 tc (le_Name e)"
    "jsonStr ms ''directory'' = tc_u16u8 tc (le_Directory e)" "jsonStr ms ''command'' = tc_u16u8 tc (le_Command e)"
    "jsonStr ms ''icon'' = tc_u16u8 tc (le_Icon e)" "jsonStr ms ''color'' = tc_u16u8 tc (le_Color e)"
    "jsonStr ms ''colorTarget'' = tc_u16u8 tc (default_text (wlit ''both'') (le_ColorTarget e))"
    "map_of ms ''hoist'' = hoist_value tc e"
    using codec_empty [OF assms(1)] by (simp_all add: J T default_text_def del: wlit_simps)
  have i: "tc_u8u16 tc (tc_u16u8 tc (le_Icon e)) = le_Icon e" by (rule codec_text [OF assms(1)]) (simp add: export_texts_def entry_texts_def)
  have "[] \<noteq> KindSeparator" by (simp add: KindSeparator_def)
  then show ?thesis
    unfolding export_entry_def f(3) export_session_def Let_def f i export_hoist_text [OF assms(1)] wire_session_def bare_profile_def profile_label_def
    by (simp add: empty_Entry_def)
qed

lemma default_text_codec:
  assumes "utf8_codec tc texts" "s \<in> texts" "[] \<in> texts" "tc_u8u16 tc d8 = d" "d8 \<noteq> []"
  shows "tc_u16u8 tc (default_text d s) \<noteq> d8" "tc_u8u16 tc (tc_u16u8 tc (default_text d s)) = default_text d s"
proof -
  have "default_text d s \<in> texts" using assms(2,3) by (simp add: default_text_def)
  then show r: "tc_u8u16 tc (tc_u16u8 tc (default_text d s)) = default_text d s" by (rule codec_text [OF assms(1)])
  show "tc_u16u8 tc (default_text d s) \<noteq> d8"
  proof
    assume e: "tc_u16u8 tc (default_text d s) = d8"
    then have "default_text d s = d" using r assms(4) by simp
    then have "default_text d s = []" by (simp add: default_text_def split: if_splits)
    then show False using e codec_empty [OF assms(1)] assms(5) by simp
  qed
qed

lemma texts_in: "{le_Id e, le_ParentId e, le_Profile e, le_Name e, le_Directory e, le_Command e, le_Icon e, le_Color e,
    le_ColorTarget e, le_SeparatorStyle e, le_Placement e, [], ExportIcon table (le_Icon e)} \<subseteq> export_texts table e"
  by (auto simp: export_texts_def entry_texts_def)

lemma exported_separator_id:
  assumes "Entry_IsSeparator en" "en_style en \<noteq> StyleLine" "en_placement en \<noteq> PlacementInline"
    "NormalizeSeparatorHeight (en_height en) = en_height en" "en_profile en = []" "en_profileName en = []" "en_directory en = []"
    "en_command en = []" "en_icon en = []" "en_color en = []" "en_colorTarget en = []" "en_hoist en = []"
  shows "exported en = en"
  using assms by (cases en) (simp add: exported_def empty_Entry_def)

lemma wire_separator_exported:
  assumes "utf8_codec tc (export_texts table e)"
  shows "Entry_IsSeparator (wire_separator tc e)" "exported (wire_separator tc e) = wire_separator tc e"
proof -
  show k: "Entry_IsSeparator (wire_separator tc e)" by (simp add: wire_separator_def Entry_IsSeparator_def)
  have "StyleLine \<noteq> []" "PlacementInline \<noteq> []" by (simp_all add: StyleLine_def PlacementInline_def)
  moreover have "le_SeparatorStyle e \<in> export_texts table e" "le_Placement e \<in> export_texts table e" "[] \<in> export_texts table e"
    using texts_in [of e table] by blast+
  ultimately have "tc_u16u8 tc (default_text StyleLineW (le_SeparatorStyle e)) \<noteq> StyleLine"
    "tc_u16u8 tc (default_text PlacementInlineW (le_Placement e)) \<noteq> PlacementInline"
    using default_text_codec(1) [OF assms _ _ codec_literals(6) [OF assms]] default_text_codec(1) [OF assms _ _ codec_literals(7) [OF assms]]
    by blast+
  then show "exported (wire_separator tc e) = wire_separator tc e"
    by (intro exported_separator_id [OF k]) (simp_all add: wire_separator_def empty_Entry_def)
qed

lemma exported_session_id:
  assumes "\<not> Entry_IsSeparator en" "en_colorTarget en \<noteq> blit ''both''" "en_profile en = [] \<Longrightarrow> en_profileName en = []"
    "en_kind en = []" "en_style en = []" "en_height en = Num 0" "en_placement en = []" "\<not> en_collapsed en"
  shows "exported en = en"
  using assms by (cases en) (simp add: exported_def empty_Entry_def del: blit_simps)

lemma wire_session_exported:
  assumes "utf8_codec tc (export_texts table e)"
  shows "\<not> Entry_IsSeparator (wire_session tc table doc e)" "exported (wire_session tc table doc e) = wire_session tc table doc e"
proof -
  show k: "\<not> Entry_IsSeparator (wire_session tc table doc e)"
    by (simp add: wire_session_def Entry_IsSeparator_def empty_Entry_def KindSeparator_def)
  have "blit ''both'' \<noteq> []" by simp
  moreover have "le_ColorTarget e \<in> export_texts table e" "[] \<in> export_texts table e" using texts_in [of e table] by blast+
  ultimately have c: "tc_u16u8 tc (default_text (wlit ''both'') (le_ColorTarget e)) \<noteq> blit ''both''"
    using default_text_codec(1) [OF assms _ _ codec_literals(8) [OF assms]] by blast
  show "exported (wire_session tc table doc e) = wire_session tc table doc e"
    by (rule exported_session_id [OF k])
      (use c in \<open>simp_all add: wire_session_def profile_label_def empty_Entry_def del: wlit_simps blit_simps\<close>)
qed

text \<open>The entry that arrives.\<close>

definition transferred :: "import_world \<Rightarrow> bool \<Rightarrow> text_codec \<Rightarrow> Glyph list \<Rightarrow> jmembers \<Rightarrow> launch_entry \<Rightarrow> launch_entry" where
  "transferred w has_settings tc table doc e =
     (if le_Kind e = KindSeparatorW then stored e
      else (stored e)\<lparr>le_Profile := resolveImportedProfile w has_settings (bare_profile tc e) (profile_label tc doc e),
             le_Icon := fst (ImportIcon (ExportIcon table (le_Icon e)))\<rparr>)"

lemma import_separator:
  assumes "utf8_codec tc (export_texts table e)" "im_codec w = tc" "lib_ok (im_lib w)" "le_Kind e = KindSeparatorW" "le_Id e \<noteq> []"
  shows "fst (import_row w has_settings fresh (i, TTable (toml_fields (wire_separator tc e)))) = Some (stored e)"
proof -
  note x = wire_separator_exported [OF assms(1)]
  have r: "FromTomlTable (im_lib w) (map_of (toml_fields (wire_separator tc e))) = wire_separator tc e"
    using separator_read [OF assms(3) x(1)] x(2) by simp
  have t: "tc_u8u16 tc (tc_u16u8 tc s) = s" if "s \<in> {le_Id e, le_ParentId e, le_Name e}" for s
    using codec_text [OF assms(1)] texts_in that by blast
  have d: "tc_u8u16 tc (tc_u16u8 tc (default_text StyleLineW (le_SeparatorStyle e))) = default_text StyleLineW (le_SeparatorStyle e)"
    "tc_u8u16 tc (tc_u16u8 tc (default_text PlacementInlineW (le_Placement e))) = default_text PlacementInlineW (le_Placement e)"
    using codec_text [OF assms(1)] texts_in by (simp_all add: default_text_def)
  have n: "tc_u16u8 tc (le_Id e) \<noteq> []" using codec_nil [OF assms(1), of "le_Id e"] texts_in assms(5) by auto
  show ?thesis
    using n x(1) assms(2,4) t d unfolding import_row_def snd_conv tvalue.case r Let_def
    by (simp add: wire_separator_def imported_separator_def stored_def)
qed

lemma import_session:
  assumes "utf8_codec tc (export_texts table e)" "im_codec w = tc" "lib_ok (im_lib w)" "le_Kind e \<noteq> KindSeparatorW" "le_Id e \<noteq> []"
  shows "fst (import_row w has_settings fresh (i, TTable (toml_fields (wire_session tc table doc e)))) = Some (transferred w has_settings tc table doc e)"
proof -
  note x = wire_session_exported [OF assms(1), of doc] and H = hoist_on_the_way [OF assms(1), of "le_Hoist e"]
  have r: "FromTomlTable (im_lib w) (map_of (toml_fields (wire_session tc table doc e))) = wire_session tc table doc e"
    using session_read [OF assms(3) x(1)] x(2) H(1) by (simp add: wire_session_def)
  have t: "tc_u8u16 tc (tc_u16u8 tc s) = s"
    if "s \<in> {le_Id e, le_ParentId e, le_Name e, le_Directory e, le_Command e, le_Color e, ExportIcon table (le_Icon e)}" for s
    using codec_text [OF assms(1)] texts_in that by blast
  have d: "tc_u8u16 tc (tc_u16u8 tc (default_text (wlit ''both'') (le_ColorTarget e))) = default_text (wlit ''both'') (le_ColorTarget e)"
    using codec_text [OF assms(1)] texts_in by (simp add: default_text_def del: wlit_simps)
  have n: "tc_u16u8 tc (le_Id e) \<noteq> []" using codec_nil [OF assms(1), of "le_Id e"] texts_in assms(5) by auto
  have h: "fst (imported_hoist (Hoist_Normalize (le_Hoist e))) = Hoist_Normalize (le_Hoist e)"
    using Hoist_Normalize_idem [of "le_Hoist e"]
    by (simp add: imported_hoist_def Hoist_Normalize_def [of "Hoist_Normalize (le_Hoist e)"] split_beta)
  have fields: "en_id (wire_session tc table doc e) = tc_u16u8 tc (le_Id e)" "en_kind (wire_session tc table doc e) = []"
    by (simp_all add: wire_session_def empty_Entry_def)
  have "fst (imported_session w has_settings (le_Id e) (wire_session tc table doc e)) = transferred w has_settings tc table doc e"
    unfolding imported_session_def assms(2) Let_def split_beta fst_conv using t d H(2,3) h assms(4)
    by (simp add: wire_session_def transferred_def stored_def empty_entry_def del: wlit_simps)
  then show ?thesis
    using n x(1) t unfolding import_row_def snd_conv tvalue.case r Let_def fields assms(2) by (simp add: split_beta)
qed

lemma captured_rows:
  assumes "es \<noteq> []"
  shows "map modelFromRow (rows (snd (CaptureLiveStartup (Some es) ed))) = map reopened es"
proof -
  obtain rws ed1 where a: "append_rows es [] ed = (rws, ed1)" by fastforce
  have r: "rows (select v (commit x)) = rows x" for v x by (simp add: rows_def)
  show ?thesis
    using append_rows_captured [OF a] append_rows_nodes(5) [OF a] assms by (simp add: r recompute_same del: map_eq_conv)
qed

lemma transferred_node: "entry_node (transferred w h tc table doc e) = entry_node e"
  by (simp add: transferred_def entry_node_def node_of_def rowFromModel_def IsSeparator_def stored_def empty_entry_def KindSeparatorW_def)

lemma import_rows_map:
  assumes "list_all2 (\<lambda>el m. \<forall>i. fst (import_row w h fresh (i, el)) = Some m) els ms"
  shows "fst (import_rows w h fresh els) = ms"
proof -
  have "concat (map (\<lambda>r. case fst r of None \<Rightarrow> [] | Some m \<Rightarrow> [m]) (map (import_row w h fresh) (enumerate n els))) = ms" for n
    using assms
  proof (induction els ms arbitrary: n rule: list_all2_induct)
    case (Cons el els m ms)
    then show ?case by (auto simp: enumerate_simps)
  qed simp
  then show ?thesis by (simp add: import_rows_def Let_def)
qed

text \<open>What the TOML library reads from an exported file: the \<^verbatim>\<open>[meta]\<close> table and the blocks' tables.\<close>

definition toml_document :: "Entry list \<Rightarrow> (string \<times> tvalue) list" where
  "toml_document ens =
     [(''meta'', TTable [(''axan-toml-version'', TInt (int (TomlVersionFor ens))), (''exported-by'', TStr (blit ''windows''))]),
      (''startup-sessions'', TArr (map (\<lambda>en. TTable (toml_fields en)) ens))]"

lemma exported_file_accepted:
  assumes "\<forall>i. tl_int64 (im_lib w) (TInt i) = Some i" "im_read w path = Some content" "im_parse w content = Some (toml_document ens)"
    and "fst (import_rows w (ed_settings ed \<noteq> None) fresh (map (\<lambda>en. TTable (toml_fields en)) ens)) = ms" "ms \<noteq> []"
  shows "ImportFromToml w path fresh ed = (True, snd (CaptureLiveStartup (Some ms) ed))"
proof -
  have v: "toml_version w (toml_document ens) = Some (int (TomlVersionFor ens))" using assms(1) by (simp add: toml_version_def toml_document_def)
  have "\<not> int (TomlVersionFor ens) > kTomlVersionMax" by (simp add: TomlVersionFor_def kTomlVersionMax_def)
  moreover have "map_of (toml_document ens) ''startup-sessions'' = Some (TArr (map (\<lambda>en. TTable (toml_fields en)) ens))" by (simp add: toml_document_def)
  moreover obtain rws ed1 where a: "append_rows ms [] ed = (rws, ed1)" by fastforce
  ultimately show ?thesis
    using assms(2-5) append_rows_captured [OF a] unfolding ImportFromToml_def by (simp add: v split_beta a)
qed


text \<open>One machine's tree, and another machine that lacks its profile but has one of the same name in other letters.\<close>

definition sample_saved :: "launch_entry list" where
  "sample_saved = [empty_entry\<lparr>le_Id := wlit ''a'', le_Profile := wlit ''{9}'', le_Icon := wlit ''git'', le_Hoist := wlit ''never''\<rparr>]"

definition sample_members :: jmembers where
  "sample_members = [(''id'', JStr (blit ''a'')), (''parent'', JNull), (''profile'', JStr (blit ''{9}'')), (''name'', JNull), (''directory'', JNull),
     (''command'', JNull), (''icon'', JStr (blit ''git'')), (''hoist'', JStr (blit ''never''))]"

definition sample_settings :: jmembers where
  "sample_settings = [(''startupSessions'', JArr [JObj sample_members]),
     (''profiles'', JObj [(''list'', JArr [JObj [(''guid'', JStr (blit ''{9}'')), (''name'', JStr (blit ''Ubuntu''))]])])]"

definition sample_import_world :: import_world where
  "sample_import_world = \<lparr>im_read = (\<lambda>_. Some (buildStartupSessionsToml ascii_codec [] sample_settings)),
     im_parse = (\<lambda>_. Some (toml_document (export_entries ascii_codec [] sample_settings))), im_lib = strict_lib, im_codec = ascii_codec,
     im_towlower = ascii_lower, im_findProfile = (\<lambda>_. None), im_profiles = Some [(wlit ''pwsh'', wlit ''{1}''), (wlit ''ubuntu'', wlit ''{2}'')]\<rparr>"

definition sample_page :: editor where
  "sample_page = init_editor (Some \<lparr>s_StartupSessions = None, s_DefaultProfile = []\<rparr>)"

lemma ascii_utf8: "\<forall>s \<in> texts. list_all (\<lambda>c. c < 0x80) s \<Longrightarrow> utf8_codec ascii_codec texts"
proof -
  assume t: "\<forall>s \<in> texts. list_all (\<lambda>c. c < 0x80) s"
  have b: "(ucast (ucast x :: wchar) :: byte) = x" for x
    using unsigned_less [of x, where 'a = nat]
    by (simp add: word_unat_eq_iff unsigned_ucast_eq unsigned_take_bit_eq take_bit_nat_eq_self)
  have "map ucast (map ucast s :: bstring) = s" if "list_all (\<lambda>c. c < 0x80) s" for s :: wstring
    using that by (induction s) (simp_all add: ascii_narrow)
  then show ?thesis using t by (simp add: utf8_codec_def ascii_codec_def comp_def b)
qed

lemma sample_saved_json: "map_of sample_members = LaunchEntry_ToJson ascii_codec (hd sample_saved)"
proof
  fix k
  have "hoist_value ascii_codec (hd sample_saved) = Some (JStr (blit ''never''))" by code_simp
  then show "map_of sample_members k = LaunchEntry_ToJson ascii_codec (hd sample_saved) k"
    by (simp add: session_json_at sample_saved_def sample_members_def empty_entry_def KindSeparatorW_def hstring_ToJson_def ascii_codec_def)
qed

lemma sample_saved_texts: "e \<in> set sample_saved \<Longrightarrow> utf8_codec ascii_codec (export_texts [] e) \<and> le_Id e \<noteq> []"
proof -
  assume e: "e \<in> set sample_saved"
  have x: "ExportIcon [] (wlit ''git'') = wlit ''builtin:git''" by code_simp
  have "utf8_codec ascii_codec (export_texts [] e)"
    by (rule ascii_utf8)
      (use e x in \<open>auto simp: sample_saved_def export_texts_def entry_texts_def empty_entry_def kNever_def hoistNames_def\<close>)
  then show "utf8_codec ascii_codec (export_texts [] e) \<and> le_Id e \<noteq> []" using e by (auto simp: sample_saved_def)
qed

lemma sample_arrived:
  defines "a \<equiv> transferred sample_import_world True ascii_codec [] sample_settings (hd sample_saved)"
  shows "le_Id a = wlit ''a''" "le_Profile a = wlit ''{2}''" "le_Icon a = [0xE8AB]" "le_Hoist a = kNever"
proof -
  have i: "fst (ImportIcon (ExportIcon [] (wlit ''git''))) = [0xE8AB]" by code_simp
  have h: "Hoist_Normalize (wlit ''never'') = kNever" by code_simp
  have b: "bare_profile ascii_codec (hd sample_saved) = blit ''9''" by code_simp
  have l: "profile_label ascii_codec sample_settings (hd sample_saved) = blit ''Ubuntu''" by code_simp
  have p: "resolveImportedProfile sample_import_world True (blit ''9'') (blit ''Ubuntu'') = wlit ''{2}''"
    by (simp add: resolveImportedProfile_def braced_guid_def sample_import_world_def profile_by_name_def MatchProfileName_def ascii_codec_def ascii_lower_def)
  note s = transferred_def stored_def sample_saved_def empty_entry_def KindSeparatorW_def
  show "le_Id a = wlit ''a''" by (simp add: a_def s)
  show "le_Profile a = wlit ''{2}''" using b l p by (simp add: a_def transferred_def) (simp add: sample_saved_def empty_entry_def KindSeparatorW_def)
  show "le_Icon a = [0xE8AB]" using i by (simp add: a_def s)
  show "le_Hoist a = kNever" using h by (simp add: a_def s)
qed


end
