(* ===== verification/Axan_IconDrawing.thy ===== *)
theory Axan_IconDrawing
  imports Axan_Glyphs Axan_HoistRule Complex_Main
begin

unbundle bit_operations_syntax

text \<open>
  What an icon is drawn with: the font and its size factor (\<^verbatim>\<open>inc/AxanGlyphScale.h\<close>), the glyph of a
  row's state (\<^verbatim>\<open>inc/AxanStateGlyphs.h\<close>) and the colours (\<^verbatim>\<open>inc/AxanSessionPalette.h\<close>).
\<close>

subsection \<open>Fonts\<close>

definition kFluent :: wstring where "kFluent = wlit ''Segoe Fluent Icons''"
definition kEmoji :: wstring where "kEmoji = wlit ''Segoe UI Emoji''"
definition kText :: wstring where "kText = wlit ''Segoe UI''"
definition kHistoric :: wstring where "kHistoric = wlit ''Segoe UI Historic''"

text \<open>A \<^verbatim>\<open>double\<close> that is no number, or a number.\<close>

datatype scale = NotANumber | Scale real

definition kFonts :: "(wstring \<times> scale) list" where
  "kFonts = [(kFluent, Scale 1), (kEmoji, Scale 1), (kText, Scale 1), (kHistoric, Scale 1.35)]"

definition kMinScale :: real where "kMinScale = 0.5"
definition kMaxScale :: real where "kMaxScale = 3"

record Block =
  bl_first :: "32 word"
  bl_last :: "32 word"
  bl_font :: wstring

definition kBlocks :: "Block list" where
  "kBlocks = map (\<lambda>(first, last). \<lparr>bl_first = first, bl_last = last, bl_font = kHistoric\<rparr>)
     [(0x1680, 0x169F), (0x16A0, 0x16FF), (0x2C00, 0x2C5F), (0x10280, 0x1029F), (0x102A0, 0x102DF), (0x10300, 0x1032F),
      (0x10330, 0x1034F), (0x10380, 0x1039F), (0x103A0, 0x103DF), (0x10450, 0x1047F), (0x10800, 0x1083F), (0x10840, 0x1085F),
      (0x10900, 0x1091F), (0x10920, 0x1093F), (0x109A0, 0x109FF), (0x10A00, 0x10A5F), (0x10A60, 0x10A7F), (0x10B40, 0x10B5F),
      (0x10B60, 0x10B7F), (0x10C00, 0x10C4F), (0x11000, 0x1107F), (0x12000, 0x123FF), (0x12400, 0x1247F), (0x13000, 0x1342F),
      (0x13430, 0x1345F)]"

definition ClampScale :: "scale \<Rightarrow> scale" where
  "ClampScale v =
     (case v of
        NotANumber \<Rightarrow> Scale 1
      | Scale x \<Rightarrow> Scale (if x < kMinScale then kMinScale else if x > kMaxScale then kMaxScale else x))"

definition FoldFamilyChar :: "wchar \<Rightarrow> wchar" where
  "FoldFamilyChar ch = (if 0x41 \<le> ch \<and> ch \<le> 0x5A then ch - 0x41 + 0x61 else ch)"

definition SameFamily :: "wstring \<Rightarrow> wstring \<Rightarrow> bool" where
  "SameFamily a b \<longleftrightarrow> length a = length b \<and> list_all (\<lambda>i. FoldFamilyChar (a ! i) = FoldFamilyChar (b ! i)) [0 ..< length a]"

fun FamilyLess :: "wstring \<Rightarrow> wstring \<Rightarrow> bool" where
  "FamilyLess (x # a) (y # b) =
     (if FoldFamilyChar x \<noteq> FoldFamilyChar y then FoldFamilyChar x < FoldFamilyChar y else FamilyLess a b)"
| "FamilyLess a b = (length a < length b)"

definition KnownFamily :: "wstring \<Rightarrow> wstring" where
  "KnownFamily family = (case find (\<lambda>f. SameFamily (fst f) family) kFonts of Some f \<Rightarrow> fst f | None \<Rightarrow> [])"

definition CanonicalFamily :: "wstring \<Rightarrow> wstring" where
  "CanonicalFamily family = (if KnownFamily family = [] then family else KnownFamily family)"

definition FontScaleFor :: "wstring \<Rightarrow> scale" where
  "FontScaleFor font = (case find (\<lambda>f. SameFamily (fst f) font) kFonts of Some f \<Rightarrow> snd f | None \<Rightarrow> Scale 1)"

definition FontScaleFor_with :: "wstring \<Rightarrow> (wstring \<Rightarrow> scale option) \<Rightarrow> scale" where
  "FontScaleFor_with font lookup = (case lookup font of Some v \<Rightarrow> ClampScale v | None \<Rightarrow> FontScaleFor font)"

definition FirstCodepoint :: "wstring \<Rightarrow> 32 word" where
  "FirstCodepoint text =
     (if text = [] then 0
      else let hi = ucast (text ! 0)
           in if hi \<ge> 0xD800 \<and> hi \<le> 0xDBFF then
                (if length text < 2 then 0
                 else let lo = ucast (text ! 1)
                      in if lo < 0xDC00 \<or> lo > 0xDFFF then 0
                         else 0x10000 + push_bit 10 (hi - 0xD800) + (lo - 0xDC00))
              else if hi \<ge> 0xDC00 \<and> hi \<le> 0xDFFF then 0
              else hi)"

definition IsEmojiCodepoint :: "32 word \<Rightarrow> bool" where
  "IsEmojiCodepoint cp \<longleftrightarrow> (cp \<ge> 0x1F000 \<and> cp \<le> 0x1FAFF) \<or> (cp \<ge> 0x2600 \<and> cp \<le> 0x27BF)"

definition FontForGlyph :: "wstring \<Rightarrow> wstring" where
  "FontForGlyph glyph =
     (let cp = FirstCodepoint glyph
      in if cp = 0 then []
         else if cp \<ge> 0xE700 \<and> cp \<le> 0xF8FF then kFluent
         else case find (\<lambda>b. cp \<ge> bl_first b \<and> cp \<le> bl_last b) kBlocks of
                Some b \<Rightarrow> bl_font b
              | None \<Rightarrow>
                  (let units = (if cp \<ge> 0x10000 then 2 else 1)
                   in if IsEmojiCodepoint cp \<or> (length glyph > units \<and> glyph ! units = 0xFE0F) then kEmoji else kText))"

definition ScaleFor :: "wstring \<Rightarrow> scale" where
  "ScaleFor glyph = FontScaleFor (FontForGlyph glyph)"

definition ScaleFor_with :: "wstring \<Rightarrow> (wstring \<Rightarrow> scale option) \<Rightarrow> scale" where
  "ScaleFor_with glyph lookup = FontScaleFor_with (FontForGlyph glyph) lookup"

definition LooksLikeGlyph :: "wstring \<Rightarrow> bool" where
  "LooksLikeGlyph text =
     (let cp = FirstCodepoint text
      in if cp = 0 then False else list_all (\<lambda>c. c > 0x7F) (drop (if cp \<ge> 0x10000 then 2 else 1) text))"

definition FamilyForIcon :: "Glyph list \<Rightarrow> wstring \<Rightarrow> wstring" where
  "FamilyForIcon table icon =
     (let resolved = ResolveIcon table icon in if \<not> LooksLikeGlyph resolved then [] else FontForGlyph resolved)"

subsection \<open>The glyph of a state\<close>

definition kDefaultIdle :: wstring where "kDefaultIdle = [0xE99A]"
definition kDefaultWorking :: wstring where "kDefaultWorking = [0xE945]"
definition kDefaultRunning :: wstring where "kDefaultRunning = [0xE768]"

definition kKeys :: "wstring list" where
  "kKeys = map wlit [''idle'', ''working'', ''blocked'', ''done'', ''error'', ''running'']"

definition kKindKeys :: "wstring list" where
  "kKindKeys = map wlit [''permission'', ''question'', ''auth'']"

definition DefaultFor :: "wstring \<Rightarrow> wstring" where
  "DefaultFor key =
     (if key = wlit ''idle'' then kDefaultIdle
      else if key = wlit ''working'' then kDefaultWorking
      else if key = wlit ''running'' then kDefaultRunning
      else [])"

definition IsKindKey :: "wstring \<Rightarrow> bool" where
  "IsKindKey key = list_ex (\<lambda>k. k = key) kKindKeys"

definition IsKey :: "wstring \<Rightarrow> bool" where
  "IsKey key \<longleftrightarrow> list_ex (\<lambda>k. k = key) kKeys \<or> IsKindKey key"

definition Resolve_glyph :: "wstring option \<Rightarrow> wstring \<Rightarrow> wstring" where
  "Resolve_glyph configured fallback =
     (case configured of
        None \<Rightarrow> fallback
      | Some v \<Rightarrow> if list_all is_name_space v then [] else fst (PortableToNative (TrimName v)))"

definition GlyphFor :: "wstring \<Rightarrow> (wstring \<Rightarrow> wstring option) \<Rightarrow> wstring" where
  "GlyphFor key lookup = (if \<not> IsKey key then [] else Resolve_glyph (lookup key) (DefaultFor key))"

definition GlyphFor_kind :: "wstring \<Rightarrow> wstring \<Rightarrow> (wstring \<Rightarrow> wstring option) \<Rightarrow> wstring" where
  "GlyphFor_kind key kind lookup =
     (case (if key = wlit ''blocked'' \<and> IsKindKey kind then lookup kind else None) of
        Some configured \<Rightarrow> Resolve_glyph (Some configured) []
      | None \<Rightarrow> GlyphFor key lookup)"

definition WordToken :: "wstring \<Rightarrow> wstring \<Rightarrow> wstring" where
  "WordToken key kind =
     (if key = wlit ''blocked'' then
        (if kind = wlit ''permission'' then wlit ''needs-permission''
         else if kind = wlit ''question'' then wlit ''needs-answer''
         else if kind = wlit ''auth'' then wlit ''needs-login''
         else wlit ''needs-you'')
      else case find (\<lambda>k. k = key) kKeys of Some k \<Rightarrow> k | None \<Rightarrow> [])"

subsection \<open>Colours\<close>

definition kLight :: "(wstring \<times> wstring) list" where
  "kLight = map (\<lambda>(n, h). (wlit n, wlit h))
     [(''red'', ''#df0025''), (''orange'', ''#a35c00''), (''yellow'', ''#787101''), (''green'', ''#007f39''),
      (''blue'', ''#0277a4''), (''purple'', ''#7d04ff'')]"

definition kDark :: "(wstring \<times> wstring) list" where
  "kDark = map (\<lambda>(n, h). (wlit n, wlit h))
     [(''red'', ''#ff6f69''), (''orange'', ''#ff9405''), (''yellow'', ''#f8ea09''), (''green'', ''#09ff79''),
      (''blue'', ''#12bbff''), (''purple'', ''#b5a1ff'')]"

text \<open>\<open>towlower\<close> is the C library's function of that name.\<close>

definition AsciiIEquals :: "(wchar \<Rightarrow> wchar) \<Rightarrow> wstring \<Rightarrow> wstring \<Rightarrow> bool" where
  "AsciiIEquals towlower a b \<longleftrightarrow> length a = length b \<and> list_all (\<lambda>i. towlower (a ! i) = towlower (b ! i)) [0 ..< length a]"

definition ResolveToken :: "(wchar \<Rightarrow> wchar) \<Rightarrow> wstring \<Rightarrow> bool \<Rightarrow> wstring" where
  "ResolveToken towlower token isDarkTheme =
     (if token = [] then []
      else if hd token = 0x23 then token
      else case find (\<lambda>sw. AsciiIEquals towlower token (fst sw)) (if isDarkTheme then kDark else kLight) of
             Some sw \<Rightarrow> snd sw
           | None \<Rightarrow> [])"

record Rgba =
  rgba_a :: byte
  rgba_r :: byte
  rgba_g :: byte
  rgba_b :: byte

definition nibble_step :: "wchar \<Rightarrow> 32 word option \<Rightarrow> 32 word option" where
  "nibble_step c a =
     (case a of
        None \<Rightarrow> None
      | Some v \<Rightarrow>
          if 0x30 \<le> c \<and> c \<le> 0x39 then Some (push_bit 4 v OR ucast (c - 0x30))
          else if 0x61 \<le> c \<and> c \<le> 0x66 then Some (push_bit 4 v OR ucast (c - 0x61 + 10))
          else if 0x41 \<le> c \<and> c \<le> 0x46 then Some (push_bit 4 v OR ucast (c - 0x41 + 10))
          else None)"

definition ParseHexColor :: "wstring \<Rightarrow> Rgba option" where
  "ParseHexColor s0 =
     (if s0 = [] \<or> hd s0 \<noteq> 0x23 then None
      else let s = tl s0
           in if length s \<noteq> 6 \<and> length s \<noteq> 8 then None
              else case fold nibble_step s (Some 0) of
                     None \<Rightarrow> None
                   | Some v \<Rightarrow> Some \<lparr>rgba_a = (if length s = 8 then ucast (drop_bit 24 v AND 0xFF) else 0xFF),
                                rgba_r = ucast (drop_bit 16 v AND 0xFF), rgba_g = ucast (drop_bit 8 v AND 0xFF), rgba_b = ucast (v AND 0xFF)\<rparr>)"

subsection \<open>UTF-16\<close>

lemma ucast_up: "unat (ucast c :: 32 word) = unat c" for c :: wchar
  using unsigned_less [of c, where 'a = nat] by (simp add: unsigned_ucast_eq take_bit_nat_eq_self)

lemma ucast_down: "unat v < 0x10000 \<Longrightarrow> unat (ucast v :: wchar) = unat v" for v :: "32 word"
  by (simp add: unsigned_ucast_eq take_bit_nat_eq_self)

lemma supplementary_parts:
  fixes cp :: "32 word"
  assumes "0x10000 \<le> cp" "unat cp \<le> 0x10FFFF"
  defines "v \<equiv> cp - 0x10000"
  shows "unat (ucast (ucast (0xD800 + drop_bit 10 v) :: wchar) :: 32 word) = 0xD800 + unat v div 1024"
    "unat (ucast (ucast (0xDC00 + (v AND 0x3FF)) :: wchar) :: 32 word) = 0xDC00 + unat v mod 1024" "unat v < 0x100000"
proof -
  have v: "unat v = unat cp - 0x10000" unfolding v_def using assms(1) by (simp add: unat_sub word_le_nat_alt)
  then show b: "unat v < 0x100000" using assms(2) by simp
  have m: "(0x3FF :: 32 word) = mask 10" by (simp add: mask_eq_exp_minus_1)
  have "unat (drop_bit 10 v) = unat v div 1024" by (simp add: drop_bit_eq_div unat_div)
  then have hi: "unat (0xD800 + drop_bit 10 v) = 0xD800 + unat v div 1024"
    using b by (subst unat_add_lem [THEN iffD1]) (auto simp: less_mult_imp_div_less intro: le_less_trans [of _ "0xD800 + 1024"])
  have "unat (v AND 0x3FF) = unat v mod 1024"
    by (simp only: m take_bit_eq_mask [symmetric] unsigned_take_bit_eq) (simp add: take_bit_eq_mod)
  then have lo: "unat (0xDC00 + (v AND 0x3FF)) = 0xDC00 + unat v mod 1024"
    by (subst unat_add_lem [THEN iffD1]) (auto intro: less_trans [of _ "0xDC00 + 1024"])
  have "unat v div 1024 < 1024" using b by (simp add: less_mult_imp_div_less)
  then show "unat (ucast (ucast (0xD800 + drop_bit 10 v) :: wchar) :: 32 word) = 0xD800 + unat v div 1024"
    by (subst ucast_up, subst ucast_down) (simp_all add: hi)
  show "unat (ucast (ucast (0xDC00 + (v AND 0x3FF)) :: wchar) :: 32 word) = 0xDC00 + unat v mod 1024"
    using mod_less_divisor [of 1024 "unat v"] by (subst ucast_up, subst ucast_down) (simp_all add: lo)
qed

lemma FirstCodepoint_single:
  assumes "cp < 0x10000" "\<not> (cp \<ge> 0xD800 \<and> cp \<le> 0xDFFF)"
  shows "FirstCodepoint [ucast cp] = cp"
proof -
  have "(ucast (ucast cp :: wchar) :: 32 word) = cp"
    using assms(1) by (simp add: word_unat_eq_iff ucast_up ucast_down word_less_nat_alt)
  then show ?thesis using assms(2) by (auto simp: FirstCodepoint_def word_le_nat_alt)
qed

lemma FirstCodepoint_pair:
  fixes cp :: "32 word"
  assumes "0x10000 \<le> cp" "unat cp \<le> 0x10FFFF"
  defines "v \<equiv> cp - 0x10000"
  shows "FirstCodepoint [ucast (0xD800 + drop_bit 10 v), ucast (0xDC00 + (v AND 0x3FF))] = cp"
proof -
  define hi lo :: "32 word" where "hi = ucast (ucast (0xD800 + drop_bit 10 v) :: wchar)" and "lo = ucast (ucast (0xDC00 + (v AND 0x3FF)) :: wchar)"
  note parts = supplementary_parts [OF assms(1,2), folded v_def, folded hi_def lo_def]
  have "unat v div 1024 < 1024" using parts(3) by (simp add: less_mult_imp_div_less)
  then have b: "hi \<ge> 0xD800" "hi \<le> 0xDBFF" "lo \<ge> 0xDC00" "lo \<le> 0xDFFF"
    using parts(1,2) mod_less_divisor [of 1024 "unat v"] by (simp_all add: word_le_nat_alt)
  have "unat (hi - 0xD800) = unat v div 1024" "unat (lo - 0xDC00) = unat v mod 1024"
    using b(1,3) parts(1,2) by (simp_all add: unat_sub)
  moreover have "hi - 0xD800 = of_nat (unat (hi - 0xD800))" "lo - 0xDC00 = of_nat (unat (lo - 0xDC00))" by simp_all
  ultimately have "hi - 0xD800 = of_nat (unat v div 1024)" "lo - 0xDC00 = of_nat (unat v mod 1024)" by metis+
  then have "push_bit 10 (hi - 0xD800) + (lo - 0xDC00) = of_nat (unat v div 1024) * 1024 + of_nat (unat v mod 1024)"
    by (simp add: push_bit_eq_mult)
  also have "\<dots> = of_nat (unat v div 1024 * 1024 + unat v mod 1024)" by (simp only: of_nat_add of_nat_mult of_nat_numeral)
  also have "\<dots> = v" by (simp only: div_mult_mod_eq) simp
  finally have "push_bit 10 (hi - 0xD800) + (lo - 0xDC00) = v" .
  then have e: "0x10000 + push_bit 10 (hi - 0xD800) + (lo - 0xDC00) = cp" by (simp add: v_def add.assoc)
  have "\<not> lo < 0xDC00" "\<not> lo > 0xDFFF" using b by (simp_all add: not_less)
  then show ?thesis unfolding FirstCodepoint_def using b(1,2) e by (simp add: Let_def flip: hi_def lo_def)
qed

lemma FirstCodepoint_ToUtf16: "IsPickableScalar cp \<Longrightarrow> FirstCodepoint (ToUtf16 cp) = cp"
  using FirstCodepoint_single [of cp] FirstCodepoint_pair [of cp] pickable_bound [of cp]
  by (auto simp: ToUtf16_def Let_def not_less IsPickableScalar_def split: if_splits)

lemma parse_pickable: "ParseCodepoint q = Some cp \<Longrightarrow> IsPickableScalar cp"
  by (auto simp: ParseCodepoint_def ClassifyCodepoint_def Let_def split: CodepointText.splits if_splits option.splits)

lemma pickable_nonzero: "IsPickableScalar cp \<Longrightarrow> cp \<noteq> 0"
  by (auto simp: IsPickableScalar_def)

lemma pickable_glyph: "IsPickableScalar cp \<Longrightarrow> LooksLikeGlyph (ToUtf16 cp)"
  using FirstCodepoint_ToUtf16 [of cp] pickable_nonzero [of cp]
  by (simp add: LooksLikeGlyph_def) (simp add: ToUtf16_def Let_def not_less [symmetric])

lemma block_fonts: "b \<in> set kBlocks \<Longrightarrow> bl_font b = kHistoric"
  by (auto simp: kBlocks_def)

lemma FontForGlyph_known: "FirstCodepoint g \<noteq> 0 \<Longrightarrow> FontForGlyph g \<in> fst ` set kFonts"
  by (auto simp: FontForGlyph_def Let_def kFonts_def block_fonts split: option.split dest!: find_SomeD)

text \<open>
  C40. Code-point text: the text that the picker shows for a character that may be an icon
  is read back as that character, both by the search box and as an icon, where it becomes
  the character's UTF-16 form; that form is drawn as one glyph with a font of the table. Text that is
  accepted as a code point always stands for such a character.
\<close>

theorem codepoint_text_drawn:
  "(IsPickableScalar cp \<longleftrightarrow> ParseCodepoint (FormatCodepoint cp) = Some cp) \<and>
   (if IsPickableScalar cp
    then Resolve table (FormatCodepoint cp) = (ToUtf16 cp, Resolved) \<and> FirstCodepoint (ToUtf16 cp) = cp \<and>
         LooksLikeGlyph (ToUtf16 cp) \<and> FamilyForIcon table (FormatCodepoint cp) \<in> fst ` set kFonts
    else cp \<notin> ran ParseCodepoint)"
proof (cases "IsPickableScalar cp")
  case True
  then have "Resolve table (FormatCodepoint cp) = (ToUtf16 cp, Resolved)" "ParseCodepoint (FormatCodepoint cp) = Some cp"
    using format_long [of cp] by (simp_all add: Resolve_def format_not_name format_classified ParseCodepoint_def)
  then show ?thesis
    using True FirstCodepoint_ToUtf16 [OF True] pickable_nonzero [OF True] pickable_glyph [OF True] FontForGlyph_known [of "ToUtf16 cp"]
    by (simp add: FamilyForIcon_def ResolveIcon_def)
next
  case False
  then show ?thesis using parse_pickable by (auto simp: ran_def)
qed

subsection \<open>Font families and sizes\<close>

lemma SameFamily_iff: "SameFamily a b \<longleftrightarrow> map FoldFamilyChar a = map FoldFamilyChar b"
  unfolding SameFamily_def list_eq_iff_nth_eq [of "map FoldFamilyChar a"] list_all_length by auto

lemma FamilyLess_iff: "FamilyLess a b \<longleftrightarrow> ord_class.lexordp (map FoldFamilyChar a) (map FoldFamilyChar b)"
proof (induction a b rule: FamilyLess.induct)
  case (1 x a y b)
  then show ?case by (cases "FoldFamilyChar x" "FoldFamilyChar y" rule: linorder_cases) auto
qed simp_all

lemma FontScaleFor_cong: "map FoldFamilyChar a = map FoldFamilyChar b \<Longrightarrow> FontScaleFor a = FontScaleFor b"
  by (simp add: FontScaleFor_def SameFamily_iff)

lemma CanonicalFamily_same: "SameFamily (CanonicalFamily a) a"
proof (cases "find (\<lambda>f. SameFamily (fst f) a) kFonts")
  case None
  then show ?thesis by (simp add: CanonicalFamily_def KnownFamily_def SameFamily_iff)
next
  case (Some f)
  then show ?thesis using find_SomeD [OF Some] by (simp add: CanonicalFamily_def KnownFamily_def SameFamily_iff)
qed

lemma font_scale_range: "\<exists>x. FontScaleFor font = Scale x \<and> kMinScale \<le> x \<and> x \<le> kMaxScale"
proof (cases "find (\<lambda>f. SameFamily (fst f) font) kFonts")
  case (Some f)
  then have "snd f \<in> {Scale 1, Scale 1.35}" using find_SomeD [OF Some] by (auto simp: kFonts_def)
  then show ?thesis using Some by (auto simp: FontScaleFor_def kMinScale_def kMaxScale_def)
qed (simp add: FontScaleFor_def kMinScale_def kMaxScale_def)

text \<open>
  The ordering that keys the maps of font families is a strict order up to the case of letters: it
  never holds both ways, is transitive, and two families are unordered exactly when they are the
  same family. A family keeps its factor when it is stored in its canonical spelling.
\<close>

lemma family_order:
  "\<not> (FamilyLess a b \<and> FamilyLess b a) \<and> (FamilyLess a c \<or> \<not> FamilyLess a b \<or> \<not> FamilyLess b c) \<and>
   (SameFamily a b \<longleftrightarrow> \<not> FamilyLess a b \<and> \<not> FamilyLess b a) \<and>
   SameFamily (CanonicalFamily a) a \<and> FontScaleFor (CanonicalFamily a) = FontScaleFor a"
  using lexordp_antisym [of "map FoldFamilyChar a" "map FoldFamilyChar b"] lexordp_linear [of "map FoldFamilyChar a" "map FoldFamilyChar b"]
    lexordp_trans [of "map FoldFamilyChar a" "map FoldFamilyChar b" "map FoldFamilyChar c"] lexordp_irreflexive' [of "map FoldFamilyChar a"]
    CanonicalFamily_same [of a] FontScaleFor_cong [of "CanonicalFamily a" a]
  unfolding FamilyLess_iff SameFamily_iff by auto

text \<open>
  The factor of a glyph is a number between 0.5 and 3, whatever the settings hold for its font.
\<close>

lemma icon_scale_bounds: "\<exists>x. ScaleFor_with glyph lookup = Scale x \<and> kMinScale \<le> x \<and> x \<le> kMaxScale"
  using font_scale_range [of "FontForGlyph glyph"]
  by (auto simp: ScaleFor_with_def FontScaleFor_with_def ClampScale_def kMinScale_def kMaxScale_def split: option.split scale.split)

subsection \<open>States and colours\<close>

text \<open>The word and the key of a slot: a slot is shown by a word exactly when it has a key, and different shown states have different words.\<close>

lemma slot_word:
  "(WordToken (SlotKey slot) kind = [] \<longleftrightarrow> slot = SlotNone) \<and> (IsKey (SlotKey slot) \<longleftrightarrow> slot \<noteq> SlotNone)"
  by (cases slot) (simp_all add: WordToken_def SlotKey_def kKeys_def IsKey_def IsKindKey_def kKindKeys_def)

lemma slot_word_distinct:
  "WordToken (SlotKey s) k = WordToken (SlotKey t) l \<Longrightarrow> s = t \<and> (s = SlotBlocked \<and> IsKindKey k \<longrightarrow> k = l)"
  by (cases s; cases t) (auto simp: WordToken_def SlotKey_def kKeys_def IsKindKey_def kKindKeys_def split: if_splits)

text \<open>Every colour of the palettes is one that the parser reads.\<close>

lemma palette_parses: "(n, h) \<in> set kLight \<union> set kDark \<Longrightarrow> \<exists>c. ParseHexColor h = Some c"
proof -
  have "list_all (\<lambda>sw. \<exists>c. ParseHexColor (snd sw) = Some c) (kLight @ kDark)"
    by (simp add: kLight_def kDark_def ParseHexColor_def nibble_step_def)
  then show "(n, h) \<in> set kLight \<union> set kDark \<Longrightarrow> ?thesis" unfolding list_all_iff set_append by (metis snd_conv)
qed

lemma token_paints: "ResolveToken towlower token dark \<noteq> [] \<Longrightarrow> hd token \<noteq> 0x23 \<Longrightarrow> ParseHexColor (ResolveToken towlower token dark) \<noteq> None"
  by (cases "find (\<lambda>sw. AsciiIEquals towlower token (fst sw)) (if dark then kDark else kLight)")
     (auto simp: ResolveToken_def dest!: find_SomeD intro: palette_parses [OF UnI1] palette_parses [OF UnI2] split: if_splits)

end
